(* ===== verification/Prelude.thy ===== *)
theory Prelude
  imports Main "HOL-Library.Word"
begin

unbundle bit_operations_syntax

text \<open>
  What every component shares: the machine-integer types of the Rust source, the population
  count of a word, single-bit masks, the index loops of the source as folds, decimal
  formatting, and the collections of rewrite rules the component proofs use.

  \<^item> \<open>u8 .. u64\<close> are words of their width; \<open>usize\<close> is 64 bits, as
    \<^verbatim>\<open>rust/tenzorbus/src/lib.rs\<close> refuses every other target. Arithmetic on them wraps, as the
    release profile of the source does (no profile of the repository sets
    \<^verbatim>\<open>overflow-checks\<close>).
  \<^item> a Rust \<^verbatim>\<open>char\<close> is its code point, a natural number; a Rust string is a list of them.
\<close>

type_synonym u8 = "8 word"
type_synonym u16 = "16 word"
type_synonym u32 = "32 word"
type_synonym u64 = "64 word"
type_synonym usize = "64 word"
type_synonym rchar = nat
type_synonym rstring = "nat list"

named_theorems layout_defs
named_theorems ring_simps

subsection \<open>Strings\<close>

definition ascii :: "string \<Rightarrow> rstring" where
  "ascii s = map of_char s"

lemma ascii_append [simp]: "ascii (s @ t) = ascii s @ ascii t"
  by (simp add: ascii_def)

lemma length_ascii [simp]: "length (ascii s) = length s"
  by (simp add: ascii_def)

fun dec :: "nat \<Rightarrow> string" where
  "dec n = (if n < 10 then [char_of (48 + n)] else dec (n div 10) @ [char_of (48 + n mod 10)])"

declare dec.simps [simp del]

lemma dec_not_Nil: "dec n \<noteq> []"
  by (subst dec.simps) simp

subsection \<open>Words as sets of bits\<close>

lemma unat_u64_less: "unat (w :: u64) < 2 ^ 64"
  using unsigned_less [of w, where 'a = nat] by simp

lemma unat_u32_less: "unat (w :: u32) < 2 ^ 32"
  using unsigned_less [of w, where 'a = nat] by simp

definition count_ones :: "'a::len word \<Rightarrow> nat" where
  "count_ones w = length (filter (bit w) [0..<LENGTH('a)])"

definition one_bit :: "nat \<Rightarrow> u64" where
  "one_bit i = push_bit i 1"

lemma count_ones_card: "count_ones (w :: 'a::len word) = card {i. i < LENGTH('a) \<and> bit w i}"
proof -
  have "count_ones w = card (set (filter (bit w) [0..<LENGTH('a)]))"
    unfolding count_ones_def by (rule distinct_card [symmetric]) simp
  also have "set (filter (bit w) [0..<LENGTH('a)]) = {i. i < LENGTH('a) \<and> bit w i}"
    by auto
  finally show ?thesis .
qed

lemma count_ones_le: "count_ones (w :: 'a::len word) \<le> LENGTH('a)"
  unfolding count_ones_def by (rule order_trans [OF length_filter_le]) simp

lemma count_ones_0 [simp]: "count_ones (0 :: 'a::len word) = 0"
  by (simp add: count_ones_def)

lemma count_ones_eq_0 [simp]: "count_ones (w :: 'a::len word) = 0 \<longleftrightarrow> w = 0"
proof
  assume "count_ones w = 0"
  then have none: "\<not> bit w i" if "i < LENGTH('a)" for i
    using that by (auto simp: count_ones_def filter_empty_conv)
  show "w = 0"
    by (rule bit_word_eqI) (simp add: none)
qed simp

lemma bit_one_bit: "bit (one_bit i) j \<longleftrightarrow> i = j \<and> j < 64"
  unfolding one_bit_def push_bit_of_1 bit_exp_iff by auto

lemma and_one_bit: "(w AND one_bit i = 0) \<longleftrightarrow> \<not> (i < 64 \<and> bit w i)"
proof
  assume eq: "w AND one_bit i = 0"
  show "\<not> (i < 64 \<and> bit w i)"
  proof
    assume "i < 64 \<and> bit w i"
    then have "bit (w AND one_bit i) i" by (simp add: bit_and_iff bit_one_bit)
    with eq show False by simp
  qed
next
  assume "\<not> (i < 64 \<and> bit w i)"
  then show "w AND one_bit i = 0"
    by (intro bit_word_eqI) (auto simp: bit_and_iff bit_one_bit)
qed

lemma bit_and_not_one_bit: "bit (w AND NOT (one_bit i)) j \<longleftrightarrow> bit w j \<and> i \<noteq> j"
  for w :: u64
proof (cases "j < 64")
  case True
  then show ?thesis by (auto simp: bit_and_iff bit_not_iff bit_one_bit)
next
  case False
  then have "\<not> bit w j" using bit_imp_le_length [of w j] by auto
  then show ?thesis by (simp add: bit_and_iff)
qed

lemma and_not_one_bit_id: "\<not> bit w i \<Longrightarrow> w AND NOT (one_bit i) = w"
  for w :: u64
  by (rule bit_word_eqI) (auto simp: bit_and_not_one_bit)

lemma bit_or_one_bit: "bit (w OR one_bit i) j \<longleftrightarrow> bit w j \<or> (i = j \<and> j < 64)"
  for w :: u64
  by (auto simp: bit_or_iff bit_one_bit)

lemma count_ones_insert:
  assumes "i < 64" and "\<not> bit w i"
  shows "count_ones (w OR one_bit i) = Suc (count_ones (w :: u64))"
proof -
  have "{j. j < LENGTH(64) \<and> bit (w OR one_bit i) j} = insert i {j. j < LENGTH(64) \<and> bit w j}"
    using assms by (auto simp: bit_or_one_bit)
  then show ?thesis using assms by (simp add: count_ones_card)
qed

lemma count_ones_remove:
  assumes "i < 64" and "bit w i"
  shows "Suc (count_ones (w AND NOT (one_bit i))) = count_ones (w :: u64)"
proof -
  have "\<not> bit (w AND NOT (one_bit i)) i"
    by (simp add: bit_and_not_one_bit)
  moreover have "(w AND NOT (one_bit i)) OR one_bit i = w"
    using assms by (intro bit_word_eqI) (auto simp: bit_or_one_bit bit_and_not_one_bit)
  ultimately show ?thesis
    using count_ones_insert [of i "w AND NOT (one_bit i)"] assms by simp
qed

subsection \<open>Index loops\<close>

text \<open>
  The source walks its tables with \<^verbatim>\<open>for i in 0..n\<close>. A loop whose body rewrites entry \<open>i\<close>
  from entry \<open>i\<close> alone is \<open>map\<close>.
\<close>

lemma fold_update_map_aux:
  assumes "n \<le> length xs"
  shows "fold (\<lambda>i ys. ys[i := f (ys ! i)]) [0..<n] xs = map f (take n xs) @ drop n xs"
  using assms
proof (induction n)
  case 0
  then show ?case by simp
next
  case (Suc n)
  then have "n < length xs" by simp
  with Suc show ?case
    by (simp add: nth_append list_update_append take_Suc_conv_app_nth Cons_nth_drop_Suc [symmetric])
qed

lemma fold_update_map:
  "fold (\<lambda>i ys. ys[i := f (ys ! i)]) [0..<length xs] xs = map f xs"
  by (simp add: fold_update_map_aux)

lemma ball_set_update: "\<forall>x\<in>set xs. P x \<Longrightarrow> P y \<Longrightarrow> \<forall>x\<in>set (xs[i := y]). P x"
  using set_update_subset_insert [of xs i y] by blast

subsection \<open>Tables of codes\<close>

text \<open>
  A frozen code table is an encoder and a partial decoder that undo each other. The dtype codes,
  the numpy spellings and the wire fields are such tables.
\<close>

locale codec =
  fixes enc :: "'a \<Rightarrow> 'b"
    and decode :: "'b \<Rightarrow> 'a option"
  assumes decode_enc: "decode (enc a) = Some a"
    and enc_decode: "decode b = Some a \<Longrightarrow> enc a = b"
begin

lemma enc_eq_iff: "enc a = enc b \<longleftrightarrow> a = b"
proof
  assume "enc a = enc b"
  then have "decode (enc a) = decode (enc b)" by simp
  then show "a = b" by (simp add: decode_enc)
qed simp

lemma decode_iff: "decode b = Some a \<longleftrightarrow> b = enc a"
  by (auto simp: decode_enc dest: enc_decode)

lemma decode_None_iff: "decode b = None \<longleftrightarrow> b \<notin> range enc"
  by (metis decode_iff image_iff not_Some_eq rangeI)

end

subsection \<open>Invariants\<close>

text \<open>
  A step relation and a predicate every step keeps; the predicate then holds along every run.
\<close>

locale preserved_by =
  fixes step :: "'s \<Rightarrow> 's \<Rightarrow> bool"
    and inv :: "'s \<Rightarrow> bool"
  assumes step_inv: "step s t \<Longrightarrow> inv s \<Longrightarrow> inv t"
begin

lemma run_inv: "step\<^sup>*\<^sup>* s t \<Longrightarrow> inv s \<Longrightarrow> inv t"
  by (induction rule: rtranclp_induct) (auto dest: step_inv)

lemma run_from_inv:
  assumes "inv s0" and "step\<^sup>*\<^sup>* s0 t"
  shows "inv t"
  using assms(2,1) by (rule run_inv)

end

end
