(* ===== verification/Layout.thy ===== *)
theory Layout
  imports Prelude
begin

text \<open>
  The crate \<^verbatim>\<open>rust/tenzor-core\<close> (\<^verbatim>\<open>src/lib.rs\<close>): the frozen byte layout of a ring, the dtype
  table, the two \<^verbatim>\<open>repr(C)\<close> header structs with their compile-time layout assertions, the layout
  arithmetic on \<^verbatim>\<open>usize\<close> and the wrapping sequence comparison. Offsets and sizes are
  \<^typ>\<open>usize\<close> words, so that the arithmetic wraps exactly where the code's does; the lemmas
  \<open>unat_...\<close> give its value in the naturals whenever the ring fits the address space.
\<close>

subsection \<open>Constants\<close>

definition PROTOCOL_MAGIC :: "u8 list" where
  "PROTOCOL_MAGIC = map of_nat (ascii ''TZBUS001'')"

definition SLOT_MAGIC :: "u8 list" where
  "SLOT_MAGIC = map of_nat (ascii ''SLOT'')"

definition PROTOCOL_VERSION :: u32 where [layout_defs]: "PROTOCOL_VERSION = 1"
definition MAX_NDIM :: nat where [layout_defs]: "MAX_NDIM = 8"
definition GLOBAL_HEADER_SIZE :: usize where [layout_defs]: "GLOBAL_HEADER_SIZE = 4096"
definition SLOT_HEADER_SIZE :: usize where [layout_defs]: "SLOT_HEADER_SIZE = 128"
definition MAX_CONSUMERS :: nat where [layout_defs]: "MAX_CONSUMERS = 64"

definition STATE_FREE :: u32 where [layout_defs]: "STATE_FREE = 0"
definition STATE_COMMITTED :: u32 where [layout_defs]: "STATE_COMMITTED = 1"
definition STATE_WRITING :: u32 where [layout_defs]: "STATE_WRITING = 2"

definition G_MAGIC :: usize where [layout_defs]: "G_MAGIC = 0"
definition G_VERSION :: usize where [layout_defs]: "G_VERSION = 8"
definition G_SLOT_COUNT :: usize where [layout_defs]: "G_SLOT_COUNT = 12"
definition G_SLOT_CAPACITY :: usize where [layout_defs]: "G_SLOT_CAPACITY = 16"
definition G_NEXT_SEQ :: usize where [layout_defs]: "G_NEXT_SEQ = 24"
definition G_CONSUMERS :: usize where [layout_defs]: "G_CONSUMERS = 32"
definition G_MAX_CONSUMERS :: usize where [layout_defs]: "G_MAX_CONSUMERS = 36"
definition G_PUBLISH_COUNT :: usize where [layout_defs]: "G_PUBLISH_COUNT = 40"
definition G_DROP_COUNT :: usize where [layout_defs]: "G_DROP_COUNT = 48"
definition G_PUBLISH_FUTEX :: usize where [layout_defs]: "G_PUBLISH_FUTEX = 56"
definition G_RECLAIM_FUTEX :: usize where [layout_defs]: "G_RECLAIM_FUTEX = 60"
definition G_REGISTRY_LOCK :: usize where [layout_defs]: "G_REGISTRY_LOCK = 64"
definition G_PRODUCER_PID :: usize where [layout_defs]: "G_PRODUCER_PID = 68"
definition G_REGISTRY_EPOCH :: usize where [layout_defs]: "G_REGISTRY_EPOCH = 72"
definition G_REGISTRY_LOCK_OWNER :: usize where [layout_defs]: "G_REGISTRY_LOCK_OWNER = 76"
definition G_REAPED_COUNT :: usize where [layout_defs]: "G_REAPED_COUNT = 80"
definition G_PRODUCER_START_TOKEN :: usize where [layout_defs]: "G_PRODUCER_START_TOKEN = 88"
definition G_REGISTRY_LOCK_OWNER_TOKEN :: usize where
  [layout_defs]: "G_REGISTRY_LOCK_OWNER_TOKEN = 92"
definition G_REGISTRY_OFF :: usize where [layout_defs]: "G_REGISTRY_OFF = 128"
definition REGISTRY_ENTRY_SIZE :: usize where [layout_defs]: "REGISTRY_ENTRY_SIZE = 32"

definition R_STATE :: usize where [layout_defs]: "R_STATE = 0"
definition R_PID :: usize where [layout_defs]: "R_PID = 4"
definition R_GENERATION :: usize where [layout_defs]: "R_GENERATION = 8"
definition R_FLAGS :: usize where [layout_defs]: "R_FLAGS = 12"
definition R_HEARTBEAT_NS :: usize where [layout_defs]: "R_HEARTBEAT_NS = 16"
definition R_LAST_SEQUENCE :: usize where [layout_defs]: "R_LAST_SEQUENCE = 24"
definition REGISTRY_FREE :: u32 where [layout_defs]: "REGISTRY_FREE = 0"
definition REGISTRY_ACTIVE :: u32 where [layout_defs]: "REGISTRY_ACTIVE = 1"

definition S_MAGIC :: usize where [layout_defs]: "S_MAGIC = 0"
definition S_STATE :: usize where [layout_defs]: "S_STATE = 4"
definition S_SEQUENCE :: usize where [layout_defs]: "S_SEQUENCE = 8"
definition S_TIMESTAMP_NS :: usize where [layout_defs]: "S_TIMESTAMP_NS = 16"
definition S_NBYTES :: usize where [layout_defs]: "S_NBYTES = 24"
definition S_DTYPE :: usize where [layout_defs]: "S_DTYPE = 32"
definition S_NDIM :: usize where [layout_defs]: "S_NDIM = 33"
definition S_READERS :: usize where [layout_defs]: "S_READERS = 34"
definition S_FLAGS :: usize where [layout_defs]: "S_FLAGS = 36"
definition S_SHAPE :: usize where [layout_defs]: "S_SHAPE = 40"
definition S_STRIDES :: usize where [layout_defs]: "S_STRIDES = 72"
definition S_PRODUCER_PID :: usize where [layout_defs]: "S_PRODUCER_PID = 104"
definition S_READERS_MASK :: usize where [layout_defs]: "S_READERS_MASK = 112"
definition S_PRODUCER_START_TOKEN :: usize where [layout_defs]: "S_PRODUCER_START_TOKEN = 120"

lemma states_distinct [simp]:
  "STATE_FREE \<noteq> STATE_COMMITTED" "STATE_COMMITTED \<noteq> STATE_FREE"
  "STATE_FREE \<noteq> STATE_WRITING" "STATE_WRITING \<noteq> STATE_FREE"
  "STATE_COMMITTED \<noteq> STATE_WRITING" "STATE_WRITING \<noteq> STATE_COMMITTED"
  "REGISTRY_FREE \<noteq> REGISTRY_ACTIVE" "REGISTRY_ACTIVE \<noteq> REGISTRY_FREE"
  by (simp_all add: layout_defs)

subsection \<open>Dtypes\<close>

datatype dtype = F32 | F16 | U8 | I8 | I16 | I32 | I64 | F64 | Bool

fun dtype_code :: "dtype \<Rightarrow> u8" where
  "dtype_code F32 = 1"
| "dtype_code F16 = 2"
| "dtype_code U8 = 3"
| "dtype_code I8 = 4"
| "dtype_code I16 = 5"
| "dtype_code I32 = 6"
| "dtype_code I64 = 7"
| "dtype_code F64 = 8"
| "dtype_code Bool = 9"

definition dtype_from_code :: "u8 \<Rightarrow> dtype option" where
  "dtype_from_code c =
     (if c = 1 then Some F32
      else if c = 2 then Some F16
      else if c = 3 then Some U8
      else if c = 4 then Some I8
      else if c = 5 then Some I16
      else if c = 6 then Some I32
      else if c = 7 then Some I64
      else if c = 8 then Some F64
      else if c = 9 then Some Bool
      else None)"

fun itemsize :: "dtype \<Rightarrow> usize" where
  "itemsize F32 = 4"
| "itemsize F16 = 2"
| "itemsize U8 = 1"
| "itemsize I8 = 1"
| "itemsize I16 = 2"
| "itemsize I32 = 4"
| "itemsize I64 = 8"
| "itemsize F64 = 8"
| "itemsize Bool = 1"

fun numpy_name :: "dtype \<Rightarrow> string" where
  "numpy_name F32 = ''float32''"
| "numpy_name F16 = ''float16''"
| "numpy_name U8 = ''uint8''"
| "numpy_name I8 = ''int8''"
| "numpy_name I16 = ''int16''"
| "numpy_name I32 = ''int32''"
| "numpy_name I64 = ''int64''"
| "numpy_name F64 = ''float64''"
| "numpy_name Bool = ''bool''"

definition from_numpy_name :: "string \<Rightarrow> dtype option" where
  "from_numpy_name n =
     (if n = ''float32'' then Some F32
      else if n = ''float16'' then Some F16
      else if n = ''uint8'' then Some U8
      else if n = ''int8'' then Some I8
      else if n = ''int16'' then Some I16
      else if n = ''int32'' then Some I32
      else if n = ''int64'' then Some I64
      else if n = ''float64'' then Some F64
      else if n = ''bool'' then Some Bool
      else None)"

interpretation code_table: codec dtype_code dtype_from_code
proof
  show "dtype_from_code (dtype_code a) = Some a" for a
    by (cases a) (simp_all add: dtype_from_code_def)
  show "dtype_from_code b = Some a \<Longrightarrow> dtype_code a = b" for a b
    by (auto simp: dtype_from_code_def split: if_splits)
qed

interpretation name_table: codec numpy_name from_numpy_name
proof
  show "from_numpy_name (numpy_name a) = Some a" for a
    by (cases a) (simp_all add: from_numpy_name_def)
  show "from_numpy_name b = Some a \<Longrightarrow> numpy_name a = b" for a b
    by (auto simp: from_numpy_name_def split: if_splits)
qed

text \<open>Dtypes are ordered by their frozen codes.\<close>

instantiation dtype :: linorder
begin

definition less_eq_dtype :: "dtype \<Rightarrow> dtype \<Rightarrow> bool" where
  "less_eq_dtype a b \<longleftrightarrow> dtype_code a \<le> dtype_code b"

definition less_dtype :: "dtype \<Rightarrow> dtype \<Rightarrow> bool" where
  "less_dtype a b \<longleftrightarrow> dtype_code a < dtype_code b"

instance
proof
  fix a b c :: dtype
  show "(a < b) = (a \<le> b \<and> \<not> b \<le> a)"
    by (auto simp: less_eq_dtype_def less_dtype_def)
  show "a \<le> a" by (simp add: less_eq_dtype_def)
  show "a \<le> b \<Longrightarrow> b \<le> c \<Longrightarrow> a \<le> c" by (simp add: less_eq_dtype_def)
  show "a \<le> b \<Longrightarrow> b \<le> a \<Longrightarrow> a = b"
    by (simp add: less_eq_dtype_def flip: code_table.enc_eq_iff)
  show "a \<le> b \<or> b \<le> a" by (auto simp: less_eq_dtype_def)
qed

end

subsection \<open>Header structs\<close>

record slot_header =
  s_magic :: "u8 list"
  s_state :: u32
  s_sequence :: u64
  s_timestamp_ns :: u64
  s_nbytes :: u64
  s_dtype :: u8
  s_ndim :: u8
  s_readers_remaining :: u16
  s_flags :: u32
  s_shape :: "u32 list"
  s_strides :: "u32 list"
  s_producer_pid :: u32
  s_pad0 :: u32
  s_readers_mask :: u64
  s_producer_start_token :: u32
  s_reserved :: "u8 list"

record consumer_entry =
  r_state :: u32
  r_pid :: u32
  r_generation :: u32
  r_flags :: u32
  r_heartbeat_ns :: u64
  r_last_sequence :: u64

definition validate_header :: "slot_header \<Rightarrow> usize \<Rightarrow> string + unit" where
  "validate_header h slot_capacity =
     (if s_magic h \<noteq> SLOT_MAGIC then Inl ''bad slot magic''
      else if unat (s_ndim h) > MAX_NDIM then Inl ''ndim exceeds MAX_NDIM''
      else if s_nbytes h > slot_capacity then Inl ''payload exceeds slot capacity''
      else if dtype_from_code (s_dtype h) = None then Inl ''unknown dtype code''
      else Inr ())"

text \<open>
  \<^verbatim>\<open>repr(C)\<close>: each field goes to the next offset its alignment divides, and the size is
  rounded up to the largest alignment. A field is its name, its size and its alignment.
\<close>

type_synonym c_field = "string \<times> nat \<times> nat"

definition c_round_up :: "nat \<Rightarrow> nat \<Rightarrow> nat" where
  "c_round_up off al = (off + al - 1) div al * al"

fun c_offsets :: "nat \<Rightarrow> c_field list \<Rightarrow> (string \<times> nat) list" where
  "c_offsets off [] = []"
| "c_offsets off ((f, sz, al) # fs) =
     (f, c_round_up off al) # c_offsets (c_round_up off al + sz) fs"

fun c_end :: "nat \<Rightarrow> c_field list \<Rightarrow> nat" where
  "c_end off [] = off"
| "c_end off ((f, sz, al) # fs) = c_end (c_round_up off al + sz) fs"

definition c_size_of :: "c_field list \<Rightarrow> nat" where
  "c_size_of fs = c_round_up (c_end 0 fs) (fold (\<lambda>(f, sz, al). max al) fs 1)"

definition slot_header_fields :: "c_field list" where
  "slot_header_fields =
     [(''magic'', 4, 1), (''state'', 4, 4), (''sequence'', 8, 8), (''timestamp_ns'', 8, 8),
      (''nbytes'', 8, 8), (''dtype'', 1, 1), (''ndim'', 1, 1), (''readers_remaining'', 2, 2),
      (''flags'', 4, 4), (''shape'', 4 * MAX_NDIM, 4), (''strides'', 4 * MAX_NDIM, 4),
      (''producer_pid'', 4, 4), (''_pad0'', 4, 4), (''readers_mask'', 8, 8),
      (''producer_start_token'', 4, 4), (''_reserved'', 4, 1)]"

definition consumer_entry_fields :: "c_field list" where
  "consumer_entry_fields =
     [(''state'', 4, 4), (''pid'', 4, 4), (''generation'', 4, 4), (''flags'', 4, 4),
      (''heartbeat_ns'', 8, 8), (''last_sequence'', 8, 8)]"

definition offset_of :: "c_field list \<Rightarrow> string \<Rightarrow> nat option" where
  "offset_of fs f = map_of (c_offsets 0 fs) f"

text \<open>The block of \<^verbatim>\<open>const _\<close> assertions the compiler evaluates.\<close>

definition layout_asserts :: bool where
  "layout_asserts \<longleftrightarrow>
     c_size_of slot_header_fields = unat SLOT_HEADER_SIZE \<and>
     offset_of slot_header_fields ''magic'' = Some (unat S_MAGIC) \<and>
     offset_of slot_header_fields ''state'' = Some (unat S_STATE) \<and>
     offset_of slot_header_fields ''sequence'' = Some (unat S_SEQUENCE) \<and>
     offset_of slot_header_fields ''timestamp_ns'' = Some (unat S_TIMESTAMP_NS) \<and>
     offset_of slot_header_fields ''nbytes'' = Some (unat S_NBYTES) \<and>
     offset_of slot_header_fields ''dtype'' = Some (unat S_DTYPE) \<and>
     offset_of slot_header_fields ''ndim'' = Some (unat S_NDIM) \<and>
     offset_of slot_header_fields ''readers_remaining'' = Some (unat S_READERS) \<and>
     offset_of slot_header_fields ''flags'' = Some (unat S_FLAGS) \<and>
     offset_of slot_header_fields ''shape'' = Some (unat S_SHAPE) \<and>
     offset_of slot_header_fields ''strides'' = Some (unat S_STRIDES) \<and>
     offset_of slot_header_fields ''producer_pid'' = Some (unat S_PRODUCER_PID) \<and>
     offset_of slot_header_fields ''readers_mask'' = Some (unat S_READERS_MASK) \<and>
     offset_of slot_header_fields ''producer_start_token'' = Some (unat S_PRODUCER_START_TOKEN) \<and>
     c_size_of consumer_entry_fields = unat REGISTRY_ENTRY_SIZE \<and>
     offset_of consumer_entry_fields ''state'' = Some (unat R_STATE) \<and>
     offset_of consumer_entry_fields ''pid'' = Some (unat R_PID) \<and>
     offset_of consumer_entry_fields ''generation'' = Some (unat R_GENERATION) \<and>
     offset_of consumer_entry_fields ''heartbeat_ns'' = Some (unat R_HEARTBEAT_NS) \<and>
     offset_of consumer_entry_fields ''last_sequence'' = Some (unat R_LAST_SEQUENCE) \<and>
     G_REGISTRY_OFF + of_nat MAX_CONSUMERS * REGISTRY_ENTRY_SIZE \<le> GLOBAL_HEADER_SIZE \<and>
     G_PUBLISH_FUTEX \<ge> G_DROP_COUNT + 8"

subsection \<open>Layout arithmetic\<close>

definition div_ceil :: "usize \<Rightarrow> usize \<Rightarrow> usize" where
  "div_ceil v d = (if v mod d > 0 then v div d + 1 else v div d)"

definition align_up :: "usize \<Rightarrow> usize \<Rightarrow> usize" where
  "align_up value alignment = div_ceil value alignment * alignment"

definition slot_stride :: "usize \<Rightarrow> usize" where
  "slot_stride slot_capacity = align_up (SLOT_HEADER_SIZE + slot_capacity) 64"

definition total_bytes :: "usize \<Rightarrow> usize \<Rightarrow> usize" where
  "total_bytes slot_count slot_capacity = GLOBAL_HEADER_SIZE + slot_count * slot_stride slot_capacity"

definition slot_base :: "usize \<Rightarrow> usize \<Rightarrow> usize" where
  "slot_base slot_index slot_capacity = GLOBAL_HEADER_SIZE + slot_index * slot_stride slot_capacity"

definition payload_base :: "usize \<Rightarrow> usize \<Rightarrow> usize" where
  "payload_base slot_index slot_capacity = slot_base slot_index slot_capacity + SLOT_HEADER_SIZE"

definition registry_entry_offset :: "usize \<Rightarrow> usize" where
  "registry_entry_offset index = G_REGISTRY_OFF + index * REGISTRY_ENTRY_SIZE"

definition seq_newer :: "u64 \<Rightarrow> u64 \<Rightarrow> bool" where
  "seq_newer a b \<longleftrightarrow> sint (a - b) > 0"

text \<open>
  The compile-time assertions hold: the C layout of both header structs puts every
  field at its frozen offset, the registry fits the reserved part of the global header, and the
  coordination words start after the reference fields.
\<close>

theorem layout_asserts_hold: "layout_asserts"
  unfolding layout_asserts_def
  by (simp add: layout_defs slot_header_fields_def consumer_entry_fields_def offset_of_def
      c_size_of_def c_round_up_def)

text \<open>
  The dtype code table and the NumPy name table are each a bijection between the nine
  dtypes and their codes or names: a code or a name decodes to a dtype exactly when it is the
  one the dtype encodes to.
\<close>

theorem dtype_tables_roundtrip:
  "(dtype_from_code c = Some d) = (c = dtype_code d) \<and> (from_numpy_name n = Some d) = (n = numpy_name d)"
  by (simp add: code_table.decode_iff name_table.decode_iff)

lemma validate_header_ok:
  "validate_header h cap = Inr () \<longleftrightarrow>
     s_magic h = SLOT_MAGIC \<and> unat (s_ndim h) \<le> MAX_NDIM \<and> s_nbytes h \<le> cap \<and>
     (\<exists>d. s_dtype h = dtype_code d)"
  by (auto simp: validate_header_def code_table.decode_iff split: if_splits)
     (metis code_table.decode_enc option.distinct(1))

subsection \<open>Sequence order\<close>

lemma seq_newer_unat: "seq_newer a b \<longleftrightarrow> 0 < unat (a - b) \<and> unat (a - b) < 2 ^ 63"
proof -
  define w where "w = a - b"
  have u: "uint w < 2 ^ 64" "0 \<le> uint w" using uint_lt2p [of w] by simp_all
  have "sint w = (uint w + 2 ^ 63) mod 2 ^ 64 - 2 ^ 63"
    by (simp add: sint_uint signed_take_bit_eq_take_bit_shift take_bit_eq_mod)
  also have "\<dots> = (if uint w < 2 ^ 63 then uint w else uint w - 2 ^ 64)"
  proof (cases "uint w < 2 ^ 63")
    case True
    with u show ?thesis by (simp add: mod_pos_pos_trivial)
  next
    case False
    have "(uint w + 2 ^ 63) mod 2 ^ 64 = (uint w + 2 ^ 63 - 2 ^ 64) mod 2 ^ 64"
      by (simp only: minus_mod_self2)
    also have "\<dots> = uint w - 2 ^ 63" using u False by (simp add: mod_pos_pos_trivial)
    finally show ?thesis using False by simp
  qed
  finally have "0 < sint w \<longleftrightarrow> 0 < uint w \<and> uint w < 2 ^ 63"
    using u by auto
  also have "\<dots> \<longleftrightarrow> 0 < unat w \<and> unat w < 2 ^ 63"
    unfolding unat_eq_nat_uint using u
    by (simp only: nat_less_iff zero_less_nat_eq of_nat_power of_nat_numeral)
  finally have "0 < sint w \<longleftrightarrow> 0 < unat w \<and> unat w < 2 ^ 63" .
  then show ?thesis by (simp only: seq_newer_def w_def)
qed

lemma seq_newer_irrefl [simp]: "\<not> seq_newer a a"
  by (simp add: seq_newer_unat)

lemma unat_of_nat_small: "k < 2 ^ 64 \<Longrightarrow> unat (of_nat k :: u64) = k"
  by (simp add: unat_of_nat)

text \<open>
  Inside any window of \<open>2^63\<close> consecutive sequence numbers, wherever it starts and
  also when it straddles the wrap at \<open>2^64\<close>, \<^verbatim>\<open>seq_newer\<close> is exactly the order of publication.
\<close>

theorem seq_newer_window:
  assumes "k < 2 ^ 63" "l < 2 ^ 63"
  shows "seq_newer (base + of_nat k) (base + of_nat l) \<longleftrightarrow> l < k"
proof -
  have "base + of_nat k - (base + of_nat l) = (of_nat k - of_nat l :: u64)"
    by simp
  moreover have "unat (of_nat k - of_nat l :: u64) = (if l \<le> k then k - l else k + 2 ^ 64 - l)"
    using assms by (simp add: unat_sub_if' unat_of_nat)
  ultimately show ?thesis
    using assms by (auto simp: seq_newer_unat)
qed

theorem seq_newer_window_witness:
  "seq_newer ((- 2) + of_nat 5) ((- 2) + of_nat 1) \<and> \<not> seq_newer ((- 2) + of_nat 1) ((- 2) + of_nat 5)"
  using seq_newer_window [of 5 1 "- 2"] seq_newer_window [of 1 5 "- 2"] by simp

lemma seq_newer_asym: "seq_newer a b \<Longrightarrow> \<not> seq_newer b a"
  using unsigned_less [of a] unsigned_less [of b]
  by (auto simp: seq_newer_unat unat_sub_if' split: if_splits)

subsection \<open>The slots of a mapping\<close>

lemma nat_div_ceil:
  assumes "0 < (d :: nat)"
  shows "(if n mod d > 0 then n div d + 1 else n div d) = (n + d - 1) div d"
proof (cases "n mod d = 0")
  case True
  then obtain q where "n = d * q" by (auto elim: dvdE simp: mod_eq_0_iff_dvd)
  moreover from this have "n + d - 1 = (d - 1) + q * d" using assms by (simp add: mult.commute)
  moreover have "((d - 1) + q * d) div d = q"
    using assms by (subst div_mult_self1) simp_all
  ultimately show ?thesis using assms True by simp
next
  case False
  have "n + d - 1 = (n div d + 1) * d + (n mod d - 1)"
  proof -
    have "0 < n" using False by (cases n) auto
    with False show ?thesis
      by (simp add: algebra_simps)
  qed
  moreover have "(n mod d - 1) < d"
    using assms mod_less_divisor [of d n] by linarith
  ultimately have "(n + d - 1) div d = n div d + 1"
    using assms by (metis add.commute add_cancel_right_right div_less div_mult_self1 neq0_conv)
  with False show ?thesis by simp
qed

lemma unat_div_ceil:
  assumes "0 < unat d" and "unat v + unat d \<le> 2 ^ 64"
  shows "unat (div_ceil v d) = (unat v + unat d - 1) div unat d"
proof -
  have "unat v div unat d + 1 < 2 ^ 64 \<or> unat v mod unat d = 0"
  proof (cases "unat d = 1")
    case False
    with assms(1) have "2 \<le> unat d" by linarith
    then have "unat v div unat d \<le> unat v div 2" by (intro div_le_mono2) auto
    then show ?thesis using unat_u64_less [of v] by auto
  qed simp
  moreover have "v mod d > 0 \<longleftrightarrow> unat v mod unat d > 0"
    by (simp only: word_less_nat_alt unat_mod unat_0)
  ultimately have "unat (div_ceil v d) =
      (if unat v mod unat d > 0 then unat v div unat d + 1 else unat v div unat d)"
    by (cases "unat v mod unat d > 0") (simp_all add: div_ceil_def unat_div unat_plus_if')
  with nat_div_ceil [OF assms(1)] show ?thesis by simp
qed

lemma unat_align_up:
  assumes "0 < unat d" and "unat v + unat d \<le> 2 ^ 64"
  shows "unat (align_up v d) = (unat v + unat d - 1) div unat d * unat d"
proof -
  have "(unat v + unat d - 1) div unat d * unat d \<le> unat v + unat d - 1"
    by (rule div_times_less_eq_dividend)
  also have "\<dots> < 2 ^ 64" using assms by linarith
  finally show ?thesis
    by (simp add: align_up_def unat_word_ariths unat_div_ceil [OF assms] del: div_times_less_eq_dividend)
qed

definition stride_nat :: "nat \<Rightarrow> nat" where
  "stride_nat c = (c + 191) div 64 * 64"

lemma unat_slot_stride:
  assumes "unat c + 192 \<le> 2 ^ 64"
  shows "unat (slot_stride c) = stride_nat (unat c)"
proof -
  have c: "unat (SLOT_HEADER_SIZE + c) = unat c + 128"
    using assms by (simp add: SLOT_HEADER_SIZE_def unat_plus_if')
  then have "unat (align_up (SLOT_HEADER_SIZE + c) 64) = (unat c + 128 + 64 - 1) div 64 * 64"
    using assms by (subst unat_align_up) simp_all
  then show ?thesis by (simp add: slot_stride_def stride_nat_def add.commute)
qed

lemma stride_nat_ge: "c + 128 \<le> stride_nat c"
  unfolding stride_nat_def by linarith

lemma stride_nat_aligned: "64 dvd stride_nat c"
  by (simp add: stride_nat_def)

definition ring_fits :: "usize \<Rightarrow> usize \<Rightarrow> bool" where
  "ring_fits n c \<longleftrightarrow>
     unat GLOBAL_HEADER_SIZE + unat n * stride_nat (unat c) < 2 ^ 64 \<and> unat c + 192 \<le> 2 ^ 64"

lemma ring_fitsI:
  assumes "0 < n" and "unat GLOBAL_HEADER_SIZE + unat n * stride_nat (unat c) < 2 ^ 64"
  shows "ring_fits n c"
proof -
  have "1 \<le> unat n" using assms(1) by (simp add: word_less_nat_alt)
  then have "stride_nat (unat c) \<le> unat n * stride_nat (unat c)" by simp
  moreover have "unat GLOBAL_HEADER_SIZE = 4096" by (simp add: GLOBAL_HEADER_SIZE_def)
  ultimately have "unat c + 192 \<le> 2 ^ 64"
    using assms(2) stride_nat_ge [of "unat c"] by linarith
  with assms show ?thesis by (simp add: ring_fits_def)
qed

lemma unat_slot_base:
  assumes fits: "ring_fits n c" and le: "unat i \<le> unat n"
  shows "unat (slot_base i c) = unat GLOBAL_HEADER_SIZE + unat i * stride_nat (unat c)"
proof -
  have stride: "unat (slot_stride c) = stride_nat (unat c)"
    using fits by (simp add: ring_fits_def unat_slot_stride)
  have "unat i * stride_nat (unat c) \<le> unat n * stride_nat (unat c)"
    using le by (rule mult_le_mono1)
  then have lt: "unat GLOBAL_HEADER_SIZE + unat i * stride_nat (unat c) < 2 ^ 64"
    using fits unfolding ring_fits_def by linarith
  then have "unat (i * slot_stride c) = unat i * stride_nat (unat c)"
    by (simp add: unat_word_ariths stride)
  with lt show ?thesis
    by (simp add: slot_base_def unat_word_ariths)
qed

lemma total_bytes_slot_base: "total_bytes n c = slot_base n c"
  by (simp add: total_bytes_def slot_base_def)

definition slot_region :: "usize \<Rightarrow> usize \<Rightarrow> nat set" where
  "slot_region i c = {unat (slot_base i c) ..< unat (slot_base i c) + unat (slot_stride c)}"

lemma slot_region_le:
  assumes fits: "ring_fits n c" and "i < n" "j < n" "i < j"
  shows "unat (slot_base i c) + unat (slot_stride c) \<le> unat (slot_base j c)"
proof -
  have "Suc (unat i) \<le> unat j" using assms(4) by (simp add: word_less_nat_alt Suc_leI)
  then have "Suc (unat i) * stride_nat (unat c) \<le> unat j * stride_nat (unat c)"
    by (rule mult_le_mono1)
  moreover have "unat (slot_stride c) = stride_nat (unat c)"
    using fits by (simp add: ring_fits_def unat_slot_stride)
  ultimately show ?thesis
    using assms unat_slot_base [OF fits] by (simp add: word_less_nat_alt)
qed

text \<open>
  In a ring whose total size fits the address space, two different slots occupy
  disjoint byte ranges of the mapping.
\<close>

theorem slot_regions_disjoint:
  assumes "ring_fits n c" and "i < n" and "j < n" and "i \<noteq> j"
  shows "slot_region i c \<inter> slot_region j c = {}"
  using assms slot_region_le [of n c i j] slot_region_le [of n c j i]
  by (cases i j rule: linorder_cases) (auto simp: slot_region_def)

theorem slot_regions_disjoint_witness:
  "ring_fits 8 1048576 \<and> slot_region 2 1048576 \<inter> slot_region 5 1048576 = {}"
proof -
  have "ring_fits 8 1048576"
    by (simp add: ring_fits_def stride_nat_def GLOBAL_HEADER_SIZE_def)
  then show ?thesis using slot_regions_disjoint [of 8 1048576 2 5] by simp
qed

text \<open>
  In such a ring every slot lies after the global header and inside the
  \<^verbatim>\<open>total_bytes\<close> of the mapping, its payload of \<^verbatim>\<open>slot_capacity\<close> bytes lies inside the slot, and
  the payload address is a multiple of 64.
\<close>

theorem slot_region_bounds:
  assumes fits: "ring_fits n c" and "i < n"
  shows "slot_region i c \<subseteq> {unat GLOBAL_HEADER_SIZE ..< unat (total_bytes n c)}
    \<and> {unat (payload_base i c) ..< unat (payload_base i c) + unat c} \<subseteq> slot_region i c
    \<and> 64 dvd unat (payload_base i c)"
proof -
  have i: "unat i < unat n" using assms(2) by (simp add: word_less_nat_alt)
  then have "Suc (unat i) * stride_nat (unat c) \<le> unat n * stride_nat (unat c)"
    by (intro mult_le_mono1) simp
  moreover have stride: "unat (slot_stride c) = stride_nat (unat c)"
    using fits by (simp add: ring_fits_def unat_slot_stride)
  moreover have base: "unat (slot_base i c) = unat GLOBAL_HEADER_SIZE + unat i * stride_nat (unat c)"
    using unat_slot_base [OF fits] i by simp
  moreover have total: "unat (total_bytes n c) = unat GLOBAL_HEADER_SIZE + unat n * stride_nat (unat c)"
    unfolding total_bytes_slot_base using unat_slot_base [OF fits] by simp
  ultimately have end_le: "unat (slot_base i c) + unat (slot_stride c) \<le> unat (total_bytes n c)"
    by simp
  then have "unat (slot_base i c) + 128 < 2 ^ 64"
    using stride stride_nat_ge [of "unat c"] unat_u64_less [of "total_bytes n c"] by linarith
  then have payload: "unat (payload_base i c) = unat (slot_base i c) + 128"
    by (simp add: payload_base_def SLOT_HEADER_SIZE_def unat_word_ariths)
  have "64 dvd unat (payload_base i c)"
    unfolding payload base by (simp add: GLOBAL_HEADER_SIZE_def dvd_add stride_nat_aligned)
  moreover have "slot_region i c \<subseteq> {unat GLOBAL_HEADER_SIZE ..< unat (total_bytes n c)}"
    using end_le base by (auto simp: slot_region_def)
  moreover have "{unat (payload_base i c) ..< unat (payload_base i c) + unat c} \<subseteq> slot_region i c"
    using stride_nat_ge [of "unat c"] by (auto simp: slot_region_def payload stride)
  ultimately show ?thesis by blast
qed

theorem slot_region_bounds_witness:
  "ring_fits 8 1048576 \<and> slot_region 7 1048576 \<subseteq> {4096 ..< unat (total_bytes 8 1048576)}"
proof -
  have "ring_fits 8 1048576"
    by (simp add: ring_fits_def stride_nat_def GLOBAL_HEADER_SIZE_def)
  then show ?thesis
    using slot_region_bounds [of 8 1048576 7] by (simp add: GLOBAL_HEADER_SIZE_def)
qed

text \<open>
  Near the top of the address space the arithmetic wraps: the stride of a slot of
  \<open>2^64 - 128\<close> bytes is 0, and a ring of two of them has the size of its header alone.
\<close>

lemma total_bytes_wraps: "slot_stride (- 128) = 0 \<and> total_bytes 2 (- 128) = GLOBAL_HEADER_SIZE"
  by (simp add: total_bytes_def slot_stride_def align_up_def div_ceil_def SLOT_HEADER_SIZE_def)

end
