(* ===== verification/RustStd.thy ===== *)
theory RustStd
  imports Prelude
begin

text \<open>
  The operations of the Rust standard library the program uses on strings and integers:
  \<^verbatim>\<open>char::is_whitespace\<close>, \<^verbatim>\<open>str::trim\<close>, \<^verbatim>\<open>str::split_whitespace\<close>, \<^verbatim>\<open>str::rfind\<close>,
  \<^verbatim>\<open>u64::from_str\<close> and \<^verbatim>\<open>saturating_sub\<close>. Strings are lists of code points.
\<close>

definition is_whitespace :: "rchar \<Rightarrow> bool" where
  "is_whitespace c \<longleftrightarrow>
     (9 \<le> c \<and> c \<le> 13) \<or> c = 32 \<or> c = 0x85 \<or> c = 0xA0 \<or> c = 0x1680 \<or>
     (0x2000 \<le> c \<and> c \<le> 0x200A) \<or> c = 0x2028 \<or> c = 0x2029 \<or> c = 0x202F \<or> c = 0x205F \<or>
     c = 0x3000"

definition trim :: "rstring \<Rightarrow> rstring" where
  "trim s = rev (dropWhile is_whitespace (rev (dropWhile is_whitespace s)))"

fun split_ws_from :: "rstring \<Rightarrow> rstring \<Rightarrow> rstring list" where
  "split_ws_from word [] = (if word = [] then [] else [word])"
| "split_ws_from word (c # cs) =
     (if is_whitespace c
      then (if word = [] then split_ws_from [] cs else word # split_ws_from [] cs)
      else split_ws_from (word @ [c]) cs)"

definition split_whitespace :: "rstring \<Rightarrow> rstring list" where
  "split_whitespace s = split_ws_from [] s"

fun rfind :: "rchar \<Rightarrow> rstring \<Rightarrow> nat option" where
  "rfind c [] = None"
| "rfind c (d # ds) =
     (case rfind c ds of
        Some k \<Rightarrow> Some (Suc k)
      | None \<Rightarrow> (if d = c then Some 0 else None))"

fun parse_digits :: "nat \<Rightarrow> nat \<Rightarrow> rstring \<Rightarrow> nat option" where
  "parse_digits limit acc [] = Some acc"
| "parse_digits limit acc (c # cs) =
     (if 48 \<le> c \<and> c \<le> 57 \<and> acc * 10 + (c - 48) < limit
      then parse_digits limit (acc * 10 + (c - 48)) cs else None)"

definition parse_unsigned :: "nat \<Rightarrow> rstring \<Rightarrow> nat option" where
  "parse_unsigned limit s =
     (case s of
        [] \<Rightarrow> None
      | c # cs \<Rightarrow>
          if c = 43 then (if cs = [] then None else parse_digits limit 0 cs)
          else parse_digits limit 0 s)"

definition parse_u64 :: "rstring \<Rightarrow> u64 option" where
  "parse_u64 s = map_option of_nat (parse_unsigned (2 ^ 64) s)"

definition saturating_sub :: "'a::len word \<Rightarrow> 'a word \<Rightarrow> 'a word" where
  "saturating_sub a b = (if a < b then 0 else a - b)"

unbundle bit_operations_syntax

text \<open>
  A slice of 32-bit values as the bytes of its memory on a little-endian machine, as
  \<^verbatim>\<open>slice::from_raw_parts\<close> over the same address reads it, and back.
\<close>

definition u32_bytes :: "u32 \<Rightarrow> u8 list" where
  "u32_bytes x = map (\<lambda>k. ucast (drop_bit (8 * k) x)) [0..<4]"

definition slice_bytes :: "u32 list \<Rightarrow> u8 list" where
  "slice_bytes xs = concat (map u32_bytes xs)"

definition u32_of_bytes :: "u8 list \<Rightarrow> u32" where
  "u32_of_bytes bs = fold (\<lambda>k acc. acc OR push_bit (8 * k) (ucast (bs ! k))) [0..<4] 0"

fun slice_words :: "u8 list \<Rightarrow> u32 list" where
  "slice_words (a # b # c # d # rest) = u32_of_bytes [a, b, c, d] # slice_words rest"
| "slice_words _ = []"

lemma split_ws_word:
  "\<forall>c\<in>set w. \<not> is_whitespace c \<Longrightarrow> split_ws_from acc (w @ rest) = split_ws_from (acc @ w) rest"
  by (induction w arbitrary: acc) simp_all

lemma rfind_last:
  "c \<notin> set post \<Longrightarrow> rfind c (pre @ c # post) = Some (length pre)"
proof (induction pre)
  case Nil
  have "c \<notin> set post \<Longrightarrow> rfind c post = None" by (induction post) auto
  with Nil show ?case by simp
qed simp

lemma rfind_Some_nth: "rfind c s = Some k \<Longrightarrow> k < length s \<and> s ! k = c"
  by (induction s arbitrary: k) (auto split: option.splits if_splits)

lemma parse_digits_append:
  "parse_digits limit acc (xs @ ys) =
     (case parse_digits limit acc xs of None \<Rightarrow> None | Some a \<Rightarrow> parse_digits limit a ys)"
  by (induction xs arbitrary: acc) auto

lemma parse_digits_dec:
  "n < limit \<Longrightarrow> parse_digits limit 0 (ascii (dec n)) = Some n"
proof (induction n rule: dec.induct)
  case (1 n)
  show ?case
  proof (cases "n < 10")
    case True
    with "1.prems" show ?thesis by (subst dec.simps) (simp add: ascii_def)
  next
    case False
    with "1.prems" have "n div 10 < limit" by linarith
    with False "1.IH" have IH: "parse_digits limit 0 (ascii (dec (n div 10))) = Some (n div 10)"
      by simp
    have "n div 10 * 10 + n mod 10 = n" by simp
    with False "1.prems" show ?thesis
      by (subst dec.simps) (simp add: parse_digits_append IH, simp add: ascii_def)
  qed
qed

lemma dec_head_digit: "\<exists>c cs. ascii (dec n) = c # cs \<and> 48 \<le> c \<and> c \<le> 57"
proof (induction n rule: dec.induct)
  case (1 n)
  show ?case
  proof (cases "n < 10")
    case True
    then show ?thesis by (subst dec.simps) (simp add: ascii_def)
  next
    case False
    with "1.IH" obtain c cs where "ascii (dec (n div 10)) = c # cs" "48 \<le> c" "c \<le> 57" by blast
    with False show ?thesis by (subst dec.simps) simp
  qed
qed

lemma parse_unsigned_dec: "n < limit \<Longrightarrow> parse_unsigned limit (ascii (dec n)) = Some n"
  using dec_head_digit [of n] parse_digits_dec [of n limit] by (auto simp: parse_unsigned_def)

lemma parse_u64_dec: "parse_u64 (ascii (dec (unat w))) = Some w"
  using parse_unsigned_dec [OF unat_u64_less [of w]] by (simp add: parse_u64_def)

lemma u32_bytes_roundtrip: "u32_of_bytes (u32_bytes x) = x"
proof (rule bit_word_eqI)
  fix n assume n: "n < LENGTH(32)"
  consider "n < 8" | "8 \<le> n" "n < 16" | "16 \<le> n" "n < 24" | "24 \<le> n" by linarith
  then show "bit (u32_of_bytes (u32_bytes x)) n = bit x n"
    using n by cases (simp_all add: u32_of_bytes_def u32_bytes_def upt_rec bit_simps le_add_diff_inverse, linarith+)
qed

lemma u32_bytes_expand: "u32_bytes x = [ucast x, ucast (drop_bit 8 x), ucast (drop_bit 16 x), ucast (drop_bit 24 x)]"
  by (simp add: u32_bytes_def upt_rec)

lemma slice_words_bytes: "slice_words (slice_bytes xs) = xs"
proof (induction xs)
  case Nil
  then show ?case by (simp add: slice_bytes_def)
next
  case (Cons x xs)
  then show ?case
    using u32_bytes_roundtrip [of x] by (simp add: slice_bytes_def u32_bytes_expand)
qed

lemma length_slice_bytes: "length (slice_bytes xs) = 4 * length xs"
  by (induction xs) (simp_all add: slice_bytes_def u32_bytes_expand)

end
