(* ===== verification/Shm.thy ===== *)
theory Shm
  imports RustStd
begin

text \<open>
  \<^verbatim>\<open>rust/tenzorbus/src/shm.rs\<close>, its second half: process liveness from \<^verbatim>\<open>/proc/<pid>/stat\<close> and
  the wall clock. What the operating system answers is a parameter: \<open>env\<close> holds the caller's
  pid, the contents of files, the outcome of \<^verbatim>\<open>kill(pid, 0)\<close> and the clock during one operation.
\<close>

definition EPERM :: nat where "EPERM = 1"
definition ENOENT :: nat where "ENOENT = 2"
definition EEXIST :: nat where "EEXIST = 17"

subsection \<open>The process environment of one operation\<close>

record env =
  e_pid :: u32
  e_read :: "rstring \<Rightarrow> rstring option"
  e_kill :: "int \<Rightarrow> nat option"
  e_clock :: "u64 \<times> u64"

text \<open>
  \<open>e_kill p = None\<close> is a return code of 0, \<open>Some e\<close> a failure with that \<^verbatim>\<open>errno\<close>;
  \<open>e_clock\<close> is the pair of seconds and nanoseconds \<^verbatim>\<open>clock_gettime\<close> fills in.
\<close>

definition parse_stat :: "rstring \<Rightarrow> (rchar \<times> u64) option" where
  "parse_stat txt =
     (case rfind (of_char CHR '')'') txt of
        None \<Rightarrow> None
      | Some k \<Rightarrow>
          (case split_whitespace (drop (k + 1) txt) of
             [] \<Rightarrow> None
           | field3 # rest \<Rightarrow>
               (case field3 of
                  [] \<Rightarrow> None
                | st # _ \<Rightarrow>
                    if 19 < length rest
                    then map_option (Pair st) (parse_u64 (rest ! 19))
                    else None)))"

definition stat_path :: "u32 \<Rightarrow> rstring" where
  "stat_path pid = ascii (''/proc/'' @ dec (unat pid) @ ''/stat'')"

definition proc_stat :: "env \<Rightarrow> u32 \<Rightarrow> (rchar \<times> u64) option" where
  "proc_stat e pid =
     (case e_read e (stat_path pid) of None \<Rightarrow> None | Some txt \<Rightarrow> parse_stat txt)"

definition pid_start_token :: "env \<Rightarrow> u32 \<Rightarrow> u32" where
  "pid_start_token e pid =
     (case proc_stat e pid of None \<Rightarrow> 0 | Some (_, start) \<Rightarrow> ucast start)"

definition dead_state :: "rchar \<Rightarrow> bool" where
  "dead_state st \<longleftrightarrow> st = of_char CHR ''Z'' \<or> st = of_char CHR ''X'' \<or> st = of_char CHR ''x''"

definition pid_alive_with_token :: "env \<Rightarrow> u32 \<Rightarrow> u32 \<Rightarrow> bool" where
  "pid_alive_with_token e pid start_token =
     (if pid = 0 then False
      else
        (case proc_stat e pid of
           Some (st, start) \<Rightarrow>
             (if dead_state st then False
              else start_token = 0 \<or> ucast start = start_token)
         | None \<Rightarrow>
             (case e_kill e (sint pid) of
                None \<Rightarrow> True
              | Some err \<Rightarrow> err = EPERM)))"

definition pid_alive :: "env \<Rightarrow> u32 \<Rightarrow> bool" where
  "pid_alive e pid = pid_alive_with_token e pid 0"

definition now_ns :: "env \<Rightarrow> u64" where
  "now_ns e = (case e_clock e of (tv_sec, tv_nsec) \<Rightarrow> tv_sec * 1000000000 + tv_nsec)"

subsection \<open>What the parser reads\<close>

text \<open>
  A line of \<^verbatim>\<open>/proc/<pid>/stat\<close>: the pid, the executable name in parentheses, then the fs
  from number 3 on, separated by blanks, and a line feed. The name may hold any characters.
\<close>

fun join_blank :: "rstring list \<Rightarrow> rstring" where
  "join_blank [] = []"
| "join_blank [w] = w"
| "join_blank (w # ws) = w @ 32 # join_blank ws"

definition stat_line :: "u32 \<Rightarrow> rstring \<Rightarrow> rstring list \<Rightarrow> rstring" where
  "stat_line pid comm fs =
     ascii (dec (unat pid)) @ ascii '' ('' @ comm @ ascii '') '' @ join_blank fs @ [10]"

definition stat_fields :: "rstring list \<Rightarrow> bool" where
  "stat_fields fs \<longleftrightarrow>
     (\<forall>w\<in>set fs. w \<noteq> [] \<and> (\<forall>c\<in>set w. \<not> is_whitespace c \<and> c \<noteq> of_char CHR '')''))"

lemma split_ws_join_blank:
  assumes "stat_fields fs"
  shows "split_ws_from [] (join_blank fs @ [10]) = fs"
  using assms
proof (induction fs rule: join_blank.induct)
  case 1
  show ?case by (simp add: is_whitespace_def)
next
  case (2 w)
  then show ?case by (simp add: stat_fields_def split_ws_word is_whitespace_def)
next
  case (3 w v vs)
  then have IH: "split_ws_from [] (join_blank (v # vs) @ [10]) = v # vs"
    by (simp add: stat_fields_def)
  have w: "w \<noteq> []" "\<forall>c\<in>set w. \<not> is_whitespace c"
    using "3.prems" by (simp_all add: stat_fields_def)
  have "split_ws_from [] (join_blank (w # v # vs) @ [10]) =
      split_ws_from w (32 # join_blank (v # vs) @ [10])"
    using split_ws_word [OF w(2), of "[]" "32 # join_blank (v # vs) @ [10]"] by simp
  also have "\<dots> = w # v # vs"
    using w(1) IH by (simp add: is_whitespace_def)
  finally show ?case .
qed

lemma join_blank_no_paren:
  "stat_fields fs \<Longrightarrow> of_char CHR '')'' \<notin> set (join_blank fs)"
  by (induction fs rule: join_blank.induct) (auto simp: stat_fields_def)

lemma parse_stat_line:
  assumes "stat_fields fs"
  shows "parse_stat (stat_line pid comm fs) =
    (if 20 < length fs
     then map_option (Pair (hd (fs ! 0))) (parse_u64 (fs ! 20)) else None)"
proof -
  let ?pre = "ascii (dec (unat pid)) @ ascii '' ('' @ comm"
  have line: "stat_line pid comm fs = ?pre @ of_char CHR '')'' # 32 # join_blank fs @ [10]"
    by (simp add: stat_line_def ascii_def)
  have "of_char CHR '')'' \<notin> set (32 # join_blank fs @ [10 :: nat])"
    using join_blank_no_paren [OF assms] by simp
  then have "rfind (of_char CHR '')'') (stat_line pid comm fs) = Some (length ?pre)"
    unfolding line by (rule rfind_last)
  moreover have "drop (length ?pre + 1) (stat_line pid comm fs) = 32 # join_blank fs @ [10]"
    unfolding line by simp
  moreover have "split_whitespace (32 # join_blank fs @ [10]) = fs"
    using split_ws_join_blank [OF assms] by (simp add: split_whitespace_def is_whitespace_def)
  ultimately have parse: "parse_stat (stat_line pid comm fs) =
      (case fs of [] \<Rightarrow> None
       | field3 # rest \<Rightarrow> (case field3 of [] \<Rightarrow> None
         | st # _ \<Rightarrow> if 19 < length rest then map_option (Pair st) (parse_u64 (rest ! 19)) else None))"
    unfolding parse_stat_def by simp
  show ?thesis
  proof (cases fs)
    case Nil
    with parse show ?thesis by simp
  next
    case (Cons w ws)
    with assms have "w \<noteq> []" by (simp add: stat_fields_def)
    with parse Cons show ?thesis by (auto split: list.splits simp: numeral_eq_Suc)
  qed
qed

definition has_stat :: "env \<Rightarrow> u32 \<Rightarrow> rchar \<Rightarrow> u64 \<Rightarrow> u64 \<Rightarrow> bool" where
  "has_stat e pid st start vsize \<longleftrightarrow>
     (\<exists>comm fs. e_read e (stat_path pid) = Some (stat_line pid comm fs) \<and> stat_fields fs \<and>
        20 < length fs \<and> fs ! 0 = [st] \<and> fs ! 19 = ascii (dec (unat start)) \<and>
        fs ! 20 = ascii (dec (unat vsize)))"

lemma proc_stat_has_stat: "has_stat e pid st start vsize \<Longrightarrow> proc_stat e pid = Some (st, vsize)"
  by (auto simp: has_stat_def proc_stat_def parse_stat_line parse_u64_dec)

lemma pid_start_token_has_stat:
  "has_stat e pid st start vsize \<Longrightarrow> pid_start_token e pid = ucast vsize"
  by (simp add: pid_start_token_def proc_stat_has_stat)

lemma pid_alive_has_stat:
  assumes "has_stat e pid st start vsize" and "pid \<noteq> 0"
  shows "pid_alive_with_token e pid tok \<longleftrightarrow> \<not> dead_state st \<and> (tok = 0 \<or> ucast vsize = tok)"
  using assms by (simp add: pid_alive_with_token_def proc_stat_has_stat)

lemma pid_alive_0 [simp]: "\<not> pid_alive_with_token e 0 tok"
  by (simp add: pid_alive_with_token_def)

lemma pid_alive_with_token_alive: "pid_alive_with_token e pid tok \<Longrightarrow> pid_alive e pid"
  by (auto simp: pid_alive_def pid_alive_with_token_def split: if_splits option.splits)

text \<open>A closed environment with one process, for the witnesses of this theory and its clients.\<close>

definition demo_fields :: "rchar \<Rightarrow> u64 \<Rightarrow> u64 \<Rightarrow> rstring list" where
  "demo_fields st start vsize =
     [st] # replicate 18 (ascii ''1'') @ [ascii (dec (unat start)), ascii (dec (unat vsize))]"

definition demo_env :: "u32 \<Rightarrow> rchar \<Rightarrow> u64 \<Rightarrow> u64 \<Rightarrow> env" where
  "demo_env pid st start vsize =
     \<lparr>e_pid = pid,
      e_read = (\<lambda>path. if path = stat_path pid
                  then Some (stat_line pid (ascii ''a) Z ('') (demo_fields st start vsize)) else None),
      e_kill = (\<lambda>_. Some 3), e_clock = (1, 5)\<rparr>"

lemma dec_fields_ok: "c \<in> set (ascii (dec n)) \<Longrightarrow> 48 \<le> c \<and> c \<le> 57"
proof (induction n rule: dec.induct)
  case (1 n)
  show ?case
  proof (cases "n < 10")
    case True
    with "1.prems" show ?thesis by (subst (asm) dec.simps) (simp add: ascii_def)
  next
    case False
    with "1.prems" have "c \<in> set (ascii (dec (n div 10))) \<or> c = 48 + n mod 10"
      by (subst (asm) dec.simps) (auto simp: ascii_def)
    moreover have "n mod 10 < 10" by simp
    ultimately show ?thesis using False "1.IH" by auto
  qed
qed

lemma demo_fields_ok:
  assumes "\<not> is_whitespace st" and "st \<noteq> of_char CHR '')''"
  shows "stat_fields (demo_fields st start vsize)"
proof -
  have digit: "\<not> is_whitespace c \<and> c \<noteq> 41" if "c \<in> set (ascii (dec n))" for c n
    using dec_fields_ok [OF that] by (auto simp: is_whitespace_def)
  have "ascii (dec n) \<noteq> []" for n
    by (simp add: ascii_def dec_not_Nil)
  with assms digit show ?thesis
    by (auto simp: stat_fields_def demo_fields_def) (auto simp: ascii_def is_whitespace_def)
qed

lemma demo_has_stat:
  assumes "\<not> is_whitespace st" and "st \<noteq> of_char CHR '')''"
  shows "has_stat (demo_env pid st start vsize) pid st start vsize"
proof -
  let ?fs = "demo_fields st start vsize"
  have "20 < length ?fs" "?fs ! 0 = [st]" "?fs ! 19 = ascii (dec (unat start))"
    "?fs ! 20 = ascii (dec (unat vsize))"
    by (simp_all add: demo_fields_def nth_append)
  with demo_fields_ok [OF assms] show ?thesis
    unfolding has_stat_def demo_env_def by auto
qed

text \<open>
  Whatever characters the executable name holds, blanks and parentheses included, the
  parser of \<^verbatim>\<open>/proc/<pid>/stat\<close> finds the process state in field 3; the number it takes with it
  is field 23, the virtual memory size.
\<close>

theorem parse_stat_any_name:
  assumes "stat_fields fs" and "20 < length fs" and "fs ! 20 = ascii (dec (unat vsize))"
  shows "parse_stat (stat_line pid comm fs) = Some (hd (fs ! 0), vsize)"
  using assms by (simp add: parse_stat_line parse_u64_dec)

theorem parse_stat_any_name_witness:
  "parse_stat (stat_line 7 (ascii ''a) Z ('') (demo_fields 83 42 4096)) = Some (83, 4096)"
proof -
  have "stat_fields (demo_fields 83 42 4096)"
    by (rule demo_fields_ok) (simp_all add: is_whitespace_def)
  moreover have "20 < length (demo_fields 83 42 4096)" "demo_fields 83 42 4096 ! 0 = [83]"
    "demo_fields 83 42 4096 ! 20 = ascii (dec (unat (4096 :: u64)))"
    by (simp_all add: demo_fields_def nth_append)
  ultimately show ?thesis
    using parse_stat_any_name [of "demo_fields 83 42 4096" 4096 7 "ascii ''a) Z (''"] by simp
qed

text \<open>
  Claim C29. A process that is alive and still the one that recorded its token is reported dead as
  soon as its virtual memory size differs, in its low 32 bits, from the size at the time the
  token was taken, although its start time is the same.
\<close>

theorem live_process_declared_dead:
  assumes "has_stat e1 pid st1 start vsize1" and "has_stat e2 pid st2 start vsize2"
    and "ucast vsize1 \<noteq> (0 :: u32)" and "ucast vsize2 \<noteq> (ucast vsize1 :: u32)"
  shows "\<not> pid_alive_with_token e2 pid (pid_start_token e1 pid)"
proof (cases "pid = 0")
  case False
  with assms show ?thesis by (simp add: pid_start_token_has_stat pid_alive_has_stat)
qed simp

theorem live_process_declared_dead_witness:
  "has_stat (demo_env 7 83 42 4096) 7 83 42 4096 \<and> has_stat (demo_env 7 83 42 8192) 7 83 42 8192 \<and>
   \<not> pid_alive_with_token (demo_env 7 83 42 8192) 7 (pid_start_token (demo_env 7 83 42 4096) 7)"
proof -
  have h: "has_stat (demo_env 7 83 42 v) 7 83 42 v" for v
    by (rule demo_has_stat) (simp_all add: is_whitespace_def)
  show ?thesis
    using h live_process_declared_dead [OF h [of 4096] h [of 8192]] by simp
qed

end
