(* ===== verification/Futex.thy ===== *)
theory Futex
  imports Shm
begin

text \<open>
  \<^verbatim>\<open>rust/tenzorbus/src/futex.rs\<close>: the counter words and the cross-process mutex with
  owner-death recovery. A lock is three words of shared memory: the futex word, the owner's pid
  and the owner's start token.

  \<open>futex_lock\<close> runs the code of one caller with nobody else moving; the operations of the ring use it,
  and \<open>None\<close> says the caller waits for ever. The same code cut at every access to shared memory, for
  any number of threads, is in \<open>LockSteps\<close>; sleeping and waking are in \<open>WaitSteps\<close>.
\<close>

definition UNLOCKED :: u32 where "UNLOCKED = 0"
definition LOCKED :: u32 where "LOCKED = 1"
definition CONTENDED :: u32 where "CONTENDED = 2"

lemma lock_words_distinct [simp]:
  "UNLOCKED \<noteq> LOCKED" "LOCKED \<noteq> UNLOCKED" "UNLOCKED \<noteq> CONTENDED" "CONTENDED \<noteq> UNLOCKED"
  "LOCKED \<noteq> CONTENDED" "CONTENDED \<noteq> LOCKED"
  by (simp_all add: UNLOCKED_def LOCKED_def CONTENDED_def)

text \<open>\<^verbatim>\<open>signal\<close>: bump the counter word, then wake its waiters.\<close>

definition signal :: "u32 \<Rightarrow> u32" where
  "signal word = word + 1"

subsection \<open>One caller alone\<close>

record lock_words =
  lk_word :: u32
  lk_owner :: u32
  lk_token :: u32

definition take_lock :: "u32 \<Rightarrow> u32 \<Rightarrow> u32 \<Rightarrow> lock_words" where
  "take_lock w me me_token = \<lparr>lk_word = w, lk_owner = me, lk_token = me_token\<rparr>"

partial_function (option) futex_lock_loop ::
  "env \<Rightarrow> u32 \<Rightarrow> u32 \<Rightarrow> lock_words \<Rightarrow> lock_words option" where
  "futex_lock_loop e me me_token l =
     (if lk_word l = UNLOCKED
      then Some (take_lock CONTENDED me me_token)
      else
        if lk_owner l \<noteq> 0 \<and> lk_owner l \<noteq> me \<and> \<not> pid_alive_with_token e (lk_owner l) (lk_token l)
        then Some (take_lock CONTENDED me me_token)
        else futex_lock_loop e me me_token (l\<lparr>lk_word := CONTENDED\<rparr>))"

definition futex_lock :: "env \<Rightarrow> u32 \<Rightarrow> u32 \<Rightarrow> lock_words \<Rightarrow> lock_words option" where
  "futex_lock e me me_token l =
     (if lk_word l = UNLOCKED then Some (take_lock LOCKED me me_token)
      else futex_lock_loop e me me_token l)"

definition futex_unlock :: "lock_words \<Rightarrow> lock_words" where
  "futex_unlock l = \<lparr>lk_word = UNLOCKED, lk_owner = 0, lk_token = 0\<rparr>"

definition abandoned :: "env \<Rightarrow> u32 \<Rightarrow> lock_words \<Rightarrow> bool" where
  "abandoned e me l \<longleftrightarrow>
     lk_owner l \<noteq> 0 \<and> lk_owner l \<noteq> me \<and> \<not> pid_alive_with_token e (lk_owner l) (lk_token l)"

lemma futex_lock_loop_returns:
  assumes ret: "futex_lock_loop e me tok l = Some r"
  shows "r = take_lock CONTENDED me tok \<and> (lk_word l = UNLOCKED \<or> abandoned e me l)"
proof (rule futex_lock_loop.raw_induct
    [where P = "\<lambda>e me tok l r. r = take_lock CONTENDED me tok \<and> (lk_word l = UNLOCKED \<or> abandoned e me l)",
      OF _ ret])
  fix loop e me tok l r
  assume IH: "\<And>e me tok l r. loop e me tok l = Some r \<Longrightarrow>
      r = take_lock CONTENDED me tok \<and> (lk_word l = UNLOCKED \<or> abandoned e me l)"
    and eq: "(if lk_word l = UNLOCKED then Some (take_lock CONTENDED me tok)
      else if lk_owner l \<noteq> 0 \<and> lk_owner l \<noteq> me \<and> \<not> pid_alive_with_token e (lk_owner l) (lk_token l)
      then Some (take_lock CONTENDED me tok) else loop e me tok (l\<lparr>lk_word := CONTENDED\<rparr>)) = Some r"
  show "r = take_lock CONTENDED me tok \<and> (lk_word l = UNLOCKED \<or> abandoned e me l)"
  proof (cases "lk_word l = UNLOCKED \<or> abandoned e me l")
    case True
    with eq show ?thesis by (auto simp: abandoned_def split: if_splits)
  next
    case False
    with eq have "loop e me tok (l\<lparr>lk_word := CONTENDED\<rparr>) = Some r"
      by (auto simp: abandoned_def split: if_splits)
    from IH [OF this] False show ?thesis by (simp add: abandoned_def)
  qed
qed

lemma futex_lock_iff:
  "futex_lock e me tok l =
     (if lk_word l = UNLOCKED then Some (take_lock LOCKED me tok)
      else if abandoned e me l then Some (take_lock CONTENDED me tok) else None)"
proof (cases "lk_word l = UNLOCKED \<or> abandoned e me l")
  case True
  then show ?thesis
    by (auto simp: futex_lock_def futex_lock_loop.simps [of e me tok l] abandoned_def)
next
  case False
  then have "futex_lock_loop e me tok l = None"
    using futex_lock_loop_returns [of e me tok l] by (cases "futex_lock_loop e me tok l") auto
  with False show ?thesis by (simp add: futex_lock_def)
qed

text \<open>
  Alone, a caller obtains the lock exactly when it is free or its recorded owner is
  another process judged dead; it then is the recorded owner, and its unlock frees the lock. A
  lock recorded for nobody, or for the caller's own pid, is waited for without end.
\<close>

theorem futex_lock_spec:
  "futex_lock e me tok l =
     (if lk_word l = UNLOCKED then Some (take_lock LOCKED me tok)
      else if lk_owner l \<noteq> 0 \<and> lk_owner l \<noteq> me \<and> \<not> pid_alive_with_token e (lk_owner l) (lk_token l)
      then Some (take_lock CONTENDED me tok) else None) \<and>
   lk_owner (take_lock w me tok) = me \<and> lk_word (futex_unlock (take_lock w me tok)) = UNLOCKED"
  by (simp add: futex_lock_iff abandoned_def take_lock_def futex_unlock_def)

end
