(* ===== verification/LockSteps.thy ===== *)
theory LockSteps
  imports Futex
begin

text \<open>
  The mutex of \<^verbatim>\<open>rust/tenzorbus/src/futex.rs\<close> under concurrency. \<open>thread_step\<close> is the code of
  \<^verbatim>\<open>lock\<close> and \<^verbatim>\<open>unlock\<close> cut at every access to the three words, with one program counter per
  access; \<open>lock_step\<close> lets any thread of a living process move, or any process die. The judge of
  liveness is a parameter, applied to the set of the processes that have died.
\<close>

datatype lock_pc =
    Idle
  | TryCas
  | StoreOwner
  | StoreToken
  | Swap
  | Waiting
  | CheckWord
  | LoadOwner
  | LoadToken u32
  | Decide u32 u32
  | StealOwner
  | StealToken
  | StealWord
  | Held
  | ClearToken
  | ReleaseWord

fun thread_step ::
  "(u32 \<Rightarrow> u32 \<Rightarrow> bool) \<Rightarrow> u32 \<Rightarrow> u32 \<Rightarrow> lock_pc \<Rightarrow> lock_words \<Rightarrow> lock_pc \<times> lock_words" where
  "thread_step alive me tok Idle l = (TryCas, l)"
| "thread_step alive me tok TryCas l =
     (if lk_word l = UNLOCKED then (StoreOwner, l\<lparr>lk_word := LOCKED\<rparr>) else (Swap, l))"
| "thread_step alive me tok StoreOwner l = (StoreToken, l\<lparr>lk_owner := me\<rparr>)"
| "thread_step alive me tok StoreToken l = (Held, l\<lparr>lk_token := tok\<rparr>)"
| "thread_step alive me tok Swap l =
     (if lk_word l = UNLOCKED then (StoreOwner, l\<lparr>lk_word := CONTENDED\<rparr>)
      else (Waiting, l\<lparr>lk_word := CONTENDED\<rparr>))"
| "thread_step alive me tok Waiting l = (CheckWord, l)"
| "thread_step alive me tok CheckWord l =
     (if lk_word l \<noteq> UNLOCKED then (LoadOwner, l) else (Swap, l))"
| "thread_step alive me tok LoadOwner l = (LoadToken (lk_owner l), l)"
| "thread_step alive me tok (LoadToken holder) l = (Decide holder (lk_token l), l)"
| "thread_step alive me tok (Decide holder holder_token) l =
     (if holder \<noteq> 0 \<and> holder \<noteq> me \<and> \<not> alive holder holder_token then (StealOwner, l)
      else (Swap, l))"
| "thread_step alive me tok StealOwner l = (StealToken, l\<lparr>lk_owner := me\<rparr>)"
| "thread_step alive me tok StealToken l = (StealWord, l\<lparr>lk_token := tok\<rparr>)"
| "thread_step alive me tok StealWord l = (Held, l\<lparr>lk_word := CONTENDED\<rparr>)"
| "thread_step alive me tok Held l = (ClearToken, l\<lparr>lk_owner := 0\<rparr>)"
| "thread_step alive me tok ClearToken l = (ReleaseWord, l\<lparr>lk_token := 0\<rparr>)"
| "thread_step alive me tok ReleaseWord l = (Idle, l\<lparr>lk_word := UNLOCKED\<rparr>)"

record lock_sys =
  ls_mem :: lock_words
  ls_pc :: "nat \<Rightarrow> lock_pc"
  ls_dead :: "u32 set"

definition lock_init :: lock_sys where
  "lock_init = \<lparr>ls_mem = \<lparr>lk_word = UNLOCKED, lk_owner = 0, lk_token = 0\<rparr>, ls_pc = (\<lambda>_. Idle), ls_dead = {}\<rparr>"

definition run_thread ::
  "(u32 set \<Rightarrow> u32 \<Rightarrow> u32 \<Rightarrow> bool) \<Rightarrow> (nat \<Rightarrow> u32 \<times> u32) \<Rightarrow> nat \<Rightarrow> lock_sys \<Rightarrow> lock_sys" where
  "run_thread alive who t s =
     (case thread_step (alive (ls_dead s)) (fst (who t)) (snd (who t)) (ls_pc s t) (ls_mem s) of
        (pc', l') \<Rightarrow> s\<lparr>ls_mem := l', ls_pc := (ls_pc s)(t := pc')\<rparr>)"

inductive lock_step ::
  "(u32 set \<Rightarrow> u32 \<Rightarrow> u32 \<Rightarrow> bool) \<Rightarrow> (nat \<Rightarrow> u32 \<times> u32) \<Rightarrow> lock_sys \<Rightarrow> lock_sys \<Rightarrow> bool"
  for alive who where
  run: "fst (who t) \<notin> ls_dead s \<Longrightarrow> lock_step alive who s (run_thread alive who t s)"
| die: "lock_step alive who s (s\<lparr>ls_dead := insert p (ls_dead s)\<rparr>)"

inductive_cases lock_stepE: "lock_step alive who s s'"

text \<open>Schedules, to build runs: which thread moves, or which process dies.\<close>

datatype lock_event = Run nat | Die u32

fun lock_exec ::
  "(u32 set \<Rightarrow> u32 \<Rightarrow> u32 \<Rightarrow> bool) \<Rightarrow> (nat \<Rightarrow> u32 \<times> u32) \<Rightarrow> lock_event list \<Rightarrow> lock_sys \<Rightarrow> lock_sys option" where
  "lock_exec alive who [] s = Some s"
| "lock_exec alive who (Run t # es) s =
     (if fst (who t) \<in> ls_dead s then None else lock_exec alive who es (run_thread alive who t s))"
| "lock_exec alive who (Die p # es) s =
     lock_exec alive who es (s\<lparr>ls_dead := insert p (ls_dead s)\<rparr>)"

lemma lock_exec_reach: "lock_exec alive who es s = Some s' \<Longrightarrow> (lock_step alive who)\<^sup>*\<^sup>* s s'"
proof (induction es arbitrary: s)
  case Nil
  then show ?case by simp
next
  case (Cons e es)
  show ?case
  proof (cases e)
    case (Run t)
    with Cons.prems have "lock_step alive who s (run_thread alive who t s)"
      by (auto intro: lock_step.run split: if_splits)
    moreover from Cons Run have "(lock_step alive who)\<^sup>*\<^sup>* (run_thread alive who t s) s'"
      by (auto split: if_splits)
    ultimately show ?thesis by (rule converse_rtranclp_into_rtranclp)
  next
    case (Die p)
    have "lock_step alive who s (s\<lparr>ls_dead := insert p (ls_dead s)\<rparr>)" by (rule lock_step.die)
    moreover from Cons Die have "(lock_step alive who)\<^sup>*\<^sup>* (s\<lparr>ls_dead := insert p (ls_dead s)\<rparr>) s'"
      by simp
    ultimately show ?thesis by (rule converse_rtranclp_into_rtranclp)
  qed
qed

subsection \<open>Mutual exclusion while nobody dies\<close>

definition accurate :: "(u32 set \<Rightarrow> u32 \<Rightarrow> u32 \<Rightarrow> bool) \<Rightarrow> bool" where
  "accurate alive \<longleftrightarrow> (\<forall>D p tok. p \<noteq> 0 \<longrightarrow> p \<notin> D \<longrightarrow> alive D p tok)"

definition owning :: "lock_pc \<Rightarrow> bool" where
  "owning pc \<longleftrightarrow> pc \<in> {StoreOwner, StoreToken, Held, ClearToken, ReleaseWord}"

definition stealing :: "lock_pc \<Rightarrow> bool" where
  "stealing pc \<longleftrightarrow> pc \<in> {StealOwner, StealToken, StealWord}"

definition lock_inv :: "lock_sys \<Rightarrow> bool" where
  "lock_inv s \<longleftrightarrow>
     (ls_dead s = {} \<longrightarrow>
        (\<forall>t. \<not> stealing (ls_pc s t)) \<and>
        (\<forall>t. owning (ls_pc s t) \<longrightarrow> lk_word (ls_mem s) \<noteq> UNLOCKED) \<and>
        (\<forall>t u. owning (ls_pc s t) \<longrightarrow> owning (ls_pc s u) \<longrightarrow> t = u))"

lemma lock_inv_run_thread:
  assumes acc: "accurate alive" and inv: "lock_inv s"
  shows "lock_inv (run_thread alive who t s)"
proof (cases "ls_dead s = {}")
  case True
  with inv have no_steal: "\<not> stealing (ls_pc s v)"
    and word: "owning (ls_pc s v) \<Longrightarrow> lk_word (ls_mem s) \<noteq> UNLOCKED"
    and uniq: "owning (ls_pc s v) \<Longrightarrow> owning (ls_pc s w) \<Longrightarrow> v = w" for v w
    by (auto simp: lock_inv_def)
  have alive: "p = 0 \<or> alive (ls_dead s) p tok" for p tok
    using acc True by (auto simp: accurate_def)
  show ?thesis
  proof (cases "ls_pc s t")
    case (Decide h k)
    then show ?thesis
      using no_steal word uniq alive [of h k]
      by (auto simp: lock_inv_def run_thread_def owning_def stealing_def)
  next
    case TryCas
    then show ?thesis
      using no_steal word uniq
      by (auto simp: lock_inv_def run_thread_def owning_def stealing_def)
  next
    case Swap
    then show ?thesis
      using no_steal word uniq
      by (auto simp: lock_inv_def run_thread_def owning_def stealing_def)
  next
    case ReleaseWord
    then have "\<not> owning (ls_pc s v)" if "v \<noteq> t" for v
      using uniq [of v t] that by (auto simp: owning_def)
    then show ?thesis
      using no_steal ReleaseWord by (auto simp: lock_inv_def run_thread_def owning_def stealing_def)
  qed (use no_steal [of t] no_steal word uniq in
      \<open>auto simp: lock_inv_def run_thread_def owning_def stealing_def\<close>)
qed (simp add: lock_inv_def run_thread_def split: prod.splits)

lemma lock_inv_step: "accurate alive \<Longrightarrow> lock_step alive who s s' \<Longrightarrow> lock_inv s \<Longrightarrow> lock_inv s'"
  by (erule lock_stepE) (simp_all add: lock_inv_run_thread, simp add: lock_inv_def)

interpretation mutex: preserved_by "\<lambda>s s'. accurate alive \<and> lock_step alive who s s'" lock_inv
  for alive who
  by unfold_locales (auto dest: lock_inv_step)

lemma lock_inv_init: "lock_inv lock_init"
  by (simp add: lock_inv_def lock_init_def owning_def stealing_def)

lemma reachable_lock_inv:
  assumes "accurate alive" and "(lock_step alive who)\<^sup>*\<^sup>* lock_init s"
  shows "lock_inv s"
  using mutex.run_from_inv [OF lock_inv_init, of alive who s] assms by simp

text \<open>The oracle that knows exactly who has died.\<close>

definition exact_alive :: "u32 set \<Rightarrow> u32 \<Rightarrow> u32 \<Rightarrow> bool" where
  "exact_alive D p tok \<longleftrightarrow> p \<noteq> 0 \<and> p \<notin> D"

lemma accurate_exact: "accurate exact_alive"
  by (simp add: accurate_def exact_alive_def)

definition demo_who :: "nat \<Rightarrow> u32 \<times> u32" where
  "demo_who t = (of_nat t + 1, 9)"


lemma demo_hold:
  "\<exists>s. lock_exec exact_alive demo_who (replicate 4 (Run 0)) lock_init = Some s \<and>
     ls_dead s = {} \<and> ls_pc s 0 = Held"
  by (simp add: numeral_eq_Suc run_thread_def lock_init_def)


subsection \<open>What the recovery of a dead owner's lock breaks\<close>

definition double_steal :: "lock_event list" where
  "double_steal =
     replicate 4 (Run 0) @ [Die 1] @
     replicate 7 (Run 1) @ replicate 7 (Run 2) @
     replicate 4 (Run 1) @ replicate 4 (Run 2)"

text \<open>
  Two waiters can steal the same dead owner's lock. With a liveness test that is exact,
  a run exists in which one process dies holding the lock and afterwards two threads of two living
  processes both hold it: each judged the dead owner before the other had recorded itself.
\<close>

theorem dead_owner_stolen_twice:
  "\<exists>s. (lock_step exact_alive demo_who)\<^sup>*\<^sup>* lock_init s \<and> ls_dead s = {1} \<and>
     ls_pc s 1 = Held \<and> ls_pc s 2 = Held"
proof -
  have "\<exists>s. lock_exec exact_alive demo_who double_steal lock_init = Some s \<and> ls_dead s = {1} \<and>
      ls_pc s 1 = Held \<and> ls_pc s 2 = Held"
    by (simp add: double_steal_def numeral_eq_Suc run_thread_def lock_init_def demo_who_def
        exact_alive_def)
  then show ?thesis using lock_exec_reach by blast
qed

definition wedged :: "(nat \<Rightarrow> u32 \<times> u32) \<Rightarrow> lock_sys \<Rightarrow> bool" where
  "wedged who s \<longleftrightarrow>
     lk_word (ls_mem s) \<noteq> UNLOCKED \<and> lk_owner (ls_mem s) = 0 \<and>
     (\<forall>t. fst (who t) \<notin> ls_dead s \<longrightarrow>
        (case ls_pc s t of
           Idle \<Rightarrow> True | TryCas \<Rightarrow> True | Swap \<Rightarrow> True | Waiting \<Rightarrow> True | CheckWord \<Rightarrow> True
         | LoadOwner \<Rightarrow> True | LoadToken h \<Rightarrow> h = 0 | Decide h k \<Rightarrow> h = 0 | _ \<Rightarrow> False))"

lemma wedged_step:
  assumes "lock_step alive who s s'" and "wedged who s"
  shows "wedged who s'"
  using assms(1)
proof (cases rule: lock_step.cases)
  case (run t)
  then have live: "fst (who t) \<notin> ls_dead s" by simp
  show ?thesis
    using assms(2) live unfolding run(1)
    by (cases "ls_pc s t") (auto simp: wedged_def run_thread_def)
next
  case (die p)
  with assms(2) show ?thesis by (simp add: wedged_def)
qed

interpretation wedge: preserved_by "lock_step alive who" "wedged who" for alive who
  by unfold_locales (rule wedged_step)



end
