(* ===== verification/ShmObjects.thy ===== *)
theory ShmObjects
  imports Shm
begin

text \<open>
  \<^verbatim>\<open>rust/tenzorbus/src/shm.rs\<close>, its first half: the named shared-memory objects. The system calls
  are a parameter, the record \<open>kernel\<close> of functions on a kernel state; what the code relies on
  of them is the predicate \<open>posix_shm\<close>, stated over the table of names the kernel keeps.
\<close>

record 'k kernel =
  k_shm_open_excl :: "rstring \<Rightarrow> 'k \<Rightarrow> 'k \<times> (nat + nat)"
  k_shm_open_rdwr :: "rstring \<Rightarrow> 'k \<Rightarrow> 'k \<times> (nat + nat)"
  k_shm_unlink :: "rstring \<Rightarrow> 'k \<Rightarrow> 'k \<times> nat option"
  k_ftruncate :: "nat \<Rightarrow> u64 \<Rightarrow> 'k \<Rightarrow> 'k \<times> nat option"
  k_fstat :: "nat \<Rightarrow> 'k \<Rightarrow> 'k \<times> (nat + u64)"
  k_mmap :: "nat \<Rightarrow> u64 \<Rightarrow> 'k \<Rightarrow> 'k \<times> (nat + nat)"
  k_close :: "nat \<Rightarrow> 'k \<Rightarrow> 'k"
  k_munmap :: "nat \<Rightarrow> u64 \<Rightarrow> 'k \<Rightarrow> 'k"

datatype io_error = Os nat | Other string

record mapping =
  m_ptr :: nat
  m_len :: usize

definition object_name :: "rstring \<Rightarrow> rstring" where
  "object_name logical = ascii ''/tzbus_'' @ logical"

definition cname :: "rstring \<Rightarrow> io_error + rstring" where
  "cname logical =
     (if 0 \<in> set (object_name logical) then Inl (Other ''ring name contains NUL'')
      else Inr (object_name logical))"

definition map_fd :: "'k kernel \<Rightarrow> nat \<Rightarrow> usize \<Rightarrow> 'k \<Rightarrow> 'k \<times> (io_error + mapping)" where
  "map_fd K fd len k =
     (case k_mmap K fd len k of
        (k1, Inl err) \<Rightarrow> (k_close K fd k1, Inl (Os err))
      | (k1, Inr addr) \<Rightarrow> (k_close K fd k1, Inr \<lparr>m_ptr = addr, m_len = len\<rparr>))"

definition drop_mapping :: "'k kernel \<Rightarrow> mapping \<Rightarrow> 'k \<Rightarrow> 'k" where
  "drop_mapping K m k = k_munmap K (m_ptr m) (m_len m) k"

definition shm_create :: "'k kernel \<Rightarrow> rstring \<Rightarrow> usize \<Rightarrow> bool \<Rightarrow> 'k \<Rightarrow> 'k \<times> (io_error + mapping)" where
  "shm_create K logical len force k =
     (case cname logical of
        Inl err \<Rightarrow> (k, Inl err)
      | Inr name \<Rightarrow>
          (let k1 = (if force then fst (k_shm_unlink K name k) else k) in
           case k_shm_open_excl K name k1 of
             (k2, Inl err) \<Rightarrow> (k2, Inl (Os err))
           | (k2, Inr fd) \<Rightarrow>
               (case k_ftruncate K fd len k2 of
                  (k3, Some err) \<Rightarrow>
                    (fst (k_shm_unlink K name (k_close K fd k3)), Inl (Os err))
                | (k3, None) \<Rightarrow> map_fd K fd len k3)))"

definition shm_attach :: "'k kernel \<Rightarrow> rstring \<Rightarrow> 'k \<Rightarrow> 'k \<times> (io_error + mapping)" where
  "shm_attach K logical k =
     (case cname logical of
        Inl err \<Rightarrow> (k, Inl err)
      | Inr name \<Rightarrow>
          (case k_shm_open_rdwr K name k of
             (k1, Inl err) \<Rightarrow> (k1, Inl (Os err))
           | (k1, Inr fd) \<Rightarrow>
               (case k_fstat K fd k1 of
                  (k2, Inl err) \<Rightarrow> (k_close K fd k2, Inl (Os err))
                | (k2, Inr len) \<Rightarrow>
                    if len = 0
                    then (k_close K fd k2, Inl (Other ''shared object has zero length''))
                    else map_fd K fd len k2)))"

definition shm_unlink :: "'k kernel \<Rightarrow> rstring \<Rightarrow> 'k \<Rightarrow> 'k \<times> (io_error + unit)" where
  "shm_unlink K logical k =
     (case cname logical of
        Inl err \<Rightarrow> (k, Inl err)
      | Inr name \<Rightarrow>
          (case k_shm_unlink K name k of
             (k1, None) \<Rightarrow> (k1, Inr ())
           | (k1, Some err) \<Rightarrow> (k1, if err = ENOENT then Inr () else Inl (Os err))))"

subsection \<open>What POSIX promises\<close>

text \<open>
  \<open>names k\<close> maps every linked name to its object. Exclusive creation fails with \<^verbatim>\<open>EEXIST\<close> on a
  linked name and otherwise links the name to an object when it succeeds; unlinking removes the
  name, or fails with \<^verbatim>\<open>ENOENT\<close> when it is not linked; the other calls leave the names alone.
\<close>

definition posix_shm :: "'k kernel \<Rightarrow> ('k \<Rightarrow> rstring \<Rightarrow> nat option) \<Rightarrow> bool" where
  "posix_shm K names \<longleftrightarrow>
     (\<forall>n k. names k n \<noteq> None \<longrightarrow>
        (\<exists>k'. k_shm_open_excl K n k = (k', Inl EEXIST) \<and> names k' = names k)) \<and>
     (\<forall>n k k' fd. k_shm_open_excl K n k = (k', Inr fd) \<longrightarrow>
        (\<exists>ob. names k' = (names k)(n \<mapsto> ob))) \<and>
     (\<forall>n k k' err. k_shm_open_excl K n k = (k', Inl err) \<longrightarrow> names k' = names k) \<and>
     (\<forall>n k k'. k_shm_unlink K n k = (k', None) \<longrightarrow> names k' = (names k)(n := None)) \<and>
     (\<forall>n k k' err. k_shm_unlink K n k = (k', Some err) \<longrightarrow>
        names k' = names k \<and> (err = ENOENT \<longrightarrow> names k n = None)) \<and>
     (\<forall>fd len k. names (fst (k_ftruncate K fd len k)) = names k) \<and>
     (\<forall>fd len k. names (fst (k_mmap K fd len k)) = names k) \<and>
     (\<forall>fd k. names (k_close K fd k) = names k)"

lemma posix_shmD:
  assumes "posix_shm K names"
  shows "names k n \<noteq> None \<Longrightarrow> \<exists>k'. k_shm_open_excl K n k = (k', Inl EEXIST) \<and> names k' = names k"
    and "k_shm_open_excl K n k = (k1, Inr fd) \<Longrightarrow> \<exists>ob. names k1 = (names k)(n \<mapsto> ob)"
    and "k_shm_open_excl K n k = (k1, Inl err) \<Longrightarrow> names k1 = names k"
    and "k_shm_unlink K n k = (k1, None) \<Longrightarrow> names k1 = (names k)(n := None)"
    and "k_shm_unlink K n k = (k1, Some err) \<Longrightarrow>
           names k1 = names k \<and> (err = ENOENT \<longrightarrow> names k n = None)"
    and "k_ftruncate K fd len k = (k1, r) \<Longrightarrow> names k1 = names k"
    and "k_mmap K fd len k = (k1, s) \<Longrightarrow> names k1 = names k"
    and "names (k_close K fd k) = names k"
  using assms unfolding posix_shm_def by (auto, (metis fst_conv)+)

lemma cname_Inr: "cname logical = Inr name \<longleftrightarrow> 0 \<notin> set logical \<and> name = object_name logical"
  by (auto simp: cname_def object_name_def ascii_def)

lemma shm_create_Inr_links:
  assumes posix: "posix_shm K names" and ok: "shm_create K logical len force k = (k', Inr m)"
  shows "m_len m = len \<and> names k' (object_name logical) \<noteq> None"
  using ok
  by (auto simp: shm_create_def map_fd_def cname_Inr Let_def posix_shmD(8) [OF posix]
      split: sum.splits prod.splits option.splits if_splits
      dest!: posix_shmD(2) [OF posix] posix_shmD(6) [OF posix] posix_shmD(7) [OF posix])

lemma shm_create_refuses:
  assumes "posix_shm K names" and "0 \<notin> set logical" and "names k (object_name logical) = Some ob"
  shows "\<exists>k'. shm_create K logical len False k = (k', Inl (Os EEXIST)) \<and> names k' = names k"
proof -
  from assms(2) have "cname logical = Inr (object_name logical)" by (simp add: cname_Inr)
  then show ?thesis
    using posix_shmD(1) [OF assms(1), of k "object_name logical"] assms(3)
    by (auto simp: shm_create_def)
qed

text \<open>A closed kernel: the state is the table of names and the next object number.\<close>

type_synonym demo_k = "(rstring \<Rightarrow> nat option) \<times> nat"

definition demo_kernel :: "bool \<Rightarrow> demo_k kernel" where
  "demo_kernel mmap_works =
     \<lparr>k_shm_open_excl = (\<lambda>n (t, i). if t n = None then ((t(n \<mapsto> i), Suc i), Inr 3) else ((t, i), Inl EEXIST)),
      k_shm_open_rdwr = (\<lambda>n (t, i). if t n = None then ((t, i), Inl ENOENT) else ((t, i), Inr 3)),
      k_shm_unlink = (\<lambda>n (t, i). if t n = None then ((t, i), Some ENOENT) else ((t(n := None), i), None)),
      k_ftruncate = (\<lambda>fd len k. (k, None)),
      k_fstat = (\<lambda>fd k. (k, Inr 8192)),
      k_mmap = (\<lambda>fd len k. (k, if mmap_works then Inr 4096 else Inl 12)),
      k_close = (\<lambda>fd k. k),
      k_munmap = (\<lambda>p len k. k)\<rparr>"

lemma demo_posix: "posix_shm (demo_kernel b) fst"
  by (auto simp: posix_shm_def demo_kernel_def EEXIST_def ENOENT_def split: if_splits)

text \<open>
  Creating a ring's object without \<^verbatim>\<open>force\<close> under a name that is linked fails with
  \<^verbatim>\<open>EEXIST\<close> and leaves every name as it was: a second creator cannot replace the first one's object.
\<close>

theorem shm_create_no_replace:
  assumes "posix_shm K names" and "0 \<notin> set logical" and "names k (object_name logical) = Some ob"
  shows "\<exists>k'. shm_create K logical len False k = (k', Inl (Os EEXIST)) \<and> names k' = names k"
  using assms by (rule shm_create_refuses)

theorem shm_create_no_replace_witness:
  "\<exists>k'. shm_create (demo_kernel True) [97] 8192 False ([object_name [97] \<mapsto> 0], 1) = (k', Inl (Os EEXIST)) \<and>
     fst k' = [object_name [97] \<mapsto> 0]"
  using shm_create_no_replace [OF demo_posix, of "[97]" "([object_name [97] \<mapsto> 0], 1)" 0 True 8192] by simp

text \<open>
  When the mapping of a freshly created object fails, the error is returned but the
  name stays linked, so that a later creation without \<^verbatim>\<open>force\<close> is refused; the failure of
  \<^verbatim>\<open>ftruncate\<close>, one call earlier, does unlink it.
\<close>

theorem shm_create_mmap_failure_leaks:
  assumes posix: "posix_shm K names" and "0 \<notin> set logical"
    and opened: "k_shm_open_excl K (object_name logical) k = (k1, Inr fd)"
    and sized: "k_ftruncate K fd len k1 = (k2, None)"
    and failed: "k_mmap K fd len k2 = (k3, Inl err)"
  shows "\<exists>k4. shm_create K logical len False k = (k4, Inl (Os err)) \<and>
    names k4 (object_name logical) \<noteq> None \<and>
    (\<exists>k5. shm_create K logical len False k4 = (k5, Inl (Os EEXIST)))"
proof -
  have name: "cname logical = Inr (object_name logical)" using assms(2) by (simp add: cname_Inr)
  then have create: "shm_create K logical len False k = (k_close K fd k3, Inl (Os err))"
    using opened sized failed by (simp add: shm_create_def map_fd_def)
  have "names (k_close K fd k3) = names k1"
    using posix_shmD(6,7) [OF posix] sized failed posix_shmD(8) [OF posix] by metis
  moreover obtain ob where "names k1 = (names k)(object_name logical \<mapsto> ob)"
    using posix_shmD(2) [OF posix opened] by blast
  ultimately have linked: "names (k_close K fd k3) (object_name logical) = Some ob" by simp
  then show ?thesis
    using create shm_create_refuses [OF posix assms(2) linked] by auto
qed

theorem shm_create_mmap_failure_leaks_witness:
  "\<exists>k4. shm_create (demo_kernel False) [97] 8192 False (Map.empty, 0) = (k4, Inl (Os 12)) \<and>
    fst k4 (object_name [97]) \<noteq> None \<and>
    (\<exists>k5. shm_create (demo_kernel False) [97] 8192 False k4 = (k5, Inl (Os EEXIST)))"
  by (rule shm_create_mmap_failure_leaks
      [OF demo_posix [of False], of "[97]" "(Map.empty, 0)" "([object_name [97] \<mapsto> 0], 1)" 3 8192
        "([object_name [97] \<mapsto> 0], 1)" "([object_name [97] \<mapsto> 0], 1)" 12])
    (simp_all add: demo_kernel_def)

end
