(* ===== verification/RingState.thy ===== *)
theory RingState
  imports Layout LockSteps ShmObjects
begin

text \<open>
  \<^verbatim>\<open>rust/tenzorbus/src/error.rs\<close> and the first part of \<^verbatim>\<open>rust/tenzorbus/src/ring.rs\<close>: the error
  type, the public value types with their constructors, the contents of a mapping (\<open>ring\<close>), the
  per-process handle (\<open>inner\<close>), and the creation, attachment and dropping of a ring.

  A field \<open>g_x\<close> of \<open>ring\<close> is the word at offset \<open>G_X\<close> of the global header; \<open>g_lock\<close> gathers
  \<open>G_REGISTRY_LOCK\<close>, \<open>G_REGISTRY_LOCK_OWNER\<close> and \<open>G_REGISTRY_LOCK_OWNER_TOKEN\<close>. Slots and
  payloads are indexed by slot number, the registry by consumer index.
\<close>

subsection \<open>Errors\<close>

datatype error =
    BadHeader string
  | RingFull
  | Timeout
  | Capacity string
  | Invalid string
  | LeaseViolation string
  | Io io_error

fun display :: "(io_error \<Rightarrow> string) \<Rightarrow> error \<Rightarrow> string" where
  "display io (BadHeader m) = ''invalid TenzorBus header: '' @ m"
| "display io RingFull = ''no reclaimable slot before timeout''"
| "display io Timeout = ''no tensor published before timeout''"
| "display io (Capacity m) = ''capacity: '' @ m"
| "display io (Invalid m) = ''invalid argument: '' @ m"
| "display io (LeaseViolation m) = ''lease violation: '' @ m"
| "display io (Io err) = ''io error: '' @ io err"

subsection \<open>Public value types\<close>

datatype backpressure = Block | DropNewest

record ring_layout =
  rl_slot_count :: usize
  rl_slot_capacity :: usize

definition ring_layout_new :: "usize \<Rightarrow> usize \<Rightarrow> string + ring_layout" where
  "ring_layout_new slot_count slot_capacity =
     (if slot_count < 2 then Inl ''slot_count must be >= 2''
      else if slot_capacity < 64 then Inl ''slot_capacity must be >= 64''
      else Inr \<lparr>rl_slot_count = slot_count, rl_slot_capacity = slot_capacity\<rparr>)"

definition ring_layout_total_bytes :: "ring_layout \<Rightarrow> usize" where
  "ring_layout_total_bytes l = total_bytes (rl_slot_count l) (rl_slot_capacity l)"

record ring_options =
  o_slot_count :: usize
  o_slot_capacity :: usize
  o_force :: bool

definition default_ring_options :: ring_options where
  "default_ring_options = \<lparr>o_slot_count = 8, o_slot_capacity = push_bit 20 1, o_force = False\<rparr>"

record publish_result =
  p_sequence :: u64
  p_slot_index :: nat
  p_nbytes :: usize
  p_readers :: u32

record tensor_meta =
  m_sequence :: u64
  m_timestamp_ns :: u64
  m_nbytes :: usize
  m_dtype :: dtype
  m_ndim :: nat
  m_shape :: "u32 list"
  m_strides :: "u32 list"
  m_slot_index :: nat
  m_readers_remaining :: u32

definition meta_shape :: "tensor_meta \<Rightarrow> u32 list" where
  "meta_shape m = take (m_ndim m) (m_shape m)"

definition meta_strides :: "tensor_meta \<Rightarrow> u32 list" where
  "meta_strides m = take (m_ndim m) (m_strides m)"

record tensor_view =
  v_dtype :: dtype
  v_ndim :: nat
  v_shape :: "u32 list"
  v_strides :: "u32 list"
  v_data :: "u8 list"
  v_timestamp_ns :: "u64 option"

text \<open>The length of a slice as a \<^verbatim>\<open>usize\<close>, and a rank-8 array filled from a slice.\<close>

definition usize_len :: "'a list \<Rightarrow> usize" where
  "usize_len xs = of_nat (length xs)"

definition pad_dims :: "u32 list \<Rightarrow> u32 list" where
  "pad_dims xs = xs @ replicate (MAX_NDIM - length xs) 0"

definition shape_elements :: "u32 list \<Rightarrow> u64" where
  "shape_elements shape = fold (\<lambda>d acc. acc * ucast d) shape 1"

definition tensor_bytes :: "dtype \<Rightarrow> u32 list \<Rightarrow> usize" where
  "tensor_bytes dt shape = shape_elements shape * itemsize dt"

definition contiguous_strides :: "dtype \<Rightarrow> u32 list \<Rightarrow> u32 list" where
  "contiguous_strides dt shape =
     fst (foldr (\<lambda>d (strides, acc). (ucast acc # strides, acc * ucast d)) shape ([], itemsize dt))"

lemma length_contiguous_strides: "length (contiguous_strides dt shape) = length shape"
proof -
  have "length (fst (foldr (\<lambda>d (strides, acc). (ucast acc # strides, acc * ucast d)) shape ([], n))) = length shape" for n
    by (induction shape) (simp_all add: case_prod_unfold)
  then show ?thesis by (simp add: contiguous_strides_def)
qed

definition ndim_error :: "nat \<Rightarrow> error" where
  "ndim_error n = Invalid (''ndim '' @ dec n @ '' exceeds protocol max '' @ dec MAX_NDIM)"

definition tensor_view_new ::
  "dtype \<Rightarrow> u32 list \<Rightarrow> u32 list \<Rightarrow> u8 list \<Rightarrow> error + tensor_view" where
  "tensor_view_new dt shape strides data =
     (if length shape > MAX_NDIM then Inl (ndim_error (length shape))
      else if length strides \<noteq> length shape then Inl (Invalid ''strides must match shape rank'')
      else if tensor_bytes dt shape \<noteq> usize_len data
      then Inl (Invalid (''shape implies '' @ dec (unat (tensor_bytes dt shape)) @
                         '' bytes but buffer is '' @ dec (length data) @ '' bytes''))
      else Inr \<lparr>v_dtype = dt, v_ndim = length shape, v_shape = pad_dims shape,
                v_strides = pad_dims strides, v_data = data, v_timestamp_ns = None\<rparr>)"

definition with_timestamp_ns :: "u64 \<Rightarrow> tensor_view \<Rightarrow> tensor_view" where
  "with_timestamp_ns ts v = v\<lparr>v_timestamp_ns := Some ts\<rparr>"

definition tensor_view_contiguous :: "dtype \<Rightarrow> u32 list \<Rightarrow> u8 list \<Rightarrow> error + tensor_view" where
  "tensor_view_contiguous dt shape data =
     tensor_view_new dt shape (contiguous_strides dt shape) data"

subsection \<open>The contents of a mapping\<close>

record ring =
  g_magic :: "u8 list"
  g_version :: u32
  g_slot_count :: u32
  g_slot_capacity :: u64
  g_next_seq :: u64
  g_consumers :: u32
  g_max_consumers :: u32
  g_publish_count :: u64
  g_drop_count :: u64
  g_publish_futex :: u32
  g_reclaim_futex :: u32
  g_lock :: lock_words
  g_producer_pid :: u32
  g_registry_epoch :: u32
  g_reaped_count :: u64
  g_producer_start_token :: u32
  registry :: "consumer_entry list"
  slots :: "slot_header list"
  payloads :: "u8 list list"

definition upd_slot :: "nat \<Rightarrow> (slot_header \<Rightarrow> slot_header) \<Rightarrow> ring \<Rightarrow> ring" where
  "upd_slot s f r = r\<lparr>slots := (slots r)[s := f (slots r ! s)]\<rparr>"

definition upd_entry :: "nat \<Rightarrow> (consumer_entry \<Rightarrow> consumer_entry) \<Rightarrow> ring \<Rightarrow> ring" where
  "upd_entry i f r = r\<lparr>registry := (registry r)[i := f (registry r ! i)]\<rparr>"

definition zero_slot :: slot_header where
  "zero_slot = \<lparr>s_magic = replicate 4 0, s_state = 0, s_sequence = 0, s_timestamp_ns = 0,
     s_nbytes = 0, s_dtype = 0, s_ndim = 0, s_readers_remaining = 0, s_flags = 0,
     s_shape = replicate MAX_NDIM 0, s_strides = replicate MAX_NDIM 0, s_producer_pid = 0,
     s_pad0 = 0, s_readers_mask = 0, s_producer_start_token = 0, s_reserved = replicate 4 0\<rparr>"

definition zero_entry :: consumer_entry where
  "zero_entry = \<lparr>r_state = 0, r_pid = 0, r_generation = 0, r_flags = 0, r_heartbeat_ns = 0,
     r_last_sequence = 0\<rparr>"

text \<open>The bytes of a payload region: what a slot has beyond its header.\<close>

definition payload_len :: "usize \<Rightarrow> nat" where
  "payload_len capacity = unat (slot_stride capacity) - unat SLOT_HEADER_SIZE"

definition zero_ring :: "usize \<Rightarrow> usize \<Rightarrow> ring" where
  "zero_ring slot_count slot_capacity =
     \<lparr>g_magic = replicate 8 0, g_version = 0, g_slot_count = 0, g_slot_capacity = 0,
      g_next_seq = 0, g_consumers = 0, g_max_consumers = 0, g_publish_count = 0,
      g_drop_count = 0, g_publish_futex = 0, g_reclaim_futex = 0,
      g_lock = \<lparr>lk_word = 0, lk_owner = 0, lk_token = 0\<rparr>, g_producer_pid = 0,
      g_registry_epoch = 0, g_reaped_count = 0, g_producer_start_token = 0,
      registry = replicate MAX_CONSUMERS zero_entry,
      slots = replicate (unat slot_count) zero_slot,
      payloads = replicate (unat slot_count) (replicate (payload_len slot_capacity) 0)\<rparr>"

subsection \<open>Handles\<close>

record inner =
  i_name :: rstring
  i_map :: mapping
  i_slot_count :: usize
  i_slot_capacity :: usize
  i_slot_stride :: usize
  i_owner :: bool
  i_unlink_on_drop :: bool
  i_producers :: usize

definition format_slot :: "nat \<Rightarrow> ring \<Rightarrow> ring" where
  "format_slot i r = upd_slot i (\<lambda>h. h\<lparr>s_state := STATE_FREE\<rparr>) (upd_slot i (\<lambda>h. h\<lparr>s_magic := SLOT_MAGIC\<rparr>) r)"

definition format_ring :: "inner \<Rightarrow> ring" where
  "format_ring h =
     (let r0 = zero_ring (i_slot_count h) (i_slot_capacity h);
          r1 = r0\<lparr>g_magic := PROTOCOL_MAGIC\<rparr>;
          r2 = r1\<lparr>g_version := PROTOCOL_VERSION\<rparr>;
          r3 = r2\<lparr>g_slot_count := ucast (i_slot_count h)\<rparr>;
          r4 = r3\<lparr>g_slot_capacity := i_slot_capacity h\<rparr>;
          r5 = r4\<lparr>g_next_seq := 1\<rparr>;
          r6 = r5\<lparr>g_consumers := 0\<rparr>;
          r7 = r6\<lparr>g_max_consumers := of_nat MAX_CONSUMERS\<rparr>
      in fold format_slot [0..<unat (i_slot_count h)] r7)"

definition is_ascii_alphanumeric :: "rchar \<Rightarrow> bool" where
  "is_ascii_alphanumeric c \<longleftrightarrow> (48 \<le> c \<and> c \<le> 57) \<or> (65 \<le> c \<and> c \<le> 90) \<or> (97 \<le> c \<and> c \<le> 122)"

definition clean_char :: "rchar \<Rightarrow> rchar" where
  "clean_char c = (if is_ascii_alphanumeric c \<or> c = 95 \<or> c = 46 \<or> c = 45 then c else 95)"

definition safe_name :: "rstring \<Rightarrow> error + rstring" where
  "safe_name name =
     (let cleaned = map clean_char (trim name)
      in if cleaned = [] then Inl (Invalid ''ring name must contain at least one safe character'')
         else Inr (take 64 cleaned))"

definition ring_create ::
  "'k kernel \<Rightarrow> rstring \<Rightarrow> ring_options \<Rightarrow> 'k \<Rightarrow> 'k \<times> (error + inner \<times> ring)" where
  "ring_create K name opts k =
     (case safe_name name of
        Inl err \<Rightarrow> (k, Inl err)
      | Inr name' \<Rightarrow>
          (case ring_layout_new (o_slot_count opts) (o_slot_capacity opts) of
             Inl m \<Rightarrow> (k, Inl (Invalid m))
           | Inr layout \<Rightarrow>
               (case shm_create K name' (ring_layout_total_bytes layout) (o_force opts) k of
                  (k1, Inl err) \<Rightarrow> (k1, Inl (Io err))
                | (k1, Inr map') \<Rightarrow>
                    (let h = \<lparr>i_name = name', i_map = map', i_slot_count = rl_slot_count layout,
                              i_slot_capacity = rl_slot_capacity layout,
                              i_slot_stride = slot_stride (rl_slot_capacity layout),
                              i_owner = True, i_unlink_on_drop = True, i_producers = 0\<rparr>
                     in (k1, Inr (h, format_ring h))))))"

text \<open>
  The validation of \<^verbatim>\<open>attach\<close>: header fields of the mapping against its length. The header's
  \<^verbatim>\<open>slot_count\<close> is 32 bits wide.
\<close>

definition attach_header :: "ring \<Rightarrow> usize \<Rightarrow> error + (usize \<times> usize \<times> usize)" where
  "attach_header r map_len =
     (if g_magic r \<noteq> PROTOCOL_MAGIC then Inl (BadHeader ''invalid TenzorBus shared-memory magic'')
      else if g_version r \<noteq> PROTOCOL_VERSION
      then Inl (BadHeader ''unsupported TenzorBus protocol version'')
      else
        (let slot_count = ucast (g_slot_count r); slot_capacity = g_slot_capacity r
         in if slot_count < 2 \<or> slot_capacity < 64
            then Inl (BadHeader ''degenerate ring geometry in header'')
            else if total_bytes slot_count slot_capacity > map_len
            then Inl (BadHeader ''header geometry exceeds mapping length'')
            else Inr (slot_count, slot_capacity, slot_stride slot_capacity)))"

definition ring_attach ::
  "'k kernel \<Rightarrow> (mapping \<Rightarrow> ring) \<Rightarrow> rstring \<Rightarrow> 'k \<Rightarrow> 'k \<times> (error + inner)" where
  "ring_attach K contents name k =
     (case safe_name name of
        Inl err \<Rightarrow> (k, Inl err)
      | Inr name' \<Rightarrow>
          (case shm_attach K name' k of
             (k1, Inl err) \<Rightarrow> (k1, Inl (Io err))
           | (k1, Inr map') \<Rightarrow>
               (case attach_header (contents map') (m_len map') of
                  Inl err \<Rightarrow> (drop_mapping K map' k1, Inl err)
                | Inr (n, c, stride) \<Rightarrow>
                    (k1, Inr \<lparr>i_name = name', i_map = map', i_slot_count = n,
                              i_slot_capacity = c, i_slot_stride = stride, i_owner = False,
                              i_unlink_on_drop = False, i_producers = 0\<rparr>))))"

definition open_or_create ::
  "'k kernel \<Rightarrow> (mapping \<Rightarrow> ring) \<Rightarrow> rstring \<Rightarrow> ring_options \<Rightarrow> 'k \<Rightarrow> 'k \<times> (error + inner \<times> ring option)" where
  "open_or_create K contents name opts k =
     (case ring_create K name opts k of
        (k1, Inr (h, r)) \<Rightarrow> (k1, Inr (h, Some r))
      | (k1, Inl err) \<Rightarrow>
          (if err = Io (Os EEXIST)
           then (case ring_attach K contents name k1 of
                   (k2, Inl err') \<Rightarrow> (k2, Inl err')
                 | (k2, Inr h) \<Rightarrow> (k2, Inr (h, None)))
           else (k1, Inl err)))"

definition keep_on_drop :: "inner \<Rightarrow> inner" where
  "keep_on_drop h = h\<lparr>i_unlink_on_drop := False\<rparr>"

definition unlink_on_drop :: "inner \<Rightarrow> inner" where
  "unlink_on_drop h = h\<lparr>i_unlink_on_drop := True\<rparr>"

text \<open>Dropping the last handle: \<^verbatim>\<open>Inner::drop\<close>, then the drop of its \<^verbatim>\<open>Mapping\<close>.\<close>

definition drop_inner :: "'k kernel \<Rightarrow> inner \<Rightarrow> 'k \<Rightarrow> 'k" where
  "drop_inner K h k =
     drop_mapping K (i_map h) (if i_unlink_on_drop h then fst (shm_unlink K (i_name h) k) else k)"

end
