(* ===== verification/Registry.thy ===== *)
theory Registry
  imports RingState
begin

text \<open>
  The registry part of \<^verbatim>\<open>rust/tenzorbus/src/ring.rs\<close>: the registry lock, the reader masks, the
  liveness sweep, the claims of the producer and of the consumer roles, and the statistics.

  An operation that takes the registry lock returns \<open>None\<close> when it would wait for ever (the lock
  is taken by somebody who never frees it and is not judged dead); otherwise it returns its result
  and the new contents of the mapping. The invariant \<open>wf_ring\<close> ties the masks of the slots to the
  registry.
\<close>

subsection \<open>The registry lock\<close>

definition lock_registry :: "env \<Rightarrow> ring \<Rightarrow> ring option" where
  "lock_registry e r =
     (case futex_lock e (e_pid e) (pid_start_token e (e_pid e)) (g_lock r) of
        None \<Rightarrow> None
      | Some l \<Rightarrow> Some (r\<lparr>g_lock := l\<rparr>))"

definition unlock_registry :: "ring \<Rightarrow> ring" where
  "unlock_registry r = r\<lparr>g_lock := futex_unlock (g_lock r)\<rparr>"

definition lock_free :: "ring \<Rightarrow> bool" where
  "lock_free r \<longleftrightarrow> lk_word (g_lock r) = UNLOCKED"

definition signal_reclaim :: "ring \<Rightarrow> ring" where
  "signal_reclaim r = r\<lparr>g_reclaim_futex := signal (g_reclaim_futex r)\<rparr>"

definition signal_publish :: "ring \<Rightarrow> ring" where
  "signal_publish r = r\<lparr>g_publish_futex := signal (g_publish_futex r)\<rparr>"

subsection \<open>Reader masks\<close>

definition active_mask :: "ring \<Rightarrow> u64" where
  "active_mask r =
     fold (\<lambda>i mask. if r_state (registry r ! i) = REGISTRY_ACTIVE then mask OR one_bit i else mask)
       [0..<MAX_CONSUMERS] 0"

definition drop_bit_step :: "nat \<Rightarrow> nat \<Rightarrow> ring \<times> bool \<Rightarrow> ring \<times> bool" where
  "drop_bit_step index s = (\<lambda>(r, freed_any).
     (let bt = one_bit index;
          previous = s_readers_mask (slots r ! s);
          r1 = upd_slot s (\<lambda>h. h\<lparr>s_readers_mask := previous AND NOT bt\<rparr>) r
      in if previous AND bt \<noteq> 0
         then (let now = previous AND NOT bt;
                   r2 = upd_slot s (\<lambda>h. h\<lparr>s_readers_remaining := of_nat (count_ones now)\<rparr>) r1
               in (r2, freed_any \<or> now = 0))
         else (r1, freed_any)))"

definition drop_consumer_bit :: "nat \<Rightarrow> ring \<Rightarrow> ring \<times> bool" where
  "drop_consumer_bit index r = fold (drop_bit_step index) [0..<length (slots r)] (r, False)"

subsection \<open>The liveness sweep\<close>

definition reap_entry :: "env \<Rightarrow> nat \<Rightarrow> ring \<times> bool \<Rightarrow> ring \<times> bool" where
  "reap_entry e i = (\<lambda>(r, freed).
     (let en = registry r ! i
      in if r_state en \<noteq> REGISTRY_ACTIVE then (r, freed)
         else if r_pid en = e_pid e \<or> pid_alive e (r_pid en) then (r, freed)
         else
           (let (r1, f) = drop_consumer_bit i r;
                r2 = upd_entry i (\<lambda>x. x\<lparr>r_generation := r_generation x + 1\<rparr>) r1;
                r3 = upd_entry i (\<lambda>x. x\<lparr>r_state := REGISTRY_FREE\<rparr>) r2;
                r4 = r3\<lparr>g_consumers := saturating_sub (g_consumers r3) 1\<rparr>;
                r5 = r4\<lparr>g_reaped_count := g_reaped_count r4 + 1\<rparr>;
                r6 = r5\<lparr>g_registry_epoch := g_registry_epoch r5 + 1\<rparr>
            in (r6, freed \<or> f))))"

definition reap_slot :: "env \<Rightarrow> nat \<Rightarrow> ring \<times> bool \<Rightarrow> ring \<times> bool" where
  "reap_slot e s = (\<lambda>(r, freed).
     (let h = slots r ! s
      in if s_state h \<noteq> STATE_WRITING then (r, freed)
         else if s_producer_pid h \<noteq> e_pid e \<and>
                 \<not> pid_alive_with_token e (s_producer_pid h) (s_producer_start_token h)
         then
           (let r1 = upd_slot s (\<lambda>x. x\<lparr>s_readers_mask := 0\<rparr>) r;
                r2 = upd_slot s (\<lambda>x. x\<lparr>s_readers_remaining := 0\<rparr>) r1;
                r3 = upd_slot s (\<lambda>x. x\<lparr>s_state := STATE_FREE\<rparr>) r2
            in (r3, True))
         else (r, freed)))"

definition reap_dead :: "env \<Rightarrow> ring \<Rightarrow> ring" where
  "reap_dead e r =
     (let (r1, freed1) = fold (reap_entry e) [0..<MAX_CONSUMERS] (r, False);
          (r2, freed2) = fold (reap_slot e) [0..<length (slots r1)] (r1, freed1)
      in if freed2 then signal_reclaim r2 else r2)"

definition sweep :: "env \<Rightarrow> ring \<Rightarrow> ring option" where
  "sweep e r =
     (case lock_registry e r of
        None \<Rightarrow> None
      | Some r1 \<Rightarrow> Some (unlock_registry (reap_dead e r1)))"

subsection \<open>The producer role\<close>

text \<open>
  \<open>producers\<close> is the count of live \<^verbatim>\<open>Producer\<close> handles of this process (\<^verbatim>\<open>Inner::producers\<close>).
\<close>

definition producer_claim :: "env \<Rightarrow> usize \<Rightarrow> ring \<Rightarrow> ((error + unit) \<times> usize \<times> ring) option" where
  "producer_claim e producers r =
     (case lock_registry e r of
        None \<Rightarrow> None
      | Some r1 \<Rightarrow>
          (let held = g_producer_pid r1
           in if held \<noteq> 0 \<and> held \<noteq> e_pid e \<and> pid_alive e held
              then Some (Inl (Capacity ''ring already has a live producer''), producers, unlock_registry r1)
              else Some (Inr (), producers + 1, unlock_registry (r1\<lparr>g_producer_pid := e_pid e\<rparr>))))"

definition producer_drop :: "env \<Rightarrow> usize \<Rightarrow> ring \<Rightarrow> usize \<times> ring" where
  "producer_drop e producers r =
     (if producers \<noteq> 1 then (producers - 1, r)
      else (producers - 1, if g_producer_pid r = e_pid e then r\<lparr>g_producer_pid := 0\<rparr> else r))"

subsection \<open>Consumer registration\<close>

record consumer =
  c_index :: nat
  c_generation :: u32
  c_last_sequence :: u64
  c_closed :: bool

definition free_entry :: "ring \<Rightarrow> nat option" where
  "free_entry r = find (\<lambda>i. r_state (registry r ! i) = REGISTRY_FREE) [0..<MAX_CONSUMERS]"

definition register_at :: "env \<Rightarrow> nat \<Rightarrow> ring \<Rightarrow> consumer \<times> ring" where
  "register_at e index r =
     (let last = g_next_seq r - 1;
          generation = r_generation (registry r ! index) + 1;
          r1 = upd_entry index (\<lambda>x. x\<lparr>r_generation := r_generation x + 1\<rparr>) r;
          r2 = upd_entry index (\<lambda>x. x\<lparr>r_pid := e_pid e\<rparr>) r1;
          r3 = upd_entry index (\<lambda>x. x\<lparr>r_flags := pid_start_token e (e_pid e)\<rparr>) r2;
          r4 = upd_entry index (\<lambda>x. x\<lparr>r_heartbeat_ns := now_ns e\<rparr>) r3;
          r5 = upd_entry index (\<lambda>x. x\<lparr>r_last_sequence := last\<rparr>) r4;
          r6 = upd_entry index (\<lambda>x. x\<lparr>r_state := REGISTRY_ACTIVE\<rparr>) r5;
          r7 = r6\<lparr>g_consumers := g_consumers r6 + 1\<rparr>;
          r8 = r7\<lparr>g_registry_epoch := g_registry_epoch r7 + 1\<rparr>
      in (\<lparr>c_index = index, c_generation = generation, c_last_sequence = last, c_closed = False\<rparr>, r8))"

definition consumer_register :: "env \<Rightarrow> ring \<Rightarrow> ((error + consumer) \<times> ring) option" where
  "consumer_register e r =
     (case lock_registry e r of
        None \<Rightarrow> None
      | Some r1 \<Rightarrow>
          (let r2 = reap_dead e r1
           in case free_entry r2 of
                None \<Rightarrow> Some (Inl (Capacity ''maximum consumer count reached''), unlock_registry r2)
              | Some index \<Rightarrow>
                  (case register_at e index r2 of
                     (c, r3) \<Rightarrow> Some (Inr c, unlock_registry r3))))"

definition consumer_close :: "env \<Rightarrow> consumer \<Rightarrow> ring \<Rightarrow> (consumer \<times> ring) option" where
  "consumer_close e c r =
     (if c_closed c then Some (c, r)
      else
        (case lock_registry e r of
           None \<Rightarrow> None
         | Some r1 \<Rightarrow>
             (let (r2, freed) = drop_consumer_bit (c_index c) r1;
                  r3 = (if freed then signal_reclaim r2 else r2);
                  r4 = upd_entry (c_index c) (\<lambda>x. x\<lparr>r_state := REGISTRY_FREE\<rparr>) r3;
                  r5 = r4\<lparr>g_consumers := saturating_sub (g_consumers r4) 1\<rparr>;
                  r6 = r5\<lparr>g_registry_epoch := g_registry_epoch r5 + 1\<rparr>
              in Some (c\<lparr>c_closed := True\<rparr>, unlock_registry r6))))"

subsection \<open>Statistics\<close>

record ring_stats =
  st_slot_count :: usize
  st_slot_capacity :: usize
  st_next_sequence :: u64
  st_consumers :: u32
  st_published :: u64
  st_dropped :: u64
  st_reaped :: u64
  st_free_slots :: nat
  st_committed_slots :: nat

definition ring_stats :: "inner \<Rightarrow> ring \<Rightarrow> ring_stats" where
  "ring_stats h r =
     (let (free, committed) =
        fold (\<lambda>i (f, c).
            if s_state (slots r ! i) = STATE_FREE then (f + 1, c)
            else if s_state (slots r ! i) = STATE_COMMITTED then (f, c + 1)
            else (f, c)) [0..<unat (i_slot_count h)] (0, 0)
      in \<lparr>st_slot_count = i_slot_count h, st_slot_capacity = i_slot_capacity h,
          st_next_sequence = g_next_seq r, st_consumers = g_consumers r,
          st_published = g_publish_count r, st_dropped = g_drop_count r,
          st_reaped = g_reaped_count r, st_free_slots = free, st_committed_slots = committed\<rparr>)"

subsection \<open>Loops over the slots\<close>

text \<open>
  A loop over the slots whose body rewrites the slot it visits from that slot alone, and may raise
  a flag, maps its rewriting over the slots.
\<close>

locale slot_loop =
  fixes body :: "nat \<Rightarrow> ring \<times> bool \<Rightarrow> ring \<times> bool"
    and rewrite :: "slot_header \<Rightarrow> slot_header"
    and flag :: "slot_header \<Rightarrow> bool"
  assumes body_eq: "s < length (slots r) \<Longrightarrow>
    body s (r, f) = (r\<lparr>slots := (slots r)[s := rewrite (slots r ! s)]\<rparr>, f \<or> flag (slots r ! s))"
begin

lemma prefix_eq:
  "n \<le> length (slots r) \<Longrightarrow>
   fold body [0..<n] (r, f) =
     (r\<lparr>slots := map rewrite (take n (slots r)) @ drop n (slots r)\<rparr>,
      f \<or> (\<exists>h\<in>set (take n (slots r)). flag h))"
proof (induction n)
  case 0
  then show ?case by simp
next
  case (Suc n)
  let ?r = "r\<lparr>slots := map rewrite (take n (slots r)) @ drop n (slots r)\<rparr>"
  from Suc.prems have n: "n < length (slots r)" by simp
  then have at: "slots ?r ! n = slots r ! n"
    by (simp add: nth_append)
  have "fold body [0..<Suc n] (r, f) = body n (?r, f \<or> (\<exists>h\<in>set (take n (slots r)). flag h))"
    using Suc by simp
  also have "\<dots> = (?r\<lparr>slots := (slots ?r)[n := rewrite (slots r ! n)]\<rparr>,
      (f \<or> (\<exists>h\<in>set (take n (slots r)). flag h)) \<or> flag (slots r ! n))"
    using n at body_eq [of n ?r] by simp
  also have "(slots ?r)[n := rewrite (slots r ! n)] =
      map rewrite (take (Suc n) (slots r)) @ drop (Suc n) (slots r)"
    using n by (simp add: list_update_append take_Suc_conv_app_nth Cons_nth_drop_Suc [symmetric])
  finally show ?case using n by (auto simp: take_Suc_conv_app_nth)
qed

lemma loop_eq:
  "fold body [0..<length (slots r)] (r, f) =
     (r\<lparr>slots := map rewrite (slots r)\<rparr>, f \<or> (\<exists>h\<in>set (slots r). flag h))"
  by (simp add: prefix_eq)

end

definition clear_reader :: "nat \<Rightarrow> slot_header \<Rightarrow> slot_header" where
  "clear_reader i h =
     (if bit (s_readers_mask h) i
      then h\<lparr>s_readers_mask := s_readers_mask h AND NOT (one_bit i),
             s_readers_remaining := of_nat (count_ones (s_readers_mask h AND NOT (one_bit i)))\<rparr>
      else h)"

definition last_reader :: "nat \<Rightarrow> slot_header \<Rightarrow> bool" where
  "last_reader i h \<longleftrightarrow> s_readers_mask h = one_bit i \<and> i < 64"

lemma and_not_one_bit_eq_0:
  assumes "bit (w :: u64) i"
  shows "w AND NOT (one_bit i) = 0 \<longleftrightarrow> w = one_bit i"
proof
  assume eq: "w AND NOT (one_bit i) = 0"
  show "w = one_bit i"
  proof (rule bit_word_eqI)
    fix j assume "j < LENGTH(64)"
    have "\<not> bit (w AND NOT (one_bit i)) j" using eq by simp
    then show "bit w j = bit (one_bit i) j"
      using assms \<open>j < LENGTH(64)\<close> by (auto simp: bit_and_not_one_bit bit_one_bit)
  qed
next
  assume "w = one_bit i"
  then show "w AND NOT (one_bit i) = 0"
    by (intro bit_word_eqI) (simp only: bit_and_not_one_bit, simp add: bit_one_bit)
qed

lemma bit_u64_less: "bit (w :: u64) i \<Longrightarrow> i < 64"
  using bit_imp_le_length [of w i] by simp

lemma record_slots_same: "r\<lparr>slots := slots r\<rparr> = r"
  by simp

lemma drop_bit_step_eq:
  assumes "s < length (slots r)"
  shows "drop_bit_step i s (r, f) =
    (r\<lparr>slots := (slots r)[s := clear_reader i (slots r ! s)]\<rparr>, f \<or> last_reader i (slots r ! s))"
proof (cases "bit (s_readers_mask (slots r ! s)) i")
  case True
  then have "s_readers_mask (slots r ! s) AND one_bit i \<noteq> 0"
    using and_one_bit [of "s_readers_mask (slots r ! s)" i] by (simp add: bit_u64_less)
  with True assms show ?thesis
    by (simp add: drop_bit_step_def Let_def upd_slot_def clear_reader_def last_reader_def
        and_not_one_bit_eq_0 bit_u64_less)
next
  case False
  then have "s_readers_mask (slots r ! s) AND one_bit i = 0"
    using and_one_bit [of "s_readers_mask (slots r ! s)" i] by simp
  moreover have "\<not> last_reader i (slots r ! s)"
    using False by (auto simp: last_reader_def bit_one_bit)
  ultimately show ?thesis
    using False assms
    by (simp add: drop_bit_step_def Let_def upd_slot_def clear_reader_def and_not_one_bit_id)
qed

interpretation drop_bits: slot_loop "drop_bit_step i" "clear_reader i" "last_reader i" for i
  by unfold_locales (rule drop_bit_step_eq)

lemma drop_consumer_bit_eq:
  "drop_consumer_bit i r =
     (r\<lparr>slots := map (clear_reader i) (slots r)\<rparr>, \<exists>h\<in>set (slots r). last_reader i h)"
  by (simp add: drop_consumer_bit_def drop_bits.loop_eq)

definition abandoned_slot :: "env \<Rightarrow> slot_header \<Rightarrow> bool" where
  "abandoned_slot e h \<longleftrightarrow>
     s_state h = STATE_WRITING \<and> s_producer_pid h \<noteq> e_pid e \<and>
     \<not> pid_alive_with_token e (s_producer_pid h) (s_producer_start_token h)"

definition recover_slot :: "env \<Rightarrow> slot_header \<Rightarrow> slot_header" where
  "recover_slot e h =
     (if abandoned_slot e h
      then h\<lparr>s_readers_mask := 0, s_readers_remaining := 0, s_state := STATE_FREE\<rparr> else h)"

lemma reap_slot_eq:
  assumes "s < length (slots r)"
  shows "reap_slot e s (r, f) =
    (r\<lparr>slots := (slots r)[s := recover_slot e (slots r ! s)]\<rparr>, f \<or> abandoned_slot e (slots r ! s))"
  using assms
  by (auto simp: reap_slot_def Let_def upd_slot_def recover_slot_def abandoned_slot_def)

interpretation reap_slots: slot_loop "reap_slot e" "recover_slot e" "abandoned_slot e" for e
  by unfold_locales (rule reap_slot_eq)

end
