(* ===== verification/RingInvariant.thy ===== *)
theory RingInvariant
  imports Registry
begin

text \<open>
  The invariant of a ring's shared memory and the registry operations under it: the liveness sweep
  in closed form (\<open>swept\<close>), what joining and leaving do to the registry and to the reader masks,
  and that every operation of \<^verbatim>\<open>Registry\<close> keeps \<open>wf_ring\<close>. The properties of the registry part of
  \<^verbatim>\<open>ring.rs\<close> stand at the end.
\<close>

subsection \<open>The active mask\<close>

lemma bit_active_mask:
  "bit (active_mask r) i \<longleftrightarrow> i < 64 \<and> r_state (registry r ! i) = REGISTRY_ACTIVE"
proof -
  have "bit (fold (\<lambda>i mask. if r_state (registry r ! i) = REGISTRY_ACTIVE then mask OR one_bit i else mask)
       [0..<n] (0 :: u64)) i \<longleftrightarrow> i < n \<and> i < 64 \<and> r_state (registry r ! i) = REGISTRY_ACTIVE" for n
    by (induction n) (auto simp: bit_or_one_bit less_Suc_eq)
  from this [of 64] show ?thesis by (auto simp: active_mask_def MAX_CONSUMERS_def)
qed

lemma active_mask_cong:
  assumes "\<And>i. i < 64 \<Longrightarrow>
    r_state (registry r ! i) = REGISTRY_ACTIVE \<longleftrightarrow> r_state (registry q ! i) = REGISTRY_ACTIVE"
  shows "active_mask r = active_mask q"
  using assms by (intro bit_word_eqI) (auto simp: bit_active_mask)

lemma active_mask_set_free:
  assumes "length (registry r) = 64" "i < 64"
    and "registry q = (registry r)[i := x]" "r_state x = REGISTRY_FREE"
  shows "active_mask q = active_mask r AND NOT (one_bit i)"
  using assms by (intro bit_word_eqI) (auto simp: bit_active_mask bit_and_not_one_bit nth_list_update)

lemma active_mask_set_active:
  assumes "length (registry r) = 64" "i < 64"
    and "registry q = (registry r)[i := x]" "r_state x = REGISTRY_ACTIVE"
  shows "active_mask q = active_mask r OR one_bit i"
  using assms by (intro bit_word_eqI) (auto simp: bit_active_mask bit_or_one_bit nth_list_update)

subsection \<open>The liveness sweep in closed form\<close>

definition dead_entry :: "env \<Rightarrow> consumer_entry \<Rightarrow> bool" where
  "dead_entry e x \<longleftrightarrow>
     r_state x = REGISTRY_ACTIVE \<and> r_pid x \<noteq> e_pid e \<and> \<not> pid_alive e (r_pid x)"

definition reclaim_entry :: "env \<Rightarrow> consumer_entry \<Rightarrow> consumer_entry" where
  "reclaim_entry e x =
     (if dead_entry e x
      then x\<lparr>r_generation := r_generation x + 1, r_state := REGISTRY_FREE\<rparr> else x)"

definition dead_below :: "env \<Rightarrow> ring \<Rightarrow> nat \<Rightarrow> nat list" where
  "dead_below e r n = filter (\<lambda>i. dead_entry e (registry r ! i)) [0..<n]"

definition dead_consumers :: "env \<Rightarrow> ring \<Rightarrow> nat list" where
  "dead_consumers e r = dead_below e r MAX_CONSUMERS"

definition clear_readers :: "nat list \<Rightarrow> slot_header \<Rightarrow> slot_header" where
  "clear_readers ds h = fold clear_reader ds h"

lemma clear_readers_Nil [simp]: "clear_readers [] h = h"
  by (simp add: clear_readers_def)

lemma clear_readers_snoc: "clear_readers (ds @ [i]) h = clear_reader i (clear_readers ds h)"
  by (simp add: clear_readers_def)

lemma bit_clear_reader:
  "bit (s_readers_mask (clear_reader i h)) j \<longleftrightarrow> bit (s_readers_mask h) j \<and> i \<noteq> j"
  by (auto simp: clear_reader_def bit_and_not_one_bit)

lemma bit_clear_readers:
  "bit (s_readers_mask (clear_readers ds h)) j \<longleftrightarrow> bit (s_readers_mask h) j \<and> j \<notin> set ds"
  by (induction ds rule: rev_induct) (auto simp: clear_readers_snoc bit_clear_reader)

text \<open>A reader's departure changes the mask and its mirror, nothing else of the header.\<close>

definition same_slot :: "slot_header \<Rightarrow> slot_header \<Rightarrow> bool" where
  "same_slot h k \<longleftrightarrow>
     h\<lparr>s_readers_mask := 0, s_readers_remaining := 0\<rparr> = k\<lparr>s_readers_mask := 0, s_readers_remaining := 0\<rparr>"

lemma same_slot_clear_reader: "same_slot (clear_reader i h) h"
  by (simp add: same_slot_def clear_reader_def)

lemma same_slot_clear_readers: "same_slot (clear_readers ds h) h"
  by (induction ds rule: rev_induct)
    (auto simp: clear_readers_snoc same_slot_def clear_reader_def)

lemma same_slotD:
  assumes "same_slot h k"
  shows "s_magic h = s_magic k" "s_state h = s_state k" "s_sequence h = s_sequence k"
    "s_timestamp_ns h = s_timestamp_ns k" "s_nbytes h = s_nbytes k" "s_dtype h = s_dtype k"
    "s_ndim h = s_ndim k" "s_shape h = s_shape k" "s_strides h = s_strides k"
    "s_producer_pid h = s_producer_pid k" "s_producer_start_token h = s_producer_start_token k"
  using assms by (cases h; cases k; simp add: same_slot_def)+

lemmas clear_reader_same [simp] = same_slotD [OF same_slot_clear_reader]
lemmas clear_readers_same [simp] = same_slotD [OF same_slot_clear_readers]

lemma mask_clear_reader_0:
  "s_readers_mask (clear_reader i h) = 0 \<longleftrightarrow> s_readers_mask h = 0 \<or> last_reader i h"
  by (auto simp: clear_reader_def last_reader_def and_not_one_bit_eq_0 bit_one_bit bit_u64_less)

definition sweep_entries :: "env \<Rightarrow> ring \<Rightarrow> nat \<Rightarrow> ring" where
  "sweep_entries e r n =
     r\<lparr>registry := map (reclaim_entry e) (take n (registry r)) @ drop n (registry r),
       slots := map (clear_readers (dead_below e r n)) (slots r),
       g_consumers := g_consumers r - min (g_consumers r) (of_nat (length (dead_below e r n))),
       g_reaped_count := g_reaped_count r + of_nat (length (dead_below e r n)),
       g_registry_epoch := g_registry_epoch r + of_nat (length (dead_below e r n))\<rparr>"


lemma dead_below_Suc:
  "dead_below e r (Suc n) = dead_below e r n @ (if dead_entry e (registry r ! n) then [n] else [])"
  by (simp add: dead_below_def)

lemma length_dead_below: "length (dead_below e r n) \<le> n"
  unfolding dead_below_def by (rule order_trans [OF length_filter_le]) simp

lemma saturating_count:
  assumes "k < 2 ^ 32 - 1"
  shows "saturating_sub (w - min w (of_nat k)) 1 = w - min w (of_nat (Suc k) :: u32)"
proof -
  have "unat (of_nat k :: u32) = k" "unat (of_nat (Suc k) :: u32) = Suc k"
    using assms by (simp_all add: unat_of_nat del: of_nat_Suc)
  then have "unat (saturating_sub (w - min w (of_nat k)) 1) = unat (w - min w (of_nat (Suc k) :: u32))"
    by (simp add: saturating_sub_def min_def word_le_nat_alt word_less_nat_alt unat_sub_if'
        del: of_nat_Suc)
  then show ?thesis by (simp only: word_unat_eq_iff)
qed

lemma sweep_entries_step_live:
  assumes "length (registry r) = 64" "n < 64" "\<not> dead_entry e (registry r ! n)"
  shows "sweep_entries e r (Suc n) = sweep_entries e r n"
  using assms
  by (simp add: sweep_entries_def dead_below_Suc take_Suc_conv_app_nth reclaim_entry_def
      Cons_nth_drop_Suc)

lemma sweep_entries_nth:
  assumes "length (registry r) = 64" "n < 64"
  shows "registry (sweep_entries e r n) ! n = registry r ! n"
  using assms by (simp add: sweep_entries_def nth_append)

lemma sweep_entries_step_dead:
  assumes len: "length (registry r) = 64" "n < 64" and dead: "dead_entry e (registry r ! n)"
  shows "reap_entry e n (sweep_entries e r n, f) =
    (sweep_entries e r (Suc n), f \<or> (\<exists>h\<in>set (slots r). last_reader n (clear_readers (dead_below e r n) h)))"
proof -
  let ?q = "sweep_entries e r n"
  have at: "registry ?q ! n = registry r ! n" by (rule sweep_entries_nth [OF len])
  have "length (dead_below e r n) < 2 ^ 32 - 1"
    using length_dead_below [of e r n] len by simp
  note sat = saturating_count [OF this]
  have fn: "clear_readers (ds @ [n]) = (\<lambda>h. clear_reader n (clear_readers ds h))" for ds
    by (rule ext) (rule clear_readers_snoc)
  have reg: "(map (reclaim_entry e) (take n (registry r)) @ drop n (registry r))
      [n := reclaim_entry e (registry r ! n)] =
      map (reclaim_entry e) (take (Suc n) (registry r)) @ drop (Suc n) (registry r)"
    using len by (simp add: list_update_append take_Suc_conv_app_nth Cons_nth_drop_Suc [symmetric])
  have out: "reclaim_entry e (registry r ! n) = (registry r ! n)
      \<lparr>r_generation := r_generation (registry r ! n) + 1, r_state := REGISTRY_FREE\<rparr>"
    using dead by (simp add: reclaim_entry_def)
  have len': "n < length (map (reclaim_entry e) (take n (registry r)) @ drop n (registry r))"
    using len by simp
  have nth: "(map (reclaim_entry e) (take n (registry r)) @ drop n (registry r)) ! n = registry r ! n"
    using len by (simp add: nth_append)
  from dead have dead': "r_state (registry r ! n) = REGISTRY_ACTIVE"
      "\<not> (r_pid (registry r ! n) = e_pid e \<or> pid_alive e (r_pid (registry r ! n)))"
    by (simp_all add: dead_entry_def)
  show ?thesis
    unfolding sweep_entries_def dead_below_Suc reg [symmetric] out
    using dead dead' len' nth
    by (simp add: reap_entry_def drop_consumer_bit_eq upd_entry_def Let_def fn sat comp_def ac_simps)
qed


lemma last_reader_cleared: "last_reader i (clear_readers ds h) \<Longrightarrow> s_readers_mask h \<noteq> 0"
  using bit_clear_readers [of ds h i] by (auto simp: last_reader_def bit_one_bit)

lemma reap_entries_eq:
  assumes "length (registry r) = 64" and "n \<le> 64"
  shows "fold (reap_entry e) [0..<n] (r, f) =
    (sweep_entries e r n,
     f \<or> (\<exists>h\<in>set (slots r). s_readers_mask h \<noteq> 0 \<and>
            s_readers_mask (clear_readers (dead_below e r n) h) = 0))"
  using assms(2)
proof (induction n)
  case 0
  have "clear_readers [] = (\<lambda>h. h)" by (rule ext) simp
  then show ?case by (simp add: sweep_entries_def dead_below_def)
next
  case (Suc n)
  show ?case
  proof (cases "dead_entry e (registry r ! n)")
    case True
    then show ?thesis
      using Suc sweep_entries_step_dead [OF assms(1), of n e]
      by (simp add: dead_below_Suc clear_readers_snoc mask_clear_reader_0)
        (blast dest: last_reader_cleared)
  next
    case False
    then have "reap_entry e n (sweep_entries e r n, g) = (sweep_entries e r n, g)" for g
      using Suc.prems sweep_entries_nth [OF assms(1), of n e]
      by (auto simp: reap_entry_def dead_entry_def Let_def)
    with False Suc show ?thesis
      using sweep_entries_step_live [OF assms(1), of n e] by (simp add: dead_below_Suc)
  qed
qed


text \<open>The whole sweep: what it does to the registry, to each slot, to the counters.\<close>

definition swept_slot :: "env \<Rightarrow> ring \<Rightarrow> slot_header \<Rightarrow> slot_header" where
  "swept_slot e r h = recover_slot e (clear_readers (dead_consumers e r) h)"

definition sweep_frees :: "env \<Rightarrow> ring \<Rightarrow> bool" where
  "sweep_frees e r \<longleftrightarrow> (\<exists>h\<in>set (slots r).
     (s_readers_mask h \<noteq> 0 \<and> s_readers_mask (clear_readers (dead_consumers e r) h) = 0) \<or>
     abandoned_slot e h)"

definition swept :: "env \<Rightarrow> ring \<Rightarrow> ring" where
  "swept e r =
     r\<lparr>registry := map (reclaim_entry e) (registry r),
       slots := map (swept_slot e r) (slots r),
       g_consumers := g_consumers r - min (g_consumers r) (of_nat (length (dead_consumers e r))),
       g_reaped_count := g_reaped_count r + of_nat (length (dead_consumers e r)),
       g_registry_epoch := g_registry_epoch r + of_nat (length (dead_consumers e r)),
       g_reclaim_futex := g_reclaim_futex r + (if sweep_frees e r then 1 else 0)\<rparr>"

lemma abandoned_clear_readers: "abandoned_slot e (clear_readers ds h) = abandoned_slot e h"
  by (simp add: abandoned_slot_def)

lemma reap_dead_eq:
  assumes len: "length (registry r) = 64"
  shows "reap_dead e r = swept e r"
proof -
  let ?ds = "dead_consumers e r"
  let ?r1 = "sweep_entries e r 64"
  let ?f1 = "\<exists>h\<in>set (slots r). s_readers_mask h \<noteq> 0 \<and> s_readers_mask (clear_readers ?ds h) = 0"
  have ds: "dead_below e r 64 = ?ds" by (simp add: dead_consumers_def MAX_CONSUMERS_def)
  have 1: "fold (reap_entry e) [0..<MAX_CONSUMERS] (r, False) = (?r1, ?f1)"
    using reap_entries_eq [OF len, of 64 e False] by (simp add: ds MAX_CONSUMERS_def)
  have 2: "fold (reap_slot e) [0..<length (slots ?r1)] (?r1, ?f1) =
     (?r1\<lparr>slots := map (recover_slot e) (slots ?r1)\<rparr>, ?f1 \<or> (\<exists>h\<in>set (slots ?r1). abandoned_slot e h))"
    by (rule reap_slots.loop_eq)
  have 3: "?f1 \<or> (\<exists>h\<in>set (slots ?r1). abandoned_slot e h) \<longleftrightarrow> sweep_frees e r"
    by (auto simp: sweep_frees_def sweep_entries_def ds abandoned_clear_readers)
  have 4: "map (recover_slot e) (slots ?r1) = map (swept_slot e r) (slots r)"
    by (simp add: sweep_entries_def ds swept_slot_def)
  show ?thesis
    unfolding reap_dead_def Let_def 1 prod.case 2 3 4
    by (simp add: swept_def sweep_entries_def ds len signal_reclaim_def signal_def)
qed


subsection \<open>The invariant\<close>

text \<open>
  \<open>slot_ok am cap h\<close>: a slot header in a ring with active consumers \<open>am\<close> and slots of \<open>cap\<close> bytes.
  The mirror of the mask is its population count, only active consumers are in the mask, a free
  slot has no readers, and a slot that is not free carries a header a reader accepts.
\<close>

definition slot_ok :: "u64 \<Rightarrow> usize \<Rightarrow> slot_header \<Rightarrow> bool" where
  "slot_ok am cap h \<longleftrightarrow>
     s_magic h = SLOT_MAGIC \<and>
     (s_state h = STATE_FREE \<or> s_state h = STATE_COMMITTED \<or> s_state h = STATE_WRITING) \<and>
     s_readers_remaining h = of_nat (count_ones (s_readers_mask h)) \<and>
     (\<forall>i. bit (s_readers_mask h) i \<longrightarrow> bit am i) \<and>
     (s_state h = STATE_FREE \<longrightarrow> s_readers_mask h = 0) \<and>
     length (s_shape h) = MAX_NDIM \<and> length (s_strides h) = MAX_NDIM \<and>
     (s_state h \<noteq> STATE_FREE \<longrightarrow> validate_header h cap = Inr ())"

definition wf_ring :: "usize \<Rightarrow> ring \<Rightarrow> bool" where
  "wf_ring cap r \<longleftrightarrow>
     length (registry r) = MAX_CONSUMERS \<and>
     (\<forall>x\<in>set (registry r). r_state x = REGISTRY_FREE \<or> r_state x = REGISTRY_ACTIVE) \<and>
     unat (g_consumers r) = count_ones (active_mask r) \<and>
     length (payloads r) = length (slots r) \<and>
     (\<forall>p\<in>set (payloads r). unat cap \<le> length p) \<and>
     (\<forall>h\<in>set (slots r). slot_ok (active_mask r) cap h)"

lemma wf_ringD:
  assumes "wf_ring cap r"
  shows "length (registry r) = 64"
    and "x \<in> set (registry r) \<Longrightarrow> r_state x = REGISTRY_FREE \<or> r_state x = REGISTRY_ACTIVE"
    and "unat (g_consumers r) = count_ones (active_mask r)"
    and "length (payloads r) = length (slots r)"
    and "s < length (slots r) \<Longrightarrow> unat cap \<le> length (payloads r ! s)"
    and "s < length (slots r) \<Longrightarrow> slot_ok (active_mask r) cap (slots r ! s)"
  using assms by (auto simp: wf_ring_def MAX_CONSUMERS_def)

text \<open>The invariant reads only these components.\<close>

lemma wf_ring_cong:
  assumes "registry q = registry r" "g_consumers q = g_consumers r"
    "payloads q = payloads r" "slots q = slots r"
  shows "wf_ring cap q = wf_ring cap r"
proof -
  have "active_mask q = active_mask r"
    using assms(1) by (intro active_mask_cong) simp
  with assms show ?thesis by (simp add: wf_ring_def)
qed

lemma validate_header_same:
  "same_slot h k \<Longrightarrow> validate_header h cap = validate_header k cap"
  by (simp add: validate_header_def same_slotD)

lemma remaining_clear_reader:
  "s_readers_remaining h = of_nat (count_ones (s_readers_mask h)) \<Longrightarrow>
   s_readers_remaining (clear_reader i h) = of_nat (count_ones (s_readers_mask (clear_reader i h)))"
  by (simp add: clear_reader_def)

lemma remaining_clear_readers:
  "s_readers_remaining h = of_nat (count_ones (s_readers_mask h)) \<Longrightarrow>
   s_readers_remaining (clear_readers ds h) = of_nat (count_ones (s_readers_mask (clear_readers ds h)))"
  by (induction ds rule: rev_induct) (simp_all add: clear_readers_snoc remaining_clear_reader)

lemma mask_cleared_0: "s_readers_mask h = 0 \<Longrightarrow> s_readers_mask (clear_readers ds h) = 0"
  by (rule bit_word_eqI) (simp add: bit_clear_readers)

lemma slot_ok_clear_readers:
  assumes "slot_ok am cap h" and "\<And>i. bit am i \<Longrightarrow> i \<notin> set ds \<Longrightarrow> bit am' i"
  shows "slot_ok am' cap (clear_readers ds h)"
  using assms
  by (auto simp: slot_ok_def bit_clear_readers remaining_clear_readers mask_cleared_0
      validate_header_same [OF same_slot_clear_readers])

lemma slot_ok_recover:
  "slot_ok am cap h \<Longrightarrow> slot_ok am cap (recover_slot e h)"
  by (simp add: slot_ok_def recover_slot_def)

lemma dead_consumers_iff:
  "i \<in> set (dead_consumers e r) \<longleftrightarrow> i < 64 \<and> dead_entry e (registry r ! i)"
  by (auto simp: dead_consumers_def dead_below_def MAX_CONSUMERS_def)

lemma distinct_dead_consumers: "distinct (dead_consumers e r)"
  by (simp add: dead_consumers_def dead_below_def)

lemma reclaim_entry_active:
  "r_state (reclaim_entry e x) = REGISTRY_ACTIVE \<longleftrightarrow> r_state x = REGISTRY_ACTIVE \<and> \<not> dead_entry e x"
  by (simp add: reclaim_entry_def)

lemma bit_active_swept:
  assumes "length (registry r) = 64"
  shows "bit (active_mask (swept e r)) i \<longleftrightarrow> bit (active_mask r) i \<and> i \<notin> set (dead_consumers e r)"
  using assms by (auto simp: bit_active_mask swept_def reclaim_entry_active dead_consumers_iff)

lemma count_active_swept:
  assumes len: "length (registry r) = 64"
  shows "count_ones (active_mask (swept e r)) + length (dead_consumers e r) = count_ones (active_mask r)"
proof -
  define am am' where "am = active_mask r" and "am' = active_mask (swept e r)"
  define A B where "A = {i. i < 64 \<and> bit am' i}" and "B = {i. i < 64 \<and> bit am i}"
  let ?D = "set (dead_consumers e r)"
  have iff: "bit am' i \<longleftrightarrow> bit am i \<and> i \<notin> ?D" for i
    unfolding am_def am'_def by (rule bit_active_swept [OF len])
  have "?D \<subseteq> B"
    by (auto simp: B_def am_def dead_consumers_iff bit_active_mask dead_entry_def)
  then have "B = A \<union> ?D" "A \<inter> ?D = {}"
    using iff by (auto simp: A_def B_def)
  moreover have "finite A" by (simp add: A_def)
  moreover have "card ?D = length (dead_consumers e r)"
    by (rule distinct_card [OF distinct_dead_consumers])
  ultimately have "card B = card A + length (dead_consumers e r)"
    by (simp add: card_Un_disjoint)
  then show ?thesis
    unfolding am_def [symmetric] am'_def [symmetric] by (simp add: count_ones_card A_def B_def)
qed

lemma unat_of_nat_u32: "k < 2 ^ 32 \<Longrightarrow> unat (of_nat k :: u32) = k"
  by (simp add: unat_of_nat)

lemma wf_swept:
  assumes wf: "wf_ring cap r"
  shows "wf_ring cap (swept e r)"
proof -
  have len: "length (registry r) = 64" by (rule wf_ringD [OF wf])
  have "length (dead_consumers e r) \<le> count_ones (active_mask r)"
    using count_active_swept [OF len, of e] by simp
  moreover have "count_ones (active_mask r) \<le> 64"
    using count_ones_le [of "active_mask r"] by simp
  ultimately have "unat (of_nat (length (dead_consumers e r)) :: u32) = length (dead_consumers e r)"
    by (intro unat_of_nat_u32) simp
  moreover from this have "of_nat (length (dead_consumers e r)) \<le> g_consumers r"
    using count_active_swept [OF len, of e] wf_ringD(3) [OF wf] by (simp add: word_le_nat_alt)
  moreover from calculation have "g_consumers (swept e r) = g_consumers r - of_nat (length (dead_consumers e r))"
    by (simp add: swept_def min_absorb2)
  ultimately have "unat (g_consumers (swept e r)) = count_ones (active_mask (swept e r))"
    using count_active_swept [OF len, of e] wf_ringD(3) [OF wf]
    by (simp add: unat_sub)
  moreover have "slot_ok (active_mask (swept e r)) cap (swept_slot e r h)" if "h \<in> set (slots r)" for h
    unfolding swept_slot_def using wf that bit_active_swept [OF len, of e]
    by (intro slot_ok_recover slot_ok_clear_readers [of "active_mask r"]) (auto simp: wf_ring_def)
  ultimately show ?thesis
    using wf by (auto simp: wf_ring_def swept_def reclaim_entry_def)
qed


lemma wf_reap_dead: "wf_ring cap r \<Longrightarrow> wf_ring cap (reap_dead e r)"
  by (simp add: reap_dead_eq wf_swept wf_ringD(1))

subsection \<open>The lock around the operations\<close>

lemma lock_registry_free:
  assumes "lock_free r"
  shows "lock_registry e r =
    Some (r\<lparr>g_lock := take_lock LOCKED (e_pid e) (pid_start_token e (e_pid e))\<rparr>)"
  using assms by (simp add: lock_registry_def lock_free_def futex_lock_iff)

lemma lock_registry_SomeD: "lock_registry e r = Some q \<Longrightarrow> \<exists>l. q = r\<lparr>g_lock := l\<rparr>"
  by (auto simp: lock_registry_def split: option.splits)

lemma wf_ring_g_lock [simp]: "wf_ring cap (r\<lparr>g_lock := l\<rparr>) = wf_ring cap r"
  by (rule wf_ring_cong) simp_all

lemma wf_unlock [simp]: "wf_ring cap (unlock_registry r) = wf_ring cap r"
  by (simp add: unlock_registry_def)

lemma lock_free_unlock [simp]: "lock_free (unlock_registry r)"
  by (simp add: lock_free_def unlock_registry_def futex_unlock_def)

lemma wf_lock: "lock_registry e r = Some q \<Longrightarrow> wf_ring cap q = wf_ring cap r"
  by (auto dest: lock_registry_SomeD)

lemma wf_signal_reclaim [simp]: "wf_ring cap (signal_reclaim r) = wf_ring cap r"
  by (rule wf_ring_cong) (simp_all add: signal_reclaim_def)

lemma wf_signal_publish [simp]: "wf_ring cap (signal_publish r) = wf_ring cap r"
  by (rule wf_ring_cong) (simp_all add: signal_publish_def)

lemma wf_sweep: "wf_ring cap r \<Longrightarrow> sweep e r = Some q \<Longrightarrow> wf_ring cap q"
  by (auto simp: sweep_def wf_lock intro!: wf_reap_dead split: option.splits)

lemma wf_producer_claim:
  assumes "wf_ring cap r" and "producer_claim e n r = Some (res, m, q)"
  shows "wf_ring cap q"
proof -
  obtain r1 where r1: "lock_registry e r = Some r1" "wf_ring cap r1"
    using assms wf_lock [of e r] by (auto simp: producer_claim_def split: option.splits)
  moreover have "wf_ring cap (r1\<lparr>g_producer_pid := e_pid e\<rparr>) = wf_ring cap r1"
    by (rule wf_ring_cong) simp_all
  ultimately show ?thesis
    using assms(2) by (auto simp: producer_claim_def Let_def split: if_splits)
qed

lemma wf_producer_drop:
  assumes "wf_ring cap r"
  shows "wf_ring cap (snd (producer_drop e n r))"
proof -
  have "wf_ring cap (r\<lparr>g_producer_pid := 0\<rparr>) = wf_ring cap r"
    by (rule wf_ring_cong) simp_all
  with assms show ?thesis by (simp add: producer_drop_def)
qed

subsection \<open>Joining and leaving\<close>

lemma free_entry_Some:
  "free_entry r = Some i \<longleftrightarrow>
     i < 64 \<and> r_state (registry r ! i) = REGISTRY_FREE \<and>
     (\<forall>j<i. r_state (registry r ! j) \<noteq> REGISTRY_FREE)"
  by (auto simp: free_entry_def find_Some_iff MAX_CONSUMERS_def)

lemma free_entry_None:
  "free_entry r = None \<longleftrightarrow> (\<forall>i<64. r_state (registry r ! i) \<noteq> REGISTRY_FREE)"
  by (auto simp: free_entry_def find_None_iff MAX_CONSUMERS_def)

text \<open>The registry after \<^verbatim>\<open>consumer()\<close> has filled entry \<open>i\<close>.\<close>

definition fresh_entry :: "env \<Rightarrow> ring \<Rightarrow> consumer_entry \<Rightarrow> consumer_entry" where
  "fresh_entry e r x =
     \<lparr>r_state = REGISTRY_ACTIVE, r_pid = e_pid e, r_generation = r_generation x + 1,
      r_flags = pid_start_token e (e_pid e), r_heartbeat_ns = now_ns e,
      r_last_sequence = g_next_seq r - 1\<rparr>"

lemma register_at_eq:
  assumes "i < length (registry r)"
  shows "register_at e i r =
    (\<lparr>c_index = i, c_generation = r_generation (registry r ! i) + 1,
      c_last_sequence = g_next_seq r - 1, c_closed = False\<rparr>,
     r\<lparr>registry := (registry r)[i := fresh_entry e r (registry r ! i)],
       g_consumers := g_consumers r + 1, g_registry_epoch := g_registry_epoch r + 1\<rparr>)"
proof -
  have "x\<lparr>r_generation := r_generation x + 1, r_pid := e_pid e, r_flags := pid_start_token e (e_pid e),
      r_heartbeat_ns := now_ns e, r_last_sequence := g_next_seq r - 1, r_state := REGISTRY_ACTIVE\<rparr> =
      fresh_entry e r x" for x
    by (cases x) (simp add: fresh_entry_def)
  with assms show ?thesis by (simp add: register_at_def Let_def upd_entry_def)
qed

lemma slot_ok_mono:
  "slot_ok am cap h \<Longrightarrow> (\<And>i. bit am i \<Longrightarrow> bit am' i) \<Longrightarrow> slot_ok am' cap h"
  by (auto simp: slot_ok_def)

lemma wf_register_at:
  assumes wf: "wf_ring cap r" and i: "i < 64" "r_state (registry r ! i) = REGISTRY_FREE"
  shows "wf_ring cap (snd (register_at e i r))"
proof -
  let ?q = "snd (register_at e i r)"
  note D = wf_ringD [OF wf]
  have q: "?q = r\<lparr>registry := (registry r)[i := fresh_entry e r (registry r ! i)],
       g_consumers := g_consumers r + 1, g_registry_epoch := g_registry_epoch r + 1\<rparr>"
    using D(1) i by (simp add: register_at_eq)
  have am: "active_mask ?q = active_mask r OR one_bit i"
    by (rule active_mask_set_active [OF D(1) i(1), where x = "fresh_entry e r (registry r ! i)"])
      (simp_all add: q fresh_entry_def)
  have free: "\<not> bit (active_mask r) i"
    using i by (simp add: bit_active_mask)
  have "count_ones (active_mask r) \<le> 64"
    using count_ones_le [of "active_mask r"] by simp
  then have "unat (g_consumers ?q) = count_ones (active_mask ?q)"
    using D(3) unfolding am count_ones_insert [OF i(1) free]
    by (simp add: q unat_plus_if')
  moreover have "slot_ok (active_mask ?q) cap h" if "h \<in> set (slots r)" for h
    using wf that by (auto simp: wf_ring_def am bit_or_one_bit intro: slot_ok_mono)
  moreover have "\<forall>x\<in>set (registry ?q). r_state x = REGISTRY_FREE \<or> r_state x = REGISTRY_ACTIVE"
    using D(2) by (simp add: q, intro ball_set_update) (auto simp: fresh_entry_def)
  ultimately show ?thesis
    using wf by (simp add: wf_ring_def q)
qed

lemma wf_consumer_register:
  assumes wf: "wf_ring cap r" and op: "consumer_register e r = Some (res, q)"
  shows "wf_ring cap q"
proof -
  obtain r1 where r1: "lock_registry e r = Some r1" "wf_ring cap r1"
    using assms wf_lock [of e r] by (auto simp: consumer_register_def split: option.splits)
  have r2: "wf_ring cap (reap_dead e r1)" using r1(2) by (rule wf_reap_dead)
  show ?thesis
  proof (cases "free_entry (reap_dead e r1)")
    case None
    with op r1 r2 show ?thesis by (auto simp: consumer_register_def Let_def)
  next
    case (Some i)
    then have "wf_ring cap (snd (register_at e i (reap_dead e r1)))"
      by (intro wf_register_at [OF r2]) (simp_all add: free_entry_Some)
    with op r1 Some show ?thesis
      by (auto simp: consumer_register_def Let_def split: prod.splits)
  qed
qed


text \<open>The ring a closing consumer leaves behind.\<close>

definition without_consumer :: "nat \<Rightarrow> ring \<Rightarrow> ring" where
  "without_consumer i r =
     r\<lparr>slots := map (clear_reader i) (slots r),
       g_reclaim_futex := g_reclaim_futex r +
         (if \<exists>h\<in>set (slots r). last_reader i h then 1 else 0),
       registry := (registry r)[i := (registry r ! i)\<lparr>r_state := REGISTRY_FREE\<rparr>],
       g_consumers := saturating_sub (g_consumers r) 1,
       g_registry_epoch := g_registry_epoch r + 1\<rparr>"

lemma consumer_close_eq:
  "consumer_close e c r =
     (if c_closed c then Some (c, r)
      else
        (case lock_registry e r of
           None \<Rightarrow> None
         | Some r1 \<Rightarrow> Some (c\<lparr>c_closed := True\<rparr>, unlock_registry (without_consumer (c_index c) r1))))"
  by (simp add: consumer_close_def without_consumer_def drop_consumer_bit_eq Let_def upd_entry_def
      signal_reclaim_def signal_def split: option.split)

lemma slot_ok_clear_reader:
  assumes "slot_ok am cap h" and "\<And>j. bit am j \<Longrightarrow> j \<noteq> i \<Longrightarrow> bit am' j"
  shows "slot_ok am' cap (clear_reader i h)"
  using slot_ok_clear_readers [of am cap h "[i]" am'] assms by (simp add: clear_readers_def)

lemma saturating_sub_1: "0 < unat w \<Longrightarrow> unat (saturating_sub w 1) = unat w - 1"
  by (auto simp: saturating_sub_def word_less_nat_alt unat_sub_if')

lemma wf_without_consumer:
  assumes wf: "wf_ring cap r" and i: "i < 64" "r_state (registry r ! i) = REGISTRY_ACTIVE"
  shows "wf_ring cap (without_consumer i r)"
proof -
  let ?q = "without_consumer i r"
  note D = wf_ringD [OF wf]
  have am: "active_mask ?q = active_mask r AND NOT (one_bit i)"
    by (rule active_mask_set_free [OF D(1) i(1), where x = "(registry r ! i)\<lparr>r_state := REGISTRY_FREE\<rparr>"])
      (simp_all add: without_consumer_def)
  have "Suc (count_ones (active_mask ?q)) = count_ones (active_mask r)"
    unfolding am by (rule count_ones_remove) (use i in \<open>simp_all add: bit_active_mask\<close>)
  then have "unat (g_consumers ?q) = count_ones (active_mask ?q)"
    using D(3) saturating_sub_1 [of "g_consumers r"] by (simp add: without_consumer_def)
  moreover have "slot_ok (active_mask ?q) cap (clear_reader i h)" if "h \<in> set (slots r)" for h
    by (rule slot_ok_clear_reader [of "active_mask r"])
      (use wf that in \<open>simp_all add: wf_ring_def am bit_and_not_one_bit\<close>)
  moreover have "\<forall>x\<in>set (registry ?q). r_state x = REGISTRY_FREE \<or> r_state x = REGISTRY_ACTIVE"
    using D(2) by (simp add: without_consumer_def, intro ball_set_update) auto
  ultimately show ?thesis
    using wf by (simp add: wf_ring_def without_consumer_def)
qed

lemma wf_consumer_close:
  assumes "wf_ring cap r" and "consumer_close e c r = Some (c', q)"
    and "\<not> c_closed c \<Longrightarrow> c_index c < 64 \<and> r_state (registry r ! c_index c) = REGISTRY_ACTIVE"
  shows "wf_ring cap q"
proof (cases "c_closed c")
  case True
  with assms show ?thesis by (simp add: consumer_close_def)
next
  case False
  then obtain r1 where r1: "lock_registry e r = Some r1" "q = unlock_registry (without_consumer (c_index c) r1)"
    using assms(2) by (auto simp: consumer_close_eq split: option.splits)
  then have "wf_ring cap r1" "registry r1 = registry r"
    using assms(1) wf_lock [of e r r1] by (auto dest: lock_registry_SomeD)
  with assms(3) False r1(2) show ?thesis by (simp add: wf_without_consumer)
qed

subsection \<open>A fresh ring\<close>

lemma format_slots:
  "n \<le> length (slots r) \<Longrightarrow>
   fold format_slot [0..<n] r =
     r\<lparr>slots := map (\<lambda>h. h\<lparr>s_magic := SLOT_MAGIC, s_state := STATE_FREE\<rparr>) (take n (slots r)) @ drop n (slots r)\<rparr>"
proof (induction n)
  case 0
  show ?case by simp
next
  case (Suc n)
  then show ?case
    by (simp add: format_slot_def upd_slot_def nth_append list_update_append take_Suc_conv_app_nth
        Cons_nth_drop_Suc [symmetric])
qed

lemma format_ring_eq:
  "format_ring h =
     (zero_ring (i_slot_count h) (i_slot_capacity h))
       \<lparr>g_magic := PROTOCOL_MAGIC, g_version := PROTOCOL_VERSION,
        g_slot_count := ucast (i_slot_count h), g_slot_capacity := i_slot_capacity h,
        g_next_seq := 1, g_max_consumers := 64,
        slots := replicate (unat (i_slot_count h)) (zero_slot\<lparr>s_magic := SLOT_MAGIC, s_state := STATE_FREE\<rparr>)\<rparr>"
  unfolding format_ring_def Let_def
  by (subst format_slots) (simp_all add: zero_ring_def MAX_CONSUMERS_def)

lemma payload_len_ge:
  assumes "unat cap + 192 \<le> 2 ^ 64"
  shows "unat cap \<le> payload_len cap"
  using stride_nat_ge [of "unat cap"] unat_slot_stride [OF assms]
  by (simp add: payload_len_def SLOT_HEADER_SIZE_def)

lemma active_mask_format: "active_mask (format_ring h) = 0"
  by (rule bit_word_eqI)
    (simp add: bit_active_mask format_ring_eq zero_ring_def zero_entry_def MAX_CONSUMERS_def REGISTRY_ACTIVE_def)

lemma wf_format_ring:
  assumes "unat (i_slot_capacity h) + 192 \<le> 2 ^ 64"
  shows "wf_ring (i_slot_capacity h) (format_ring h)"
  unfolding wf_ring_def active_mask_format
  using payload_len_ge [OF assms]
  by (simp add: format_ring_eq zero_ring_def zero_entry_def slot_ok_def zero_slot_def
      REGISTRY_FREE_def set_replicate_conv_if)

lemma lock_free_format [simp]: "lock_free (format_ring h)"
  by (simp add: lock_free_def format_ring_eq zero_ring_def UNLOCKED_def)


subsection \<open>Closed instances\<close>

text \<open>An environment without \<^verbatim>\<open>/proc\<close>: liveness is what \<^verbatim>\<open>kill(pid, 0)\<close> says.\<close>

definition kill_env :: "u32 \<Rightarrow> u32 list \<Rightarrow> u64 \<Rightarrow> env" where
  "kill_env pid living sec =
     \<lparr>e_pid = pid, e_read = (\<lambda>_. None),
      e_kill = (\<lambda>p. if p \<in> set (map sint living) then None else Some 3), e_clock = (sec, 0)\<rparr>"

lemma sint_eq_iff_eq: "sint (p :: u32) = sint q \<longleftrightarrow> p = q"
  by (metis signed_word_eqI)

lemma pid_alive_kill_env [simp]:
  "pid_alive (kill_env pid living sec) p \<longleftrightarrow> p \<noteq> 0 \<and> p \<in> set living"
  by (auto simp: pid_alive_def pid_alive_with_token_def proc_stat_def kill_env_def EPERM_def sint_eq_iff_eq)

lemma pid_alive_token_kill_env [simp]:
  "pid_alive_with_token (kill_env pid living sec) p tok \<longleftrightarrow> p \<noteq> 0 \<and> p \<in> set living"
  by (auto simp: pid_alive_with_token_def proc_stat_def kill_env_def EPERM_def sint_eq_iff_eq)

lemma e_pid_kill_env [simp]: "e_pid (kill_env pid living sec) = pid"
  by (simp add: kill_env_def)

definition demo_inner :: inner where
  "demo_inner = \<lparr>i_name = ascii ''frames'', i_map = \<lparr>m_ptr = 4096, m_len = total_bytes 2 64\<rparr>,
     i_slot_count = 2, i_slot_capacity = 64, i_slot_stride = slot_stride 64, i_owner = True,
     i_unlink_on_drop = True, i_producers = 0\<rparr>"

definition demo_ring :: ring where
  "demo_ring = format_ring demo_inner"

lemma wf_demo_ring: "wf_ring 64 demo_ring" "lock_free demo_ring"
  using wf_format_ring [of demo_inner] by (simp_all add: demo_ring_def demo_inner_def)

lemma demo_ring_sel [simp]:
  "registry demo_ring = replicate 64 zero_entry" "g_producer_pid demo_ring = 0"
  "g_next_seq demo_ring = 1" "length (slots demo_ring) = 2"
  by (simp_all add: demo_ring_def format_ring_eq zero_ring_def demo_inner_def MAX_CONSUMERS_def)

subsection \<open>Properties\<close>


text \<open>A ring with one consumer, of process 9, that has one publication pending in slot 0.\<close>

definition pending_slot :: slot_header where
  "pending_slot = zero_slot\<lparr>s_magic := SLOT_MAGIC, s_state := STATE_COMMITTED, s_sequence := 1,
     s_nbytes := 8, s_dtype := dtype_code U8, s_ndim := 1, s_readers_remaining := 1,
     s_shape := pad_dims [8], s_strides := pad_dims [1], s_producer_pid := 7, s_readers_mask := 1\<rparr>"

definition pending_ring :: ring where
  "pending_ring =
     (let r = snd (register_at (kill_env 9 [7, 9] 1) 0 demo_ring)
      in r\<lparr>slots := (slots r)[0 := pending_slot], g_next_seq := 2\<rparr>)"

lemma pending_ring_eq:
  "pending_ring = demo_ring\<lparr>
     registry := (registry demo_ring)[0 := fresh_entry (kill_env 9 [7, 9] 1) demo_ring zero_entry],
     g_consumers := g_consumers demo_ring + 1, g_registry_epoch := g_registry_epoch demo_ring + 1,
     slots := (slots demo_ring)[0 := pending_slot], g_next_seq := 2\<rparr>"
  by (simp add: pending_ring_def register_at_eq Let_def)

lemma pending_ring_sel [simp]:
  "registry pending_ring ! 0 = fresh_entry (kill_env 9 [7, 9] 1) demo_ring zero_entry"
  "length (registry pending_ring) = 64" "length (slots pending_ring) = 2"
  "slots pending_ring ! 0 = pending_slot" "g_next_seq pending_ring = 2"
  by (simp_all add: pending_ring_eq)

lemma wf_pending_ring: "wf_ring 64 pending_ring" "lock_free pending_ring"
proof -
  let ?r = "snd (register_at (kill_env 9 [7, 9] 1) 0 demo_ring)"
  have wf: "wf_ring 64 ?r"
    by (rule wf_register_at) (simp_all add: wf_demo_ring zero_entry_def REGISTRY_FREE_def)
  have am: "active_mask pending_ring = active_mask ?r"
    by (rule active_mask_cong) (simp add: pending_ring_def Let_def)
  have "bit (active_mask ?r) 0"
    by (simp add: bit_active_mask register_at_eq fresh_entry_def)
  then have "slot_ok (active_mask ?r) 64 pending_slot"
    by (auto simp: slot_ok_def pending_slot_def validate_header_def dtype_from_code_def zero_slot_def pad_dims_def
        MAX_NDIM_def bit_1_iff count_ones_def upt_rec)
  then show "wf_ring 64 pending_ring"
    using wf unfolding wf_ring_def am
    by (simp add: pending_ring_def Let_def) (intro ball_set_update, simp_all)
  show "lock_free pending_ring"
    using wf_demo_ring(2) by (simp add: pending_ring_eq lock_free_def)
qed


text \<open>
  Registering a consumer on a free lock returns, leaves the lock free and keeps the
  invariant. It is refused exactly when all 64 entries belong to living consumers; otherwise the
  consumer gets an entry that was free or a dead process's, under a new generation, and starts
  after everything published so far: it is in no reader mask and its last sequence is the newest.
\<close>

theorem consumer_register_spec:
  assumes wf: "wf_ring cap r" and free: "lock_free r"
  shows "\<exists>res q. consumer_register e r = Some (res, q) \<and> lock_free q \<and> wf_ring cap q \<and>
    (case res of
       Inl err \<Rightarrow> err = Capacity ''maximum consumer count reached'' \<and>
         (\<forall>i<MAX_CONSUMERS. r_state (registry r ! i) = REGISTRY_ACTIVE \<and> \<not> dead_entry e (registry r ! i))
     | Inr c \<Rightarrow> c_index c < MAX_CONSUMERS \<and> \<not> c_closed c \<and>
         (r_state (registry r ! c_index c) = REGISTRY_FREE \<or> dead_entry e (registry r ! c_index c)) \<and>
         r_state (registry q ! c_index c) = REGISTRY_ACTIVE \<and> r_pid (registry q ! c_index c) = e_pid e \<and>
         r_generation (registry q ! c_index c) = c_generation c \<and>
         c_last_sequence c = g_next_seq r - 1 \<and> g_next_seq q = g_next_seq r \<and>
         (\<forall>s<length (slots q). \<not> bit (s_readers_mask (slots q ! s)) (c_index c)))"
proof -
  obtain r1 where r1: "lock_registry e r = Some r1" "wf_ring cap r1" "registry r1 = registry r"
      "g_next_seq r1 = g_next_seq r"
    using lock_registry_free [OF free, of e] wf by simp
  define r2 where "r2 = reap_dead e r1"
  have wf2: "wf_ring cap r2" unfolding r2_def using r1(2) by (rule wf_reap_dead)
  have len: "length (registry r1) = 64" by (rule wf_ringD [OF r1(2)])
  have r2: "r2 = swept e r1" unfolding r2_def by (rule reap_dead_eq [OF len])
  have state2: "r_state (registry r2 ! i) =
      (if dead_entry e (registry r ! i) then REGISTRY_FREE else r_state (registry r ! i))" if "i < 64" for i
    using that len by (simp add: r2 swept_def reclaim_entry_def r1(3))
  have valid: "r_state (registry r2 ! i) = REGISTRY_FREE \<or> r_state (registry r2 ! i) = REGISTRY_ACTIVE"
    if "i < 64" for i
    using that wf_ringD(1,2) [OF wf2] by simp
  show ?thesis
  proof (cases "free_entry r2")
    case None
    then have "r_state (registry r ! i) = REGISTRY_ACTIVE \<and> \<not> dead_entry e (registry r ! i)" if "i < 64" for i
      using that state2 [OF that] valid [OF that] by (auto simp: free_entry_None split: if_splits)
    with None wf2 r1(1) show ?thesis
      by (simp add: consumer_register_def Let_def r2_def [symmetric] MAX_CONSUMERS_def)
  next
    case (Some i)
    then have i: "i < 64" "r_state (registry r2 ! i) = REGISTRY_FREE"
      by (simp_all add: free_entry_Some)
    have wf3: "wf_ring cap (snd (register_at e i r2))" by (rule wf_register_at [OF wf2 i])
    have "\<not> bit (s_readers_mask (slots r2 ! s)) i" if "s < length (slots r2)" for s
      using wf_ringD(6) [OF wf2 that] i by (auto simp: slot_ok_def bit_active_mask)
    moreover have "r_state (registry r ! i) = REGISTRY_FREE \<or> dead_entry e (registry r ! i)"
      using i state2 [OF i(1)] by (auto split: if_splits)
    moreover have "g_next_seq r2 = g_next_seq r" by (simp add: r2 swept_def r1(4))
    ultimately show ?thesis
      using Some r1(1) i wf3 wf_ringD(1) [OF wf2]
      by (simp add: consumer_register_def Let_def r2_def [symmetric] register_at_eq fresh_entry_def
          unlock_registry_def MAX_CONSUMERS_def lock_free_def futex_unlock_def)
  qed
qed


theorem consumer_register_spec_witness:
  "\<exists>c q. consumer_register (kill_env 7 [7] 1) demo_ring = Some (Inr c, q) \<and> wf_ring 64 q \<and>
     r_pid (registry q ! c_index c) = 7 \<and> c_last_sequence c = 0"
proof -
  obtain res q where op: "consumer_register (kill_env 7 [7] 1) demo_ring = Some (res, q)" "wf_ring 64 q"
    and res: "case res of
       Inl err \<Rightarrow> err = Capacity ''maximum consumer count reached'' \<and>
         (\<forall>i<MAX_CONSUMERS. r_state (registry demo_ring ! i) = REGISTRY_ACTIVE \<and>
            \<not> dead_entry (kill_env 7 [7] 1) (registry demo_ring ! i))
     | Inr c \<Rightarrow> c_index c < MAX_CONSUMERS \<and> \<not> c_closed c \<and>
         (r_state (registry demo_ring ! c_index c) = REGISTRY_FREE \<or>
          dead_entry (kill_env 7 [7] 1) (registry demo_ring ! c_index c)) \<and>
         r_state (registry q ! c_index c) = REGISTRY_ACTIVE \<and>
         r_pid (registry q ! c_index c) = e_pid (kill_env 7 [7] 1) \<and>
         r_generation (registry q ! c_index c) = c_generation c \<and>
         c_last_sequence c = g_next_seq demo_ring - 1 \<and> g_next_seq q = g_next_seq demo_ring \<and>
         (\<forall>s<length (slots q). \<not> bit (s_readers_mask (slots q ! s)) (c_index c))"
    using consumer_register_spec [OF wf_demo_ring, of "kill_env 7 [7] 1"] by blast
  show ?thesis
  proof (cases res)
    case (Inl err)
    with res have all: "\<forall>i<MAX_CONSUMERS. r_state (registry demo_ring ! i) = REGISTRY_ACTIVE"
      by (simp del: demo_ring_sel)
    have "r_state (registry demo_ring ! 0) = REGISTRY_ACTIVE"
      by (rule all [rule_format]) (simp add: MAX_CONSUMERS_def)
    then show ?thesis by (simp add: zero_entry_def REGISTRY_ACTIVE_def)
  next
    case (Inr c)
    with op res show ?thesis by auto
  qed
qed

text \<open>
  Closing a registered consumer on a free lock returns, frees its entry, decrements the
  consumer count, takes its bit and no other out of every reader mask, and keeps the invariant;
  closing it again changes nothing.
\<close>

theorem consumer_close_spec:
  assumes wf: "wf_ring cap r" and free: "lock_free r" and c: "\<not> c_closed c" "c_index c < MAX_CONSUMERS"
    and active: "r_state (registry r ! c_index c) = REGISTRY_ACTIVE"
  shows "\<exists>q. consumer_close e c r = Some (c\<lparr>c_closed := True\<rparr>, q) \<and> lock_free q \<and> wf_ring cap q \<and>
    r_state (registry q ! c_index c) = REGISTRY_FREE \<and> unat (g_consumers q) + 1 = unat (g_consumers r) \<and>
    (\<forall>s<length (slots r). \<forall>j. bit (s_readers_mask (slots q ! s)) j \<longleftrightarrow>
       bit (s_readers_mask (slots r ! s)) j \<and> j \<noteq> c_index c) \<and>
    consumer_close e (c\<lparr>c_closed := True\<rparr>) q = Some (c\<lparr>c_closed := True\<rparr>, q)"
proof -
  define l where "l = take_lock LOCKED (e_pid e) (pid_start_token e (e_pid e))"
  define q where "q = unlock_registry (without_consumer (c_index c) (r\<lparr>g_lock := l\<rparr>))"
  have op: "consumer_close e c r = Some (c\<lparr>c_closed := True\<rparr>, q)"
    using c(1) by (simp add: consumer_close_eq lock_registry_free [OF free] l_def q_def)
  have i: "c_index c < 64" using c(2) by (simp add: MAX_CONSUMERS_def)
  have wfq: "wf_ring cap q"
    using wf_consumer_close [OF wf op] i active by simp
  have "0 < count_ones (active_mask r)"
    using i active by (auto simp: neq0_conv [symmetric] bit_active_mask simp del: neq0_conv
        dest: arg_cong [where f = "\<lambda>w. bit w (c_index c)"])
  then have "unat (g_consumers q) + 1 = unat (g_consumers r)"
    using wf_ringD(3) [OF wf] saturating_sub_1 [of "g_consumers r"]
    by (simp add: q_def unlock_registry_def without_consumer_def)
  then show ?thesis
    using op wfq i wf_ringD(1) [OF wf]
    by (auto simp: q_def unlock_registry_def without_consumer_def bit_clear_reader lock_free_def
        futex_unlock_def consumer_close_def)
qed

theorem consumer_close_spec_witness:
  "\<exists>q. consumer_close (kill_env 9 [7, 9] 2)
       \<lparr>c_index = 0, c_generation = 1, c_last_sequence = 0, c_closed = False\<rparr> pending_ring =
       Some (\<lparr>c_index = 0, c_generation = 1, c_last_sequence = 0, c_closed = True\<rparr>, q) \<and>
     \<not> bit (s_readers_mask (slots q ! 0)) 0"
proof -
  obtain q where "consumer_close (kill_env 9 [7, 9] 2)
       \<lparr>c_index = 0, c_generation = 1, c_last_sequence = 0, c_closed = False\<rparr> pending_ring =
       Some (\<lparr>c_index = 0, c_generation = 1, c_last_sequence = 0, c_closed = True\<rparr>, q)"
    "\<forall>s<2. \<forall>j. bit (s_readers_mask (slots q ! s)) j \<longleftrightarrow>
       bit (s_readers_mask (slots pending_ring ! s)) j \<and> j \<noteq> 0"
    using consumer_close_spec [OF wf_pending_ring,
        of "\<lparr>c_index = 0, c_generation = 1, c_last_sequence = 0, c_closed = False\<rparr>" "kill_env 9 [7, 9] 2"]
    by (auto simp: MAX_CONSUMERS_def fresh_entry_def)
  then show ?thesis by auto
qed

text \<open>
  On a free lock the producer role is refused exactly when another process that is alive
  holds it; once taken, every other process is refused while its holder lives; and dropping the
  last producer handle of the process gives the role back.
\<close>

theorem producer_role_exclusive:
  assumes free: "lock_free r"
  shows "\<exists>res m q. producer_claim e n r = Some (res, m, q) \<and> lock_free q \<and>
    (if g_producer_pid r \<noteq> 0 \<and> g_producer_pid r \<noteq> e_pid e \<and> pid_alive e (g_producer_pid r)
     then res = Inl (Capacity ''ring already has a live producer'') \<and> m = n \<and>
          g_producer_pid q = g_producer_pid r
     else res = Inr () \<and> m = n + 1 \<and> g_producer_pid q = e_pid e \<and>
       (\<forall>e' k. e_pid e' \<noteq> e_pid e \<and> pid_alive e' (e_pid e) \<longrightarrow>
          (\<exists>q'. producer_claim e' k q = Some (Inl (Capacity ''ring already has a live producer''), k, q') \<and>
                g_producer_pid q' = e_pid e)) \<and>
       g_producer_pid (snd (producer_drop e 1 q)) = 0)"
proof -
  have 1: "producer_claim e n r = Some
     (if g_producer_pid r \<noteq> 0 \<and> g_producer_pid r \<noteq> e_pid e \<and> pid_alive e (g_producer_pid r)
      then (Inl (Capacity ''ring already has a live producer''), n,
            unlock_registry (r\<lparr>g_lock := take_lock LOCKED (e_pid e) (pid_start_token e (e_pid e))\<rparr>))
      else (Inr (), n + 1,
            unlock_registry (r\<lparr>g_lock := take_lock LOCKED (e_pid e) (pid_start_token e (e_pid e)),
              g_producer_pid := e_pid e\<rparr>)))" if "lock_free r" for e n r
    by (auto simp: producer_claim_def lock_registry_free [OF that] Let_def)
  have nz: "pid_alive e' p \<Longrightarrow> p \<noteq> 0" for e' p
    by (auto simp: pid_alive_def)
  show ?thesis
  proof (cases "g_producer_pid r \<noteq> 0 \<and> g_producer_pid r \<noteq> e_pid e \<and> pid_alive e (g_producer_pid r)")
    case True
    then show ?thesis
      using 1 [OF free, of e n] by (simp add: lock_free_def unlock_registry_def futex_unlock_def)
  next
    case False
    define q where "q = unlock_registry (r\<lparr>g_lock := take_lock LOCKED (e_pid e) (pid_start_token e (e_pid e)),
        g_producer_pid := e_pid e\<rparr>)"
    have q: "lock_free q" "g_producer_pid q = e_pid e"
      by (simp_all add: q_def lock_free_def unlock_registry_def futex_unlock_def)
    have "\<exists>q'. producer_claim e' k q = Some (Inl (Capacity ''ring already has a live producer''), k, q') \<and>
        g_producer_pid q' = e_pid e" if "e_pid e' \<noteq> e_pid e" "pid_alive e' (e_pid e)" for e' k
      using 1 [OF q(1), of e' k] q(2) that nz [OF that(2)]
      by (auto simp: unlock_registry_def)
    moreover have "producer_claim e n r = Some (Inr (), n + 1, q)"
      using 1 [OF free, of e n] False by (simp add: q_def)
    ultimately show ?thesis
      using False q by (auto simp: producer_drop_def)
  qed
qed

theorem producer_role_exclusive_witness:
  "\<exists>m q. producer_claim (kill_env 7 [7, 9] 1) 0 demo_ring = Some (Inr (), m, q) \<and>
     g_producer_pid q = 7 \<and>
     (\<exists>q'. producer_claim (kill_env 9 [7, 9] 1) 0 q =
        Some (Inl (Capacity ''ring already has a live producer''), 0, q'))"
  using producer_role_exclusive [OF wf_demo_ring(2), of "kill_env 7 [7, 9] 1" 0]
  by (force dest!: spec [of _ "kill_env 9 [7, 9] 1"])

end
