(* ===== verification/Producer.thy ===== *)
theory Producer
  imports RingInvariant
begin

text \<open>
  The producer part of \<^verbatim>\<open>rust/tenzorbus/src/ring.rs\<close>: the choice of a slot and the header a
  reservation writes, \<^verbatim>\<open>publish\<close>, \<^verbatim>\<open>reserve\<close> and the direct writer. \<open>pick_slot\<close> is the scan of
  \<^verbatim>\<open>reserve_header\<close>; the locale \<open>windowed\<close> holds what both scans of the ring rely on.
\<close>

subsection \<open>Choosing a slot\<close>

text \<open>
  The \<^verbatim>\<open>match\<close> both scans share: a candidate replaces the best so far unless the best is not
  newer than it.
\<close>

definition keep_oldest :: "u64 \<times> nat \<Rightarrow> (u64 \<times> nat) option \<Rightarrow> (u64 \<times> nat) option" where
  "keep_oldest cand oldest =
     (case oldest of
        Some (best, i) \<Rightarrow> if \<not> seq_newer best (fst cand) then Some (best, i) else Some cand
      | None \<Rightarrow> Some cand)"

definition pick_step ::
  "ring \<Rightarrow> nat \<Rightarrow> nat option \<times> (u64 \<times> nat) option \<Rightarrow> nat option \<times> (u64 \<times> nat) option" where
  "pick_step r i = (\<lambda>(free_slot, oldest).
     (if s_state (slots r ! i) = STATE_FREE
      then (if free_slot = None then Some i else free_slot, oldest)
      else if s_state (slots r ! i) = STATE_COMMITTED
      then (free_slot,
            if s_readers_mask (slots r ! i) = 0
            then keep_oldest (s_sequence (slots r ! i), i) oldest else oldest)
      else (free_slot, oldest)))"

definition pick_slot :: "ring \<Rightarrow> nat option" where
  "pick_slot r =
     (case fold (pick_step r) [0..<length (slots r)] (None, None) of
        (Some i, _) \<Rightarrow> Some i
      | (None, oldest) \<Rightarrow> map_option snd oldest)"

definition store_dims :: "nat \<Rightarrow> u32 list \<Rightarrow> u32 list \<Rightarrow> ring \<Rightarrow> ring" where
  "store_dims s shape strides r =
     fold (\<lambda>d r. upd_slot s (\<lambda>h. h\<lparr>s_strides := (s_strides h)[d := strides ! d]\<rparr>)
                   (upd_slot s (\<lambda>h. h\<lparr>s_shape := (s_shape h)[d := shape ! d]\<rparr>) r))
       [0..<MAX_NDIM] r"

definition reserve_header ::
  "env \<Rightarrow> dtype \<Rightarrow> nat \<Rightarrow> u32 list \<Rightarrow> u32 list \<Rightarrow> usize \<Rightarrow> u64 option \<Rightarrow> ring \<Rightarrow>
   (nat \<times> u64 \<times> u64) option \<times> ring" where
  "reserve_header e dt ndim shape strides nbytes ts r0 =
     (let r = reap_dead e r0
      in case pick_slot r of
           None \<Rightarrow> (None, r)
         | Some s \<Rightarrow>
             (let sequence = g_next_seq r;
                  rm = active_mask r;
                  r1 = upd_slot s (\<lambda>h. h\<lparr>s_state := STATE_WRITING\<rparr>) r;
                  r2 = upd_slot s (\<lambda>h. h\<lparr>s_producer_pid := e_pid e\<rparr>) r1;
                  r3 = upd_slot s (\<lambda>h. h\<lparr>s_producer_start_token := pid_start_token e (e_pid e)\<rparr>) r2;
                  r4 = upd_slot s (\<lambda>h. h\<lparr>s_sequence := sequence\<rparr>) r3;
                  r5 = upd_slot s (\<lambda>h. h\<lparr>s_timestamp_ns := (case ts of Some t \<Rightarrow> t | None \<Rightarrow> now_ns e)\<rparr>) r4;
                  r6 = upd_slot s (\<lambda>h. h\<lparr>s_nbytes := nbytes\<rparr>) r5;
                  r7 = upd_slot s (\<lambda>h. h\<lparr>s_dtype := dtype_code dt\<rparr>) r6;
                  r8 = upd_slot s (\<lambda>h. h\<lparr>s_ndim := of_nat ndim\<rparr>) r7;
                  r9 = upd_slot s (\<lambda>h. h\<lparr>s_flags := 0\<rparr>) r8;
                  r10 = store_dims s shape strides r9;
                  r11 = upd_slot s (\<lambda>h. h\<lparr>s_readers_mask := rm\<rparr>) r10;
                  r12 = upd_slot s (\<lambda>h. h\<lparr>s_readers_remaining := of_nat (count_ones rm)\<rparr>) r11;
                  r13 = r12\<lparr>g_next_seq := sequence + 1\<rparr>
              in (Some (s, sequence, rm), r13)))"

definition reserve_for_copy :: "env \<Rightarrow> tensor_view \<Rightarrow> ring \<Rightarrow> (nat \<times> u64 \<times> u64) option \<times> ring" where
  "reserve_for_copy e v =
     reserve_header e (v_dtype v) (v_ndim v) (v_shape v) (v_strides v) (usize_len (v_data v))
       (v_timestamp_ns v)"

subsection \<open>Waiting\<close>

text \<open>
  What surrounds the attempts of a call that may wait: the process environment of attempt \<open>k\<close>, the
  instant it reads when it has failed, and what the other processes do to the mapping while the
  caller sleeps before attempt \<open>k + 1\<close>. \<open>w_start\<close> is the instant of the call; instants and
  durations are nanoseconds without an upper bound.
\<close>

record waits =
  w_env :: "nat \<Rightarrow> env"
  w_start :: nat
  w_now :: "nat \<Rightarrow> nat"
  w_other :: "nat \<Rightarrow> ring \<Rightarrow> ring"

text \<open>The loop of \<^verbatim>\<open>reserve\<close> and \<^verbatim>\<open>publish\<close>, up to what each does with a reserved slot.\<close>

partial_function (option) reserve_loop ::
  "waits \<Rightarrow> (env \<Rightarrow> ring \<Rightarrow> (nat \<times> u64 \<times> u64) option \<times> ring) \<Rightarrow> backpressure \<Rightarrow> nat \<Rightarrow> nat \<Rightarrow> ring \<Rightarrow>
   ((error + (nat \<times> u64 \<times> u64) option) \<times> ring) option" where
  "reserve_loop W attempt policy deadline k r =
     (case lock_registry (w_env W k) r of
        None \<Rightarrow> None
      | Some r1 \<Rightarrow>
          (case attempt (w_env W k) r1 of
             (Some reserved, r2) \<Rightarrow> Some (Inr (Some reserved), unlock_registry r2)
           | (None, r2) \<Rightarrow>
               if policy = DropNewest
               then Some (Inr None, (unlock_registry r2)\<lparr>g_drop_count := g_drop_count r2 + 1\<rparr>)
               else if w_now W k \<ge> deadline
               then Some (Inl RingFull, unlock_registry r2)
               else reserve_loop W attempt policy deadline (k + 1) (w_other W k (unlock_registry r2))))"

subsection \<open>Direct writing\<close>

record slot_writer =
  sw_slot :: nat
  sw_sequence :: u64
  sw_mask :: u64
  sw_nbytes :: usize
  sw_committed :: bool

definition size_error :: "usize \<Rightarrow> usize \<Rightarrow> error" where
  "size_error nbytes cap =
     Invalid (''tensor requires '' @ dec (unat nbytes) @ '' bytes; slot capacity is '' @ dec (unat cap))"

definition reserve ::
  "waits \<Rightarrow> usize \<Rightarrow> dtype \<Rightarrow> u32 list \<Rightarrow> backpressure \<Rightarrow> nat \<Rightarrow> ring \<Rightarrow>
   ((error + slot_writer option) \<times> ring) option" where
  "reserve W cap dt shape policy timeout r =
     (if length shape > MAX_NDIM then Some (Inl (ndim_error (length shape)), r)
      else
        (let nbytes = tensor_bytes dt shape
         in if nbytes > cap then Some (Inl (size_error nbytes cap), r)
            else
              (case reserve_loop W
                      (\<lambda>e. reserve_header e dt (length shape) (pad_dims shape)
                              (pad_dims (contiguous_strides dt shape)) nbytes None)
                      policy (w_start W + timeout) 0 r of
                 None \<Rightarrow> None
               | Some (Inl err, q) \<Rightarrow> Some (Inl err, q)
               | Some (Inr None, q) \<Rightarrow> Some (Inr None, q)
               | Some (Inr (Some (s, sequence, rm)), q) \<Rightarrow>
                   Some (Inr (Some \<lparr>sw_slot = s, sw_sequence = sequence, sw_mask = rm,
                                    sw_nbytes = nbytes, sw_committed = False\<rparr>), q))))"

definition reserve_without_commit ::
  "env \<Rightarrow> tensor_view \<Rightarrow> ring \<Rightarrow> ((error + nat) \<times> ring) option" where
  "reserve_without_commit e v r =
     (case lock_registry e r of
        None \<Rightarrow> None
      | Some r1 \<Rightarrow>
          (case reserve_for_copy e v r1 of
             (None, r2) \<Rightarrow> Some (Inl RingFull, unlock_registry r2)
           | (Some (s, _, _), r2) \<Rightarrow> Some (Inr s, unlock_registry r2)))"

text \<open>A store of \<open>data\<close> at the start of a payload region.\<close>

definition copy_payload :: "nat \<Rightarrow> u8 list \<Rightarrow> ring \<Rightarrow> ring" where
  "copy_payload s data r =
     r\<lparr>payloads := (payloads r)[s := data @ drop (length data) (payloads r ! s)]\<rparr>"

definition commit_slot :: "nat \<Rightarrow> ring \<Rightarrow> ring" where
  "commit_slot s r =
     (let r1 = upd_slot s (\<lambda>h. h\<lparr>s_state := STATE_COMMITTED\<rparr>) r;
          r2 = r1\<lparr>g_publish_count := g_publish_count r1 + 1\<rparr>
      in signal_publish r2)"

definition publish ::
  "waits \<Rightarrow> usize \<Rightarrow> tensor_view \<Rightarrow> backpressure \<Rightarrow> nat \<Rightarrow> ring \<Rightarrow>
   ((error + publish_result option) \<times> ring) option" where
  "publish W cap v policy timeout r =
     (if usize_len (v_data v) > cap then Some (Inl (size_error (usize_len (v_data v)) cap), r)
      else
        (case reserve_loop W (\<lambda>e. reserve_for_copy e v) policy (w_start W + timeout) 0 r of
           None \<Rightarrow> None
         | Some (Inl err, q) \<Rightarrow> Some (Inl err, q)
         | Some (Inr None, q) \<Rightarrow> Some (Inr None, q)
         | Some (Inr (Some (s, sequence, rm)), q) \<Rightarrow>
             Some (Inr (Some \<lparr>p_sequence = sequence, p_slot_index = s,
                              p_nbytes = usize_len (v_data v), p_readers = of_nat (count_ones rm)\<rparr>),
                   commit_slot s (copy_payload s (v_data v) q))))"

definition writer_payload :: "slot_writer \<Rightarrow> ring \<Rightarrow> u8 list" where
  "writer_payload w r = take (unat (sw_nbytes w)) (payloads r ! sw_slot w)"

definition writer_fill :: "slot_writer \<Rightarrow> u8 list \<Rightarrow> ring \<Rightarrow> ring" where
  "writer_fill w data r = copy_payload (sw_slot w) (take (unat (sw_nbytes w)) data) r"

definition writer_readers :: "slot_writer \<Rightarrow> u32" where
  "writer_readers w = of_nat (count_ones (sw_mask w))"

definition set_timestamp_ns :: "slot_writer \<Rightarrow> u64 \<Rightarrow> ring \<Rightarrow> ring" where
  "set_timestamp_ns w ts r = upd_slot (sw_slot w) (\<lambda>h. h\<lparr>s_timestamp_ns := ts\<rparr>) r"

definition writer_commit :: "slot_writer \<Rightarrow> ring \<Rightarrow> publish_result \<times> slot_writer \<times> ring" where
  "writer_commit w r =
     (\<lparr>p_sequence = sw_sequence w, p_slot_index = sw_slot w, p_nbytes = sw_nbytes w,
       p_readers = writer_readers w\<rparr>, w\<lparr>sw_committed := True\<rparr>, commit_slot (sw_slot w) r)"

definition release_slot :: "env \<Rightarrow> slot_writer \<Rightarrow> ring \<Rightarrow> ring option" where
  "release_slot e w r =
     (case lock_registry e r of
        None \<Rightarrow> None
      | Some r1 \<Rightarrow>
          (let r2 = upd_slot (sw_slot w) (\<lambda>h. h\<lparr>s_readers_mask := 0\<rparr>) r1;
               r3 = upd_slot (sw_slot w) (\<lambda>h. h\<lparr>s_readers_remaining := 0\<rparr>) r2;
               r4 = upd_slot (sw_slot w) (\<lambda>h. h\<lparr>s_state := STATE_FREE\<rparr>) r3;
               r5 = (if g_next_seq r4 = sw_sequence w + 1
                     then r4\<lparr>g_next_seq := sw_sequence w\<rparr> else r4)
           in Some (signal_reclaim (unlock_registry r5))))"

definition writer_abort :: "env \<Rightarrow> slot_writer \<Rightarrow> ring \<Rightarrow> (slot_writer \<times> ring) option" where
  "writer_abort e w r = map_option (Pair (w\<lparr>sw_committed := True\<rparr>)) (release_slot e w r)"

definition writer_drop :: "env \<Rightarrow> slot_writer \<Rightarrow> ring \<Rightarrow> ring option" where
  "writer_drop e w r = (if sw_committed w then Some r else release_slot e w r)"


subsection \<open>The oldest candidate\<close>

text \<open>
  How far a sequence lies behind a reference point. Below \<open>2^63\<close>, \<^verbatim>\<open>seq_newer\<close> compares distances.
\<close>

definition age :: "u64 \<Rightarrow> u64 \<Rightarrow> nat" where
  "age base q = unat (base - q)"

lemma seq_newer_age:
  assumes "age base a < 2 ^ 63" "age base b < 2 ^ 63"
  shows "seq_newer a b \<longleftrightarrow> age base a < age base b"
proof -
  have "a - b = (base - b) - (base - a)" by simp
  then have "unat (a - b) = (if age base a \<le> age base b then age base b - age base a
      else age base b + 2 ^ 64 - age base a)"
    by (simp only: unat_sub_if' age_def) simp
  with assms show ?thesis by (auto simp: seq_newer_unat)
qed

lemma age_inject: "age base a = age base b \<longleftrightarrow> a = b"
  by (simp add: age_def flip: word_unat_eq_iff)

definition oldest_in :: "(slot_header \<Rightarrow> bool) \<Rightarrow> slot_header list \<Rightarrow> nat \<Rightarrow> (u64 \<times> nat) option" where
  "oldest_in cand hs n =
     fold (\<lambda>i best. if cand (hs ! i) then keep_oldest (s_sequence (hs ! i), i) best else best) [0..<n] None"

text \<open>
  Both scans of the ring look for the oldest slot of a kind, and rely on the sequences of that kind
  to lie within \<open>2^63\<close> behind some reference point.
\<close>

locale windowed =
  fixes cand :: "slot_header \<Rightarrow> bool" and base :: u64 and hs :: "slot_header list"
  assumes in_window: "i < length hs \<Longrightarrow> cand (hs ! i) \<Longrightarrow> age base (s_sequence (hs ! i)) < 2 ^ 63"
begin

abbreviation behind :: "nat \<Rightarrow> nat" where
  "behind i \<equiv> age base (s_sequence (hs ! i))"

definition oldest_below :: "nat \<Rightarrow> u64 \<times> nat \<Rightarrow> bool" where
  "oldest_below n c \<longleftrightarrow>
     snd c < n \<and> cand (hs ! snd c) \<and> fst c = s_sequence (hs ! snd c) \<and>
     (\<forall>j<n. cand (hs ! j) \<longrightarrow> behind j \<le> behind (snd c)) \<and>
     (\<forall>j. j < snd c \<longrightarrow> cand (hs ! j) \<longrightarrow> behind j < behind (snd c))"

lemma scan_below:
  assumes "n \<le> length hs"
  shows "(oldest_in cand hs n = None \<longrightarrow> (\<forall>i<n. \<not> cand (hs ! i))) \<and>
    (\<forall>c. oldest_in cand hs n = Some c \<longrightarrow> oldest_below n c)"
  using assms
proof (induction n)
  case 0
  show ?case by (simp add: oldest_in_def)
next
  case (Suc n)
  have step: "oldest_in cand hs (Suc n) =
      (if cand (hs ! n) then keep_oldest (s_sequence (hs ! n), n) (oldest_in cand hs n)
       else oldest_in cand hs n)"
    by (simp add: oldest_in_def)
  show ?case
  proof (cases "oldest_in cand hs n")
    case None
    with Suc step show ?thesis
      by (auto simp: keep_oldest_def oldest_below_def less_Suc_eq)
  next
    case (Some c)
    with Suc have c: "oldest_below n c" by simp
    show ?thesis
    proof (cases "cand (hs ! n)")
      case True
      have newer: "seq_newer (fst c) (s_sequence (hs ! n)) \<longleftrightarrow> behind (snd c) < behind n"
        using c Suc.prems True
        by (simp add: oldest_below_def) (intro seq_newer_age in_window, simp_all)
      show ?thesis
        using step Some c True newer
        by (cases c) (auto simp: keep_oldest_def oldest_below_def less_Suc_eq)
    next
      case False
      with step Some c show ?thesis by (auto simp: oldest_below_def less_Suc_eq)
    qed
  qed
qed

lemma scan_None: "oldest_in cand hs (length hs) = None \<longleftrightarrow> (\<forall>h\<in>set hs. \<not> cand h)"
  unfolding all_set_conv_all_nth using scan_below [of "length hs"]
  by (cases "oldest_in cand hs (length hs)") (auto simp: oldest_below_def)

lemma scan_Some: "oldest_in cand hs (length hs) = Some c \<Longrightarrow> oldest_below (length hs) c"
  using scan_below [of "length hs"] by simp

end

text \<open>
  Sequences of the slots in use: behind the counter by less than \<open>2^63\<close>, and all different.
\<close>

definition in_use :: "slot_header \<Rightarrow> bool" where
  "in_use h \<longleftrightarrow> s_state h \<noteq> STATE_FREE"

definition seqs_within :: "nat \<Rightarrow> ring \<Rightarrow> bool" where
  "seqs_within d r \<longleftrightarrow>
     (\<forall>h\<in>set (slots r). in_use h \<longrightarrow>
        0 < age (g_next_seq r) (s_sequence h) \<and> age (g_next_seq r) (s_sequence h) \<le> d) \<and>
     (\<forall>i<length (slots r). \<forall>j<length (slots r). in_use (slots r ! i) \<and> in_use (slots r ! j) \<and>
        s_sequence (slots r ! i) = s_sequence (slots r ! j) \<longrightarrow> i = j)"

definition seqs_ok :: "ring \<Rightarrow> bool" where
  "seqs_ok r \<longleftrightarrow> seqs_within (2 ^ 63 - 1) r"

lemma seqs_within_mono: "seqs_within d r \<Longrightarrow> d \<le> d' \<Longrightarrow> seqs_within d' r"
  by (force simp: seqs_within_def)

definition unread :: "slot_header \<Rightarrow> bool" where
  "unread h \<longleftrightarrow> s_state h = STATE_COMMITTED \<and> s_readers_mask h = 0"

lemma find_snoc:
  "find P (xs @ [x]) = (case find P xs of None \<Rightarrow> if P x then Some x else None | Some y \<Rightarrow> Some y)"
  by (induction xs) simp_all

lemma pick_fold:
  "fold (pick_step r) [0..<n] (None, None) =
     (find (\<lambda>i. s_state (slots r ! i) = STATE_FREE) [0..<n], oldest_in unread (slots r) n)"
proof (induction n)
  case 0
  show ?case by (simp add: oldest_in_def)
next
  case (Suc n)
  show ?case
    using Suc by (auto simp: find_snoc pick_step_def oldest_in_def unread_def split: option.splits)
qed

lemma pick_slot_eq:
  "pick_slot r =
     (case find (\<lambda>i. s_state (slots r ! i) = STATE_FREE) [0..<length (slots r)] of
        Some i \<Rightarrow> Some i | None \<Rightarrow> map_option snd (oldest_in unread (slots r) (length (slots r))))"
  by (simp add: pick_slot_def pick_fold split: option.split)


definition windowed_slots :: "ring \<Rightarrow> slot_header list" where
  "windowed_slots r = (if seqs_ok r then slots r else [])"

lemma windowed_slots_eq [simp]: "seqs_ok r \<Longrightarrow> windowed_slots r = slots r"
  by (simp add: windowed_slots_def)

lemma seqs_ok_window:
  "seqs_ok r \<Longrightarrow> i < length (slots r) \<Longrightarrow> in_use (slots r ! i) \<Longrightarrow>
   0 < age (g_next_seq r) (s_sequence (slots r ! i)) \<and> age (g_next_seq r) (s_sequence (slots r ! i)) < 2 ^ 63"
  by (fastforce simp: seqs_ok_def seqs_within_def)

lemma seqs_ok_inj:
  "seqs_ok r \<Longrightarrow> i < length (slots r) \<Longrightarrow> j < length (slots r) \<Longrightarrow> in_use (slots r ! i) \<Longrightarrow>
   in_use (slots r ! j) \<Longrightarrow> s_sequence (slots r ! i) = s_sequence (slots r ! j) \<Longrightarrow> i = j"
  by (simp add: seqs_ok_def seqs_within_def)

interpretation producer_scan: windowed unread "g_next_seq r" "windowed_slots r" for r
  by unfold_locales
    (auto simp: windowed_slots_def unread_def in_use_def dest!: seqs_ok_window split: if_splits)

definition reclaimable :: "slot_header \<Rightarrow> bool" where
  "reclaimable h \<longleftrightarrow> s_state h = STATE_FREE \<or> unread h"

lemma pick_slot_None:
  assumes "seqs_ok r"
  shows "pick_slot r = None \<longleftrightarrow> (\<forall>h\<in>set (slots r). \<not> reclaimable h)"
proof -
  have "find (\<lambda>i. s_state (slots r ! i) = STATE_FREE) [0..<length (slots r)] = None \<longleftrightarrow>
      (\<forall>h\<in>set (slots r). s_state h \<noteq> STATE_FREE)"
    by (auto simp: find_None_iff all_set_conv_all_nth)
  then show ?thesis
    using producer_scan.scan_None [of r] assms
    by (auto simp: pick_slot_eq reclaimable_def split: option.split)
qed

text \<open>A free slot before any other, the first of them; otherwise the oldest fully read slot.\<close>

lemma pick_slot_Some:
  assumes "seqs_ok r" and pick: "pick_slot r = Some s"
  shows "s < length (slots r) \<and>
    (if \<exists>h\<in>set (slots r). s_state h = STATE_FREE
     then s_state (slots r ! s) = STATE_FREE \<and> (\<forall>j. j < s \<longrightarrow> s_state (slots r ! j) \<noteq> STATE_FREE)
     else unread (slots r ! s) \<and>
       (\<forall>j<length (slots r). unread (slots r ! j) \<longrightarrow>
          age (g_next_seq r) (s_sequence (slots r ! j)) \<le> age (g_next_seq r) (s_sequence (slots r ! s))))"
proof (cases "find (\<lambda>i. s_state (slots r ! i) = STATE_FREE) [0..<length (slots r)]")
  case None
  then have "\<forall>h\<in>set (slots r). s_state h \<noteq> STATE_FREE"
    by (auto simp: find_None_iff all_set_conv_all_nth)
  moreover obtain c where "oldest_in unread (slots r) (length (slots r)) = Some c" "s = snd c"
    using pick None by (auto simp: pick_slot_eq)
  ultimately show ?thesis
    using producer_scan.scan_Some [of r c, unfolded producer_scan.oldest_below_def] assms(1)
    by auto
next
  case (Some i)
  then have "s = i" using pick by (simp add: pick_slot_eq)
  with Some have "s < length (slots r)" "s_state (slots r ! s) = STATE_FREE"
    "\<forall>j. j < s \<longrightarrow> s_state (slots r ! j) \<noteq> STATE_FREE"
    by (auto simp: find_Some_iff)
  moreover from this have "\<exists>h\<in>set (slots r). s_state h = STATE_FREE" by auto
  ultimately show ?thesis by simp
qed

lemma pick_slot_reclaimable:
  assumes "pick_slot r = Some s"
  shows "s < length (slots r) \<and> reclaimable (slots r ! s)"
proof (cases "find (\<lambda>i. s_state (slots r ! i) = STATE_FREE) [0..<length (slots r)]")
  case None
  have "oldest_in unread (slots r) n = Some c \<Longrightarrow> snd c < n \<and> unread (slots r ! snd c)" for n c
  proof (induction n arbitrary: c)
    case 0
    then show ?case by (simp add: oldest_in_def)
  next
    case (Suc n)
    then show ?case
      by (auto simp: oldest_in_def keep_oldest_def less_Suc_eq split: if_splits option.splits)
  qed
  with None assms show ?thesis by (auto simp: pick_slot_eq reclaimable_def)
next
  case (Some i)
  with assms show ?thesis by (auto simp: pick_slot_eq find_Some_iff reclaimable_def)
qed

subsection \<open>Writing the header\<close>

lemma upd_slot_upd_slot:
  "s < length (slots r) \<Longrightarrow> upd_slot s f (upd_slot s g r) = upd_slot s (\<lambda>h. f (g h)) r"
  by (simp add: upd_slot_def)

lemma upd_slot_sel [simp]:
  "registry (upd_slot s f r) = registry r" "payloads (upd_slot s f r) = payloads r"
  "length (slots (upd_slot s f r)) = length (slots r)" "g_next_seq (upd_slot s f r) = g_next_seq r"
  "g_consumers (upd_slot s f r) = g_consumers r" "g_lock (upd_slot s f r) = g_lock r"
  "slots (upd_slot s f r) = (slots r)[s := f (slots r ! s)]"
  by (simp_all add: upd_slot_def)

lemma upd_slot_id: "upd_slot s (\<lambda>h. h) r = r"
  by (simp add: upd_slot_def)

lemma store_dims_below:
  assumes "s < length (slots r)" "length (s_shape (slots r ! s)) = 8" "length (s_strides (slots r ! s)) = 8"
    and "length shape = 8" "length strides = 8" "n \<le> 8"
  shows "fold (\<lambda>d r. upd_slot s (\<lambda>h. h\<lparr>s_strides := (s_strides h)[d := strides ! d]\<rparr>)
                   (upd_slot s (\<lambda>h. h\<lparr>s_shape := (s_shape h)[d := shape ! d]\<rparr>) r)) [0..<n] r =
    upd_slot s (\<lambda>h. h\<lparr>s_shape := take n shape @ drop n (s_shape h),
                      s_strides := take n strides @ drop n (s_strides h)\<rparr>) r"
  using assms(6)
proof (induction n)
  case 0
  show ?case by (simp add: upd_slot_id)
next
  case (Suc n)
  have upd: "(take n xs @ drop n ys)[n := xs ! n] = take (Suc n) xs @ drop (Suc n) ys"
    if "length xs = 8" "length ys = 8" for xs ys :: "u32 list"
    using that Suc.prems
    by (simp add: list_update_append take_Suc_conv_app_nth Cons_nth_drop_Suc [symmetric])
  show ?case
    using Suc assms upd
    by (simp add: upd_slot_upd_slot) (simp add: upd_slot_def)
qed

lemma store_dims_eq:
  assumes "s < length (slots r)" "length (s_shape (slots r ! s)) = MAX_NDIM"
    "length (s_strides (slots r ! s)) = MAX_NDIM" "length shape = MAX_NDIM" "length strides = MAX_NDIM"
  shows "store_dims s shape strides r = upd_slot s (\<lambda>h. h\<lparr>s_shape := shape, s_strides := strides\<rparr>) r"
  using store_dims_below [of s r shape strides 8] assms
  by (simp add: store_dims_def MAX_NDIM_def) (simp add: upd_slot_def)


text \<open>The header a reservation leaves in its slot.\<close>

definition reserved_header ::
  "env \<Rightarrow> ring \<Rightarrow> dtype \<Rightarrow> nat \<Rightarrow> u32 list \<Rightarrow> u32 list \<Rightarrow> usize \<Rightarrow> u64 option \<Rightarrow> slot_header \<Rightarrow> slot_header" where
  "reserved_header e r dt ndim shape strides nbytes ts h =
     \<lparr>s_magic = s_magic h, s_state = STATE_WRITING, s_sequence = g_next_seq r,
      s_timestamp_ns = (case ts of Some t \<Rightarrow> t | None \<Rightarrow> now_ns e), s_nbytes = nbytes,
      s_dtype = dtype_code dt, s_ndim = of_nat ndim,
      s_readers_remaining = of_nat (count_ones (active_mask r)), s_flags = 0, s_shape = shape,
      s_strides = strides, s_producer_pid = e_pid e, s_pad0 = s_pad0 h,
      s_readers_mask = active_mask r, s_producer_start_token = pid_start_token e (e_pid e),
      s_reserved = s_reserved h\<rparr>"

lemma reserve_header_None:
  "pick_slot (reap_dead e r) = None \<Longrightarrow>
   reserve_header e dt ndim shape strides nbytes ts r = (None, reap_dead e r)"
  by (simp add: reserve_header_def Let_def)

lemma reserve_header_Some:
  assumes pick: "pick_slot (reap_dead e r) = Some s"
    and wf: "wf_ring cap (reap_dead e r)" and dims: "length shape = MAX_NDIM" "length strides = MAX_NDIM"
  shows "reserve_header e dt ndim shape strides nbytes ts r =
    (Some (s, g_next_seq (reap_dead e r), active_mask (reap_dead e r)),
     (upd_slot s (reserved_header e (reap_dead e r) dt ndim shape strides nbytes ts) (reap_dead e r))
       \<lparr>g_next_seq := g_next_seq (reap_dead e r) + 1\<rparr>)"
proof -
  define q where "q = reap_dead e r"
  have s: "s < length (slots q)"
    using pick_slot_reclaimable [OF pick] by (simp add: q_def)
  have lens: "length (s_shape (slots q ! s)) = MAX_NDIM" "length (s_strides (slots q ! s)) = MAX_NDIM"
    using wf_ringD(6) [OF wf, folded q_def, OF s] by (simp_all add: slot_ok_def)
  have hdr: "h\<lparr>s_state := STATE_WRITING, s_producer_pid := e_pid e,
        s_producer_start_token := pid_start_token e (e_pid e), s_sequence := g_next_seq q,
        s_timestamp_ns := (case ts of Some t \<Rightarrow> t | None \<Rightarrow> now_ns e), s_nbytes := nbytes,
        s_dtype := dtype_code dt, s_ndim := of_nat ndim, s_flags := 0, s_shape := shape,
        s_strides := strides, s_readers_mask := active_mask q,
        s_readers_remaining := of_nat (count_ones (active_mask q))\<rparr> =
      reserved_header e q dt ndim shape strides nbytes ts h" for h
    by (cases h) (simp add: reserved_header_def)
  show ?thesis
    unfolding reserve_header_def Let_def q_def [symmetric] pick [folded q_def] option.case
    using s lens dims
    by (simp add: store_dims_eq upd_slot_upd_slot hdr)
qed

lemma upd_slot_beyond: "\<not> s < length (slots r) \<Longrightarrow> upd_slot s f r = r"
  by (simp add: upd_slot_def list_update_beyond not_less)

lemma active_mask_upd_slot [simp]: "active_mask (upd_slot s f r) = active_mask r"
  by (rule active_mask_cong) simp

lemma wf_upd_slot:
  assumes wf: "wf_ring cap r" and ok: "s < length (slots r) \<Longrightarrow> slot_ok (active_mask r) cap (f (slots r ! s))"
  shows "wf_ring cap (upd_slot s f r)"
proof (cases "s < length (slots r)")
  case True
  have "\<forall>h\<in>set (slots r). slot_ok (active_mask r) cap h" using wf by (simp add: wf_ring_def)
  then have "\<forall>h\<in>set ((slots r)[s := f (slots r ! s)]). slot_ok (active_mask r) cap h"
    using ok [OF True] by (rule ball_set_update)
  then show ?thesis using wf by (simp add: wf_ring_def)
next
  case False
  with wf show ?thesis by (simp add: upd_slot_beyond [OF False])
qed

lemma wf_g_next_seq [simp]: "wf_ring cap (r\<lparr>g_next_seq := n\<rparr>) = wf_ring cap r"
  by (rule wf_ring_cong) simp_all

lemma wf_reserve_header:
  assumes wf: "wf_ring cap r" and op: "reserve_header e dt ndim shape strides nbytes ts r = (res, q)"
    and dims: "length shape = MAX_NDIM" "length strides = MAX_NDIM" "ndim \<le> MAX_NDIM" "nbytes \<le> cap"
  shows "wf_ring cap q"
proof -
  have wf1: "wf_ring cap (reap_dead e r)" using wf by (rule wf_reap_dead)
  show ?thesis
  proof (cases "pick_slot (reap_dead e r)")
    case None
    with op wf1 show ?thesis by (simp add: reserve_header_None)
  next
    case (Some s)
    let ?q = "reap_dead e r"
    let ?h = "reserved_header e ?q dt ndim shape strides nbytes ts (slots ?q ! s)"
    have q: "q = (upd_slot s (reserved_header e ?q dt ndim shape strides nbytes ts) ?q)
        \<lparr>g_next_seq := g_next_seq ?q + 1\<rparr>"
      using reserve_header_Some [OF Some wf1 dims(1,2)] op by simp
    have s: "s < length (slots ?q)" using pick_slot_reclaimable [OF Some] by simp
    have "unat (of_nat ndim :: u8) = ndim"
      using dims(3) by (simp add: MAX_NDIM_def unat_of_nat)
    moreover have "s_magic (slots ?q ! s) = SLOT_MAGIC"
      using wf_ringD(6) [OF wf1 s] by (simp add: slot_ok_def)
    ultimately have "validate_header ?h cap = Inr ()"
      using dims(3,4) by (simp add: validate_header_def reserved_header_def code_table.decode_enc)
    then have "slot_ok (active_mask ?q) cap ?h"
      using dims wf_ringD(6) [OF wf1 s] by (simp add: slot_ok_def reserved_header_def)
    then show ?thesis
      unfolding q wf_g_next_seq by (intro wf_upd_slot [OF wf1])
  qed
qed

lemma wf_copy_payload:
  assumes "wf_ring cap r"
  shows "wf_ring cap (copy_payload s data r)"
proof -
  have am: "active_mask (copy_payload s data r) = active_mask r"
    by (rule active_mask_cong) (simp add: copy_payload_def)
  have all: "\<forall>p\<in>set (payloads r). unat cap \<le> length p"
    using assms by (simp add: wf_ring_def)
  have "\<forall>p\<in>set (payloads (copy_payload s data r)). unat cap \<le> length p"
  proof (cases "s < length (payloads r)")
    case True
    with all have "unat cap \<le> length (payloads r ! s)" by simp
    with all have "\<forall>p\<in>set ((payloads r)[s := data @ drop (length data) (payloads r ! s)]). unat cap \<le> length p"
      by (intro ball_set_update) simp_all
    then show ?thesis by (simp add: copy_payload_def)
  next
    case False
    with all show ?thesis by (simp add: copy_payload_def list_update_beyond)
  qed
  then show ?thesis
    using assms unfolding wf_ring_def am by (simp add: copy_payload_def)
qed

lemma validate_header_state [simp]: "validate_header (h\<lparr>s_state := x\<rparr>) cap = validate_header h cap"
  by (simp add: validate_header_def)

lemma wf_commit_slot:
  assumes "wf_ring cap r" and "s < length (slots r)" "s_state (slots r ! s) \<noteq> STATE_FREE"
  shows "wf_ring cap (commit_slot s r)"
proof -
  have "wf_ring cap (upd_slot s (\<lambda>h. h\<lparr>s_state := STATE_COMMITTED\<rparr>) r)"
    using assms(3) wf_ringD(6) [OF assms(1,2)]
    by (intro wf_upd_slot [OF assms(1)]) (simp add: slot_ok_def)
  moreover have "wf_ring cap (r\<lparr>g_publish_count := n\<rparr>) = wf_ring cap r" for n r
    by (rule wf_ring_cong) simp_all
  ultimately show ?thesis by (simp add: commit_slot_def Let_def)
qed

lemma wf_g_drop_count [simp]: "wf_ring cap (r\<lparr>g_drop_count := n\<rparr>) = wf_ring cap r"
  by (rule wf_ring_cong) simp_all

lemma wf_release_slot:
  assumes "wf_ring cap r" and "release_slot e w r = Some q"
  shows "wf_ring cap q"
proof -
  obtain r1 where r1: "lock_registry e r = Some r1"
    using assms(2) by (auto simp: release_slot_def split: option.splits)
  then have wf1: "wf_ring cap r1" using assms(1) by (simp add: wf_lock)
  let ?r = "upd_slot (sw_slot w) (\<lambda>h. h\<lparr>s_readers_mask := 0, s_readers_remaining := 0, s_state := STATE_FREE\<rparr>) r1"
  have "wf_ring cap ?r"
    using wf_ringD(6) [OF wf1] by (intro wf_upd_slot [OF wf1]) (simp add: slot_ok_def)
  moreover have "upd_slot (sw_slot w) (\<lambda>h. h\<lparr>s_state := STATE_FREE\<rparr>)
      (upd_slot (sw_slot w) (\<lambda>h. h\<lparr>s_readers_remaining := 0\<rparr>)
        (upd_slot (sw_slot w) (\<lambda>h. h\<lparr>s_readers_mask := 0\<rparr>) r1)) = ?r"
    by (cases "sw_slot w < length (slots r1)")
      (simp_all add: upd_slot_upd_slot upd_slot_beyond del: upd_slot_sel(7))
  ultimately show ?thesis
    using assms(2) r1 by (auto simp: release_slot_def Let_def split: if_splits)
qed

subsection \<open>Sequences across the operations\<close>

lemma swept_sel [simp]:
  "g_next_seq (swept e r) = g_next_seq r" "g_lock (swept e r) = g_lock r"
  "payloads (swept e r) = payloads r" "length (slots (swept e r)) = length (slots r)"
  "g_publish_count (swept e r) = g_publish_count r" "g_drop_count (swept e r) = g_drop_count r"
  "g_publish_futex (swept e r) = g_publish_futex r" "g_producer_pid (swept e r) = g_producer_pid r"
  "s < length (slots r) \<Longrightarrow> slots (swept e r) ! s = swept_slot e r (slots r ! s)"
  by (simp_all add: swept_def)

lemma swept_slot_sel [simp]:
  "s_sequence (swept_slot e r h) = s_sequence h" "s_nbytes (swept_slot e r h) = s_nbytes h"
  "s_state (swept_slot e r h) = (if abandoned_slot e h then STATE_FREE else s_state h)"
  by (simp_all add: swept_slot_def recover_slot_def abandoned_clear_readers)

text \<open>What slots in use keep of their sequence when each slot is rewritten without changing it.\<close>

lemma seqs_within_slots:
  assumes "seqs_within d r" and "g_next_seq q = g_next_seq r" "length (slots q) = length (slots r)"
    and "\<And>s. s < length (slots r) \<Longrightarrow> in_use (slots q ! s) \<Longrightarrow>
      in_use (slots r ! s) \<and> s_sequence (slots q ! s) = s_sequence (slots r ! s)"
  shows "seqs_within d q"
  using assms unfolding seqs_within_def all_set_conv_all_nth by metis

lemma seqs_within_swept: "seqs_within d r \<Longrightarrow> seqs_within d (swept e r)"
  by (erule seqs_within_slots) (simp_all add: in_use_def split: if_splits)

lemma seqs_within_cong:
  "seqs_within d r \<Longrightarrow> g_next_seq q = g_next_seq r \<Longrightarrow> slots q = slots r \<Longrightarrow> seqs_within d q"
  by (simp add: seqs_within_def)

lemma age_Suc:
  assumes "age base q < 2 ^ 64 - 1"
  shows "age (base + 1) q = Suc (age base q)"
proof -
  have "base + 1 - q = (base - q) + 1" by simp
  then show ?thesis using assms by (simp only: age_def unat_plus_if') simp
qed

lemma age_self: "age (base + 1) base = 1"
  by (simp add: age_def)

lemma seqs_within_reserved:
  assumes ok: "seqs_within d r" and d: "d < 2 ^ 63" and s: "s < length (slots r)"
    and h: "s_sequence h = g_next_seq r"
    and q: "g_next_seq q = g_next_seq r + 1" "slots q = (slots r)[s := h]"
  shows "seqs_within (Suc d) q"
proof -
  have old: "0 < age (g_next_seq r) (s_sequence (slots r ! i)) \<and> age (g_next_seq r) (s_sequence (slots r ! i)) \<le> d"
    if "i < length (slots r)" "in_use (slots r ! i)" for i
    using ok that by (simp add: seqs_within_def)
  have new: "age (g_next_seq q) (s_sequence (slots r ! i)) = Suc (age (g_next_seq r) (s_sequence (slots r ! i)))"
    if "i < length (slots r)" "in_use (slots r ! i)" for i
    unfolding q(1) by (rule age_Suc) (use old [OF that] d in simp)
  have ne: "s_sequence (slots r ! i) \<noteq> g_next_seq r" if "i < length (slots r)" "in_use (slots r ! i)" for i
    using old [OF that] by (auto simp: age_def)
  have "i = j" if "i < length (slots r)" "j < length (slots r)" "in_use (slots r ! i)" "in_use (slots r ! j)"
      "s_sequence (slots r ! i) = s_sequence (slots r ! j)" for i j
    using ok that by (simp add: seqs_within_def)
  moreover have "0 < age (g_next_seq q) (s_sequence (slots q ! i)) \<and> age (g_next_seq q) (s_sequence (slots q ! i)) \<le> Suc d"
    if "i < length (slots q)" "in_use (slots q ! i)" for i
    using that old [of i] new [of i] age_self [of "g_next_seq r"] h s
    by (cases "i = s") (simp_all add: q)
  ultimately show ?thesis
    using s h ne unfolding seqs_within_def all_set_conv_all_nth
    by (simp add: q nth_list_update) metis
qed

lemma seqs_within_release:
  assumes ok: "seqs_within d r" and s: "s < length (slots r)" "in_use (slots r ! s)"
    and last: "g_next_seq r = s_sequence (slots r ! s) + 1"
    and h: "\<not> in_use h"
    and q: "g_next_seq q = s_sequence (slots r ! s)" "slots q = (slots r)[s := h]" and d: "d < 2 ^ 64 - 1"
  shows "seqs_within d q"
proof -
  have up: "age (g_next_seq r) a = Suc (age (g_next_seq q) a)" if "a \<noteq> s_sequence (slots r ! s)"
    "age (g_next_seq r) a \<noteq> 0" for a
  proof -
    have "g_next_seq r - a \<noteq> 0" using that by (simp add: age_def unat_eq_0)
    then have "unat (g_next_seq r - a - 1) = unat (g_next_seq r - a) - 1"
      by (rule unat_minus_one)
    moreover have "g_next_seq r - a - 1 = g_next_seq q - a" by (simp add: q(1) last)
    ultimately show ?thesis using that by (simp add: age_def)
  qed
  have "0 < age (g_next_seq q) (s_sequence (slots q ! i)) \<and> age (g_next_seq q) (s_sequence (slots q ! i)) \<le> d"
    if i: "i < length (slots q)" "in_use (slots q ! i)" for i
  proof -
    have "i \<noteq> s" using i s h by (auto simp: q)
    then have use: "i < length (slots r)" "in_use (slots r ! i)" "slots q ! i = slots r ! i"
      using i by (simp_all add: q)
    have ne: "s_sequence (slots r ! i) \<noteq> s_sequence (slots r ! s)"
      using ok use s \<open>i \<noteq> s\<close> by (auto simp: seqs_within_def)
    have old: "0 < age (g_next_seq r) (s_sequence (slots r ! i)) \<and> age (g_next_seq r) (s_sequence (slots r ! i)) \<le> d"
      using ok use by (simp add: seqs_within_def)
    have "age (g_next_seq q) (s_sequence (slots r ! i)) \<noteq> 0"
      using ne by (simp add: age_def q(1) unat_eq_0)
    with up [OF ne] old use(3) show ?thesis by simp
  qed
  moreover have "\<forall>i<length (slots q). \<forall>j<length (slots q). in_use (slots q ! i) \<and> in_use (slots q ! j) \<and>
        s_sequence (slots q ! i) = s_sequence (slots q ! j) \<longrightarrow> i = j"
    using ok h s unfolding seqs_within_def by (auto simp: q nth_list_update split: if_splits)
  ultimately show ?thesis unfolding seqs_within_def all_set_conv_all_nth by blast
qed


subsection \<open>An attempt under the lock\<close>

definition free_lock :: lock_words where
  "free_lock = \<lparr>lk_word = UNLOCKED, lk_owner = 0, lk_token = 0\<rparr>"

lemma unlock_registry_eq: "unlock_registry r = r\<lparr>g_lock := free_lock\<rparr>"
  by (simp add: unlock_registry_def futex_unlock_def free_lock_def)

lemma lock_free_free_lock [simp]: "lock_free (r\<lparr>g_lock := free_lock\<rparr>)"
  by (simp add: lock_free_def free_lock_def)

lemma active_mask_g_lock [simp]: "active_mask (r\<lparr>g_lock := l\<rparr>) = active_mask r"
  by (rule active_mask_cong) simp

lemma swept_g_lock [simp]: "swept e (r\<lparr>g_lock := l\<rparr>) = (swept e r)\<lparr>g_lock := l\<rparr>"
proof -
  have "dead_consumers e (r\<lparr>g_lock := l\<rparr>) = dead_consumers e r"
    by (simp add: dead_consumers_def dead_below_def)
  moreover from this have "swept_slot e (r\<lparr>g_lock := l\<rparr>) = swept_slot e r"
    by (intro ext) (simp add: swept_slot_def)
  moreover from calculation have "sweep_frees e (r\<lparr>g_lock := l\<rparr>) = sweep_frees e r"
    by (simp add: sweep_frees_def)
  ultimately show ?thesis unfolding swept_def by (intro ring.equality) simp_all
qed

lemma pick_slot_cong: "slots q = slots r \<Longrightarrow> pick_slot q = pick_slot r"
  by (simp only: pick_slot_eq)

lemma pick_slot_g_lock [simp]: "pick_slot (r\<lparr>g_lock := l\<rparr>) = pick_slot r"
  by (rule pick_slot_cong) simp

lemma reserved_header_cong:
  "g_next_seq r = g_next_seq q \<Longrightarrow> active_mask r = active_mask q \<Longrightarrow>
   reserved_header e r dt ndim shape strides nbytes ts h = reserved_header e q dt ndim shape strides nbytes ts h"
  by (simp add: reserved_header_def)

text \<open>The ring after a successful attempt on slot \<open>s\<close>, and after a failed one.\<close>

definition reserved_ring ::
  "env \<Rightarrow> dtype \<Rightarrow> nat \<Rightarrow> u32 list \<Rightarrow> u32 list \<Rightarrow> usize \<Rightarrow> u64 option \<Rightarrow> nat \<Rightarrow> ring \<Rightarrow> ring" where
  "reserved_ring e dt ndim shape strides nbytes ts s r =
     (upd_slot s (reserved_header e (swept e r) dt ndim shape strides nbytes ts) (swept e r))
       \<lparr>g_next_seq := g_next_seq r + 1, g_lock := free_lock\<rparr>"

definition failed_ring :: "env \<Rightarrow> ring \<Rightarrow> ring" where
  "failed_ring e r = (swept e r)\<lparr>g_lock := free_lock\<rparr>"

lemma reserve_attempt:
  fixes e dt ndim shape strides nbytes ts
  defines "attempt \<equiv> \<lambda>e. reserve_header e dt ndim shape strides nbytes ts"
  assumes wf: "wf_ring cap r" and free: "lock_free r"
    and dims: "length shape = MAX_NDIM" "length strides = MAX_NDIM"
  shows "\<exists>r1 r2. lock_registry e r = Some r1 \<and>
    attempt e r1 = (map_option (\<lambda>s. (s, g_next_seq r, active_mask (swept e r))) (pick_slot (swept e r)), r2) \<and>
    unlock_registry r2 = (case pick_slot (swept e r) of
       None \<Rightarrow> failed_ring e r
     | Some s \<Rightarrow> reserved_ring e dt ndim shape strides nbytes ts s r) \<and> g_drop_count r2 = g_drop_count r"
proof -
  define l where "l = take_lock LOCKED (e_pid e) (pid_start_token e (e_pid e))"
  have r1: "lock_registry e r = Some (r\<lparr>g_lock := l\<rparr>)"
    by (simp add: lock_registry_free [OF free] l_def)
  have reap: "reap_dead e (r\<lparr>g_lock := l\<rparr>) = (swept e r)\<lparr>g_lock := l\<rparr>"
    using wf_ringD(1) [OF wf] by (simp add: reap_dead_eq)
  have wf': "wf_ring cap (reap_dead e (r\<lparr>g_lock := l\<rparr>))"
    using wf by (intro wf_reap_dead) simp
  show ?thesis
  proof (cases "pick_slot (swept e r)")
    case None
    then show ?thesis
      by (simp add: attempt_def r1 reserve_header_None reap unlock_registry_eq failed_ring_def)
  next
    case (Some s)
    then have pick: "pick_slot (reap_dead e (r\<lparr>g_lock := l\<rparr>)) = Some s"
      by (simp add: reap)
    have hdr: "reserved_header e ((swept e r)\<lparr>g_lock := l\<rparr>) dt ndim shape strides nbytes ts =
        reserved_header e (swept e r) dt ndim shape strides nbytes ts"
      by (intro ext reserved_header_cong) simp_all
    have "unlock_registry (upd_slot s (reserved_header e (swept e r) dt ndim shape strides nbytes ts)
        ((swept e r)\<lparr>g_lock := l\<rparr>)\<lparr>g_next_seq := g_next_seq r + 1\<rparr>) =
        reserved_ring e dt ndim shape strides nbytes ts s r"
      unfolding unlock_registry_eq reserved_ring_def upd_slot_def by (intro ring.equality) simp_all
    then show ?thesis
      using reserve_header_Some [OF pick wf' dims, of dt ndim nbytes ts] Some
      by (simp add: attempt_def r1 reap hdr upd_slot_def)
  qed
qed

text \<open>A loop invariant \<open>I\<close> of the attempts, with what holds after a reservation and after giving up.\<close>

lemma reserve_loop_rule:
  assumes run: "reserve_loop W attempt policy deadline k r = Some (res, q)" and init: "I r"
    and step: "\<And>k r. I r \<Longrightarrow> \<exists>r1 r2 x. lock_registry (w_env W k) r = Some r1 \<and> attempt (w_env W k) r1 = (x, r2) \<and>
      (case x of Some y \<Rightarrow> J y (unlock_registry r2)
       | None \<Rightarrow> K (unlock_registry r2) \<and> K ((unlock_registry r2)\<lparr>g_drop_count := g_drop_count r2 + 1\<rparr>) \<and>
           I (w_other W k (unlock_registry r2)))"
  shows "case res of Inr (Some y) \<Rightarrow> J y q | _ \<Rightarrow> K q"
proof -
  define post where "post z = (case fst z of Inr (Some y) \<Rightarrow> J y (snd z) | _ \<Rightarrow> K (snd z))"
    for z :: "(error + (nat \<times> u64 \<times> u64) option) \<times> ring"
  have post: "post (Inr (Some y), p) = J y p" "post (Inr None, p) = K p" "post (Inl err, p) = K p" for y err p
    by (simp_all add: post_def)
  have "V = W \<longrightarrow> C = attempt \<longrightarrow> I r \<longrightarrow> post z" if "reserve_loop V C policy deadline k r = Some z" for V C z
  proof (rule reserve_loop.raw_induct [where P = "\<lambda>V C policy deadline k r z. V = W \<longrightarrow> C = attempt \<longrightarrow> I r \<longrightarrow> post z",
        OF _ that], intro impI, goal_cases)
    case (1 loop V C policy deadline k r z)
    then show ?case using step [of r k] by (auto simp: post split: option.splits if_splits)
  qed
  from this [OF run] init have "post (res, q)" by simp
  then show ?thesis by (simp only: post_def fst_conv snd_conv)
qed

lemma reserve_loop_take:
  assumes "wf_ring cap r" "lock_free r" "length shape = MAX_NDIM" "length strides = MAX_NDIM"
    and "pick_slot (swept (w_env W k) r) = Some s"
  shows "reserve_loop W (\<lambda>e. reserve_header e dt ndim shape strides nbytes ts) policy deadline k r =
    Some (Inr (Some (s, g_next_seq r, active_mask (swept (w_env W k) r))),
          reserved_ring (w_env W k) dt ndim shape strides nbytes ts s r)"
  using reserve_attempt [OF assms(1-4), of "w_env W k" dt ndim nbytes ts] assms(5)
  by (auto simp: reserve_loop.simps [of W _ policy deadline k r])

lemma reserve_loop_full:
  assumes "wf_ring cap r" "lock_free r" "length shape = MAX_NDIM" "length strides = MAX_NDIM"
    and "pick_slot (swept (w_env W k) r) = None"
  shows "reserve_loop W (\<lambda>e. reserve_header e dt ndim shape strides nbytes ts) policy deadline k r =
    (if policy = DropNewest
     then Some (Inr None, (failed_ring (w_env W k) r)\<lparr>g_drop_count := g_drop_count r + 1\<rparr>)
     else if deadline \<le> w_now W k then Some (Inl RingFull, failed_ring (w_env W k) r)
     else reserve_loop W (\<lambda>e. reserve_header e dt ndim shape strides nbytes ts) policy deadline (k + 1)
            (w_other W k (failed_ring (w_env W k) r)))"
  using reserve_attempt [OF assms(1-4), of "w_env W k" dt ndim nbytes ts] assms(5)
  by (auto simp: reserve_loop.simps [of W _ policy deadline k r])

lemma wf_reserved_ring:
  assumes wf: "wf_ring cap r" and free: "lock_free r"
    and dims: "length shape = MAX_NDIM" "length strides = MAX_NDIM" "ndim \<le> MAX_NDIM" "nbytes \<le> cap"
    and "pick_slot (swept e r) = Some s"
  shows "wf_ring cap (reserved_ring e dt ndim shape strides nbytes ts s r)"
proof -
  obtain r1 r2 where "lock_registry e r = Some r1"
    and op: "reserve_header e dt ndim shape strides nbytes ts r1 =
      (map_option (\<lambda>s. (s, g_next_seq r, active_mask (swept e r))) (pick_slot (swept e r)), r2)"
    and q: "unlock_registry r2 = reserved_ring e dt ndim shape strides nbytes ts s r"
    using reserve_attempt [OF wf free dims(1,2), of e dt ndim nbytes ts] assms(7) by auto
  then have "wf_ring cap r1" using wf by (simp add: wf_lock)
  then have "wf_ring cap r2" by (rule wf_reserve_header [OF _ op dims])
  then show ?thesis using q by (metis wf_unlock)
qed

lemma wf_failed_ring: "wf_ring cap r \<Longrightarrow> wf_ring cap (failed_ring e r)"
  by (simp add: failed_ring_def wf_swept)

lemma seqs_within_reserved_ring:
  assumes "seqs_within d r" "d < 2 ^ 63" "pick_slot (swept e r) = Some s"
  shows "seqs_within (Suc d) (reserved_ring e dt ndim shape strides nbytes ts s r)"
  using seqs_within_reserved [OF seqs_within_swept [OF assms(1), of e] assms(2),
      of s "reserved_header e (swept e r) dt ndim shape strides nbytes ts (slots (swept e r) ! s)"]
    pick_slot_reclaimable [OF assms(3)]
  by (simp add: reserved_ring_def reserved_header_def upd_slot_def)


lemma reserved_ring_sel [simp]:
  "registry (reserved_ring e dt ndim shape strides nbytes ts s r) = registry (swept e r)"
  "slots (reserved_ring e dt ndim shape strides nbytes ts s r) =
     (slots (swept e r))[s := reserved_header e (swept e r) dt ndim shape strides nbytes ts (slots (swept e r) ! s)]"
  "payloads (reserved_ring e dt ndim shape strides nbytes ts s r) = payloads r"
  "g_next_seq (reserved_ring e dt ndim shape strides nbytes ts s r) = g_next_seq r + 1"
  "g_lock (reserved_ring e dt ndim shape strides nbytes ts s r) = free_lock"
  "g_publish_count (reserved_ring e dt ndim shape strides nbytes ts s r) = g_publish_count r"
  "g_drop_count (reserved_ring e dt ndim shape strides nbytes ts s r) = g_drop_count r"
  "g_publish_futex (reserved_ring e dt ndim shape strides nbytes ts s r) = g_publish_futex r"
  by (simp_all add: reserved_ring_def upd_slot_def)

lemma active_mask_reserved_ring [simp]:
  "active_mask (reserved_ring e dt ndim shape strides nbytes ts s r) = active_mask (swept e r)"
  by (rule active_mask_cong) simp

lemma commit_slot_sel [simp]:
  "registry (commit_slot s r) = registry r" "payloads (commit_slot s r) = payloads r"
  "slots (commit_slot s r) = (slots r)[s := (slots r ! s)\<lparr>s_state := STATE_COMMITTED\<rparr>]"
  "g_next_seq (commit_slot s r) = g_next_seq r" "g_lock (commit_slot s r) = g_lock r"
  "g_publish_count (commit_slot s r) = g_publish_count r + 1"
  "g_drop_count (commit_slot s r) = g_drop_count r"
  "g_publish_futex (commit_slot s r) = g_publish_futex r + 1"
  by (simp_all add: commit_slot_def Let_def signal_publish_def signal_def upd_slot_def)

lemma copy_payload_sel [simp]:
  "registry (copy_payload s data r) = registry r" "slots (copy_payload s data r) = slots r"
  "payloads (copy_payload s data r) = (payloads r)[s := data @ drop (length data) (payloads r ! s)]"
  "g_next_seq (copy_payload s data r) = g_next_seq r" "g_lock (copy_payload s data r) = g_lock r"
  "g_publish_count (copy_payload s data r) = g_publish_count r"
  "g_drop_count (copy_payload s data r) = g_drop_count r"
  "g_publish_futex (copy_payload s data r) = g_publish_futex r"
  by (simp_all add: copy_payload_def)

lemma active_mask_commit_slot [simp]: "active_mask (commit_slot s r) = active_mask r"
  by (rule active_mask_cong) simp

lemma active_mask_copy_payload [simp]: "active_mask (copy_payload s data r) = active_mask r"
  by (rule active_mask_cong) simp

subsection \<open>Views\<close>

definition view_ok :: "tensor_view \<Rightarrow> bool" where
  "view_ok v \<longleftrightarrow> v_ndim v \<le> MAX_NDIM \<and> length (v_shape v) = MAX_NDIM \<and> length (v_strides v) = MAX_NDIM \<and>
     length (v_data v) < 2 ^ 64"

lemma length_pad_dims: "length xs \<le> MAX_NDIM \<Longrightarrow> length (pad_dims xs) = MAX_NDIM"
  by (simp add: pad_dims_def)

lemma tensor_view_new_ok:
  "tensor_view_new dt shape strides data = Inr v \<Longrightarrow> length data < 2 ^ 64 \<Longrightarrow> view_ok v"
  by (auto simp: tensor_view_new_def view_ok_def length_pad_dims split: if_splits)

text \<open>A ring on which an attempt with \<open>v\<close> has somewhere to go.\<close>

lemma pick_slot_exists:
  assumes "seqs_within d r" "d < 2 ^ 63" "\<exists>h\<in>set (slots (swept e r)). reclaimable h"
  shows "\<exists>s. pick_slot (swept e r) = Some s"
proof -
  have "seqs_ok (swept e r)"
    unfolding seqs_ok_def using seqs_within_swept [OF assms(1)]
    by (rule seqs_within_mono) (use assms(2) in simp)
  from pick_slot_None [OF this] assms(3) show ?thesis by auto
qed

lemma publish_take:
  assumes wf: "wf_ring cap r" and free: "lock_free r" and v: "view_ok v" "usize_len (v_data v) \<le> cap"
    and pick: "pick_slot (swept (w_env W 0) r) = Some s"
  shows "publish W cap v policy timeout r =
    Some (Inr (Some \<lparr>p_sequence = g_next_seq r, p_slot_index = s, p_nbytes = usize_len (v_data v),
                p_readers = of_nat (count_ones (active_mask (swept (w_env W 0) r)))\<rparr>),
      commit_slot s (copy_payload s (v_data v)
        (reserved_ring (w_env W 0) (v_dtype v) (v_ndim v) (v_shape v) (v_strides v)
          (usize_len (v_data v)) (v_timestamp_ns v) s r)))"
  using v reserve_loop_take [OF wf free _ _ pick, of "v_shape v" "v_strides v" "v_dtype v" "v_ndim v"
      "usize_len (v_data v)" "v_timestamp_ns v" policy "w_start W + timeout"]
  by (simp add: publish_def reserve_for_copy_def view_ok_def not_less)

lemma wf_published:
  assumes wf: "wf_ring cap r" and free: "lock_free r" and v: "view_ok v" "usize_len (v_data v) \<le> cap"
    and pick: "pick_slot (swept e r) = Some s"
  shows "wf_ring cap (commit_slot s (copy_payload s (v_data v)
    (reserved_ring e (v_dtype v) (v_ndim v) (v_shape v) (v_strides v) (usize_len (v_data v)) (v_timestamp_ns v) s r)))"
  using v pick_slot_reclaimable [OF pick]
  by (intro wf_commit_slot wf_copy_payload wf_reserved_ring [OF wf free])
    (simp_all add: view_ok_def pick reserved_header_def)

lemma seqs_within_published:
  assumes "seqs_within d r" "d < 2 ^ 63" and pick: "pick_slot (swept e r) = Some s"
  shows "seqs_within (Suc d) (commit_slot s (copy_payload s data
    (reserved_ring e dt ndim shape strides nbytes ts s r)))"
proof (rule seqs_within_slots [OF seqs_within_reserved_ring [OF assms]])
  show "in_use (slots (reserved_ring e dt ndim shape strides nbytes ts s r) ! i) \<and>
      s_sequence (slots (commit_slot s (copy_payload s data (reserved_ring e dt ndim shape strides nbytes ts s r))) ! i) =
      s_sequence (slots (reserved_ring e dt ndim shape strides nbytes ts s r) ! i)"
    if "i < length (slots (reserved_ring e dt ndim shape strides nbytes ts s r))"
      and "in_use (slots (commit_slot s (copy_payload s data (reserved_ring e dt ndim shape strides nbytes ts s r))) ! i)"
    for i
    using that by (cases "i = s") (auto simp: in_use_def reserved_header_def)
qed simp_all

text \<open>
  When some slot is reclaimable, publishing succeeds at its first attempt: the tensor gets
  the next sequence, its slot carries exactly the header of the view and is addressed to exactly the
  consumers registered at that moment, its payload starts with the data, every other slot and
  payload is as the sweep left it, the publish count and the publish word move by one, the lock is
  free, and the invariants hold.
\<close>

theorem publish_delivers:
  assumes wf: "wf_ring cap r" and sq: "seqs_within d r" "d < 2 ^ 63" and free: "lock_free r"
    and v: "view_ok v" "usize_len (v_data v) \<le> cap"
    and some: "\<exists>h\<in>set (slots (swept (w_env W 0) r)). reclaimable h"
  shows "\<exists>s q. publish W cap v policy timeout r =
      Some (Inr (Some \<lparr>p_sequence = g_next_seq r, p_slot_index = s, p_nbytes = usize_len (v_data v),
                 p_readers = of_nat (count_ones (active_mask q))\<rparr>), q) \<and>
    s < length (slots r) \<and> length (slots q) = length (slots r) \<and>
    s_state (slots q ! s) = STATE_COMMITTED \<and> s_sequence (slots q ! s) = g_next_seq r \<and>
    s_readers_mask (slots q ! s) = active_mask q \<and> s_nbytes (slots q ! s) = usize_len (v_data v) \<and>
    s_dtype (slots q ! s) = dtype_code (v_dtype v) \<and> unat (s_ndim (slots q ! s)) = v_ndim v \<and>
    s_shape (slots q ! s) = v_shape v \<and> s_strides (slots q ! s) = v_strides v \<and>
    s_timestamp_ns (slots q ! s) = (case v_timestamp_ns v of Some t \<Rightarrow> t | None \<Rightarrow> now_ns (w_env W 0)) \<and>
    take (length (v_data v)) (payloads q ! s) = v_data v \<and>
    (\<forall>j<length (slots r). j \<noteq> s \<longrightarrow>
       slots q ! j = slots (swept (w_env W 0) r) ! j \<and> payloads q ! j = payloads r ! j) \<and>
    g_next_seq q = g_next_seq r + 1 \<and> g_publish_count q = g_publish_count r + 1 \<and>
    g_publish_futex q = g_publish_futex r + 1 \<and> lock_free q \<and> wf_ring cap q \<and> seqs_within (Suc d) q"
proof -
  let ?e = "w_env W 0"
  obtain s where pick: "pick_slot (swept ?e r) = Some s"
    using pick_slot_exists [OF sq some] by blast
  define q where "q = commit_slot s (copy_payload s (v_data v)
    (reserved_ring ?e (v_dtype v) (v_ndim v) (v_shape v) (v_strides v) (usize_len (v_data v)) (v_timestamp_ns v) s r))"
  have s: "s < length (slots r)" "s < length (payloads r)"
    using pick_slot_reclaimable [OF pick] wf_ringD(4) [OF wf] by simp_all
  have am: "active_mask q = active_mask (swept ?e r)" by (simp add: q_def)
  have "unat (of_nat (v_ndim v) :: u8) = v_ndim v"
    using v(1) by (simp add: view_ok_def MAX_NDIM_def unat_of_nat)
  then have hdr: "slots q ! s = (reserved_header ?e (swept ?e r) (v_dtype v) (v_ndim v) (v_shape v) (v_strides v)
       (usize_len (v_data v)) (v_timestamp_ns v) (slots (swept ?e r) ! s))\<lparr>s_state := STATE_COMMITTED\<rparr>"
    using s by (simp add: q_def)
  have "lock_free q" by (simp add: q_def lock_free_def free_lock_def)
  moreover have "wf_ring cap q" unfolding q_def by (rule wf_published [OF wf free v pick])
  moreover have "seqs_within (Suc d) q" unfolding q_def by (rule seqs_within_published [OF sq pick])
  ultimately show ?thesis
    using publish_take [OF wf free v pick, of policy timeout] s hdr am v
    by (intro exI [of _ s] exI [of _ q])
      (simp add: q_def [symmetric] reserved_header_def view_ok_def MAX_NDIM_def unat_of_nat, simp add: q_def)
qed


definition demo_view :: tensor_view where
  "demo_view = \<lparr>v_dtype = U8, v_ndim = 1, v_shape = pad_dims [3], v_strides = pad_dims [1],
     v_data = [10, 20, 30], v_timestamp_ns = Some 99\<rparr>"

definition demo_waits :: "u32 \<Rightarrow> waits" where
  "demo_waits pid = \<lparr>w_env = (\<lambda>_. kill_env pid [7, 9] 1), w_start = 0, w_now = (\<lambda>k. 5 * k),
     w_other = (\<lambda>_ r. r)\<rparr>"

lemma demo_view_ok: "view_ok demo_view" "usize_len (v_data demo_view) \<le> 64"
  by (simp_all add: view_ok_def demo_view_def pad_dims_def MAX_NDIM_def usize_len_def)

lemma slots_demo_ring:
  "slots demo_ring = [zero_slot\<lparr>s_magic := SLOT_MAGIC, s_state := STATE_FREE\<rparr>,
     zero_slot\<lparr>s_magic := SLOT_MAGIC, s_state := STATE_FREE\<rparr>]"
proof -
  have "replicate (2 :: nat) x = [x, x]" for x :: slot_header by (simp add: numeral_2_eq_2)
  then show ?thesis by (simp add: demo_ring_def format_ring_eq demo_inner_def zero_ring_def)
qed

lemma slots_pending_ring:
  "slots pending_ring = [pending_slot, zero_slot\<lparr>s_magic := SLOT_MAGIC, s_state := STATE_FREE\<rparr>]"
  by (simp add: pending_ring_eq slots_demo_ring)

lemma validate_header_sequence [simp]: "validate_header (h\<lparr>s_sequence := x\<rparr>) cap = validate_header h cap"
  by (simp add: validate_header_def)

text \<open>The same ring with both slots pending for the consumer.\<close>

definition full_ring :: ring where
  "full_ring = upd_slot 1 (\<lambda>_. pending_slot\<lparr>s_sequence := 2\<rparr>) pending_ring\<lparr>g_next_seq := 3\<rparr>"

lemma full_ring_sel [simp]:
  "slots full_ring = [pending_slot, pending_slot\<lparr>s_sequence := 2\<rparr>]"
  "registry full_ring = registry pending_ring" "g_next_seq full_ring = 3"
  by (simp_all add: full_ring_def slots_pending_ring)

lemma wf_full_ring: "wf_ring 64 full_ring" "lock_free full_ring"
proof -
  have "slot_ok (active_mask pending_ring) 64 pending_slot"
    using wf_ringD(6) [OF wf_pending_ring(1), of 0] by (simp add: slots_pending_ring)
  then show "wf_ring 64 full_ring"
    unfolding full_ring_def wf_g_next_seq
    by (intro wf_upd_slot wf_pending_ring) (simp add: slot_ok_def)
  show "lock_free full_ring"
    using wf_pending_ring(2) by (simp add: full_ring_def lock_free_def)
qed

lemma seqs_within_full_ring: "seqs_within 2 full_ring"
  by (auto simp: seqs_within_def in_use_def age_def less_Suc_eq pending_slot_def)

lemma seqs_within_demo_ring: "seqs_within 0 demo_ring"
  by (simp add: seqs_within_def demo_ring_def format_ring_eq demo_inner_def zero_ring_def in_use_def)

lemma seqs_within_pending_ring: "seqs_within 1 pending_ring"
  by (auto simp: seqs_within_def slots_pending_ring in_use_def age_def less_Suc_eq pending_slot_def)


theorem publish_delivers_witness:
  "\<exists>s q. publish (demo_waits 7) 64 demo_view DropNewest 0 pending_ring =
      Some (Inr (Some \<lparr>p_sequence = 2, p_slot_index = s, p_nbytes = 3,
                 p_readers = of_nat (count_ones (active_mask q))\<rparr>), q) \<and>
    take 3 (payloads q ! s) = [10, 20, 30] \<and> wf_ring 64 q"
proof -
  have "slots (swept (kill_env 7 [7, 9] 1) pending_ring) ! 1 =
      swept_slot (kill_env 7 [7, 9] 1) pending_ring (slots pending_ring ! 1)"
    by simp
  moreover have "s_state (slots pending_ring ! 1) = STATE_FREE"
    by (simp add: slots_pending_ring)
  ultimately have "reclaimable (slots (swept (kill_env 7 [7, 9] 1) pending_ring) ! 1)"
    by (simp add: reclaimable_def)
  moreover have "slots (swept (kill_env 7 [7, 9] 1) pending_ring) ! 1 \<in> set (slots (swept (kill_env 7 [7, 9] 1) pending_ring))"
    by (rule nth_mem) simp
  moreover have "w_env (demo_waits 7) 0 = kill_env 7 [7, 9] 1" by (simp add: demo_waits_def)
  ultimately have "\<exists>h\<in>set (slots (swept (w_env (demo_waits 7) 0) pending_ring)). reclaimable h"
    by metis
  from publish_delivers [OF wf_pending_ring(1) seqs_within_pending_ring _ wf_pending_ring(2) demo_view_ok this,
      of DropNewest 0]
  obtain s q where "publish (demo_waits 7) 64 demo_view DropNewest 0 pending_ring =
      Some (Inr (Some \<lparr>p_sequence = g_next_seq pending_ring, p_slot_index = s, p_nbytes = usize_len (v_data demo_view),
                 p_readers = of_nat (count_ones (active_mask q))\<rparr>), q)"
    "take (length (v_data demo_view)) (payloads q ! s) = v_data demo_view" "wf_ring 64 q"
    by auto
  moreover have "v_data demo_view = [10, 20, 30]" "usize_len (v_data demo_view) = 3"
    by (simp_all add: demo_view_def usize_len_def)
  moreover have "length (v_data demo_view) = 3" by (simp add: demo_view_def)
  ultimately show ?thesis by (metis pending_ring_sel(5))
qed

text \<open>
  When every slot is being written or still has a reader, publishing with the drop policy
  returns at once without a sequence: it counts one drop and changes nothing else but what the
  sweep does; with the blocking policy and a deadline that has passed it reports a full ring.
\<close>

theorem publish_full:
  assumes wf: "wf_ring cap r" and sq: "seqs_within d r" "d < 2 ^ 63" and free: "lock_free r"
    and v: "view_ok v" "usize_len (v_data v) \<le> cap"
    and none: "\<forall>h\<in>set (slots (swept (w_env W 0) r)). \<not> reclaimable h"
  shows "(\<exists>q. publish W cap v DropNewest timeout r = Some (Inr None, q) \<and>
      g_drop_count q = g_drop_count r + 1 \<and> slots q = slots (swept (w_env W 0) r) \<and>
      payloads q = payloads r \<and> g_next_seq q = g_next_seq r \<and> g_publish_count q = g_publish_count r \<and>
      lock_free q \<and> wf_ring cap q) \<and>
    (w_start W + timeout \<le> w_now W 0 \<longrightarrow>
      (\<exists>q. publish W cap v Block timeout r = Some (Inl RingFull, q) \<and>
        slots q = slots (swept (w_env W 0) r) \<and> g_next_seq q = g_next_seq r \<and> lock_free q \<and> wf_ring cap q))"
proof -
  have "seqs_ok (swept (w_env W 0) r)"
    unfolding seqs_ok_def using seqs_within_swept [OF sq(1)] by (rule seqs_within_mono) (use sq(2) in simp)
  then have pick: "pick_slot (swept (w_env W 0) r) = None"
    using none by (simp add: pick_slot_None)
  have "wf_ring cap (failed_ring (w_env W 0) r)" using wf by (rule wf_failed_ring)
  moreover have "\<not> cap < usize_len (v_data v)" using v(2) by simp
  ultimately show ?thesis
    using reserve_loop_full [OF wf free _ _ pick, of "v_shape v" "v_strides v" "v_dtype v" "v_ndim v"
        "usize_len (v_data v)" "v_timestamp_ns v"] v
    by (simp add: publish_def reserve_for_copy_def view_ok_def failed_ring_def lock_free_def free_lock_def)
qed

theorem publish_full_witness:
  "\<exists>q. publish (demo_waits 7) 64 demo_view DropNewest 0 full_ring = Some (Inr None, q) \<and>
     g_drop_count q = g_drop_count full_ring + 1 \<and> g_next_seq q = 3"
proof -
  let ?e = "kill_env 7 [7, 9] 1"
  have "dead_consumers ?e full_ring = []"
  proof -
    have "\<not> dead_entry ?e (registry full_ring ! i)" if "i < 64" for i
      using that by (cases "i = 0") (simp_all add: dead_entry_def fresh_entry_def pending_ring_eq
        zero_entry_def REGISTRY_ACTIVE_def)
    then show ?thesis by (simp add: dead_consumers_def dead_below_def MAX_CONSUMERS_def filter_empty_conv)
  qed
  then have "\<forall>h\<in>set (slots (swept ?e full_ring)). \<not> reclaimable h"
    by (simp add: swept_def swept_slot_def recover_slot_def abandoned_slot_def pending_slot_def
        reclaimable_def unread_def)
  then have "\<forall>h\<in>set (slots (swept (w_env (demo_waits 7) 0) full_ring)). \<not> reclaimable h"
    by (simp add: demo_waits_def)
  from publish_full [OF wf_full_ring(1) seqs_within_full_ring _ wf_full_ring(2) demo_view_ok this, of 0]
  show ?thesis by auto
qed




text \<open>
  Claim C15. A reservation never takes a slot that is being written or has a reader left: it fails
  exactly when there is no other, takes the first free slot if there is one, and otherwise the
  oldest of the committed slots whose readers have all released them.
\<close>

theorem reserve_choice:
  fixes e dt ndim shape strides nbytes ts r
  defines "r' \<equiv> reap_dead e r"
  assumes len: "length (registry r) = MAX_CONSUMERS" and sq: "seqs_ok r"
  shows "case fst (reserve_header e dt ndim shape strides nbytes ts r) of
      None \<Rightarrow> \<forall>h\<in>set (slots r'). s_state h \<noteq> STATE_FREE \<and> (s_state h = STATE_COMMITTED \<longrightarrow> s_readers_mask h \<noteq> 0)
    | Some (s, sequence, rm) \<Rightarrow>
        s < length (slots r') \<and> sequence = g_next_seq r' \<and> rm = active_mask r' \<and>
        (if \<exists>h\<in>set (slots r'). s_state h = STATE_FREE
         then s_state (slots r' ! s) = STATE_FREE \<and> (\<forall>j. j < s \<longrightarrow> s_state (slots r' ! j) \<noteq> STATE_FREE)
         else s_state (slots r' ! s) = STATE_COMMITTED \<and> s_readers_mask (slots r' ! s) = 0 \<and>
           (\<forall>j<length (slots r'). s_state (slots r' ! j) = STATE_COMMITTED \<and> s_readers_mask (slots r' ! j) = 0 \<longrightarrow>
              j = s \<or> seq_newer (s_sequence (slots r' ! j)) (s_sequence (slots r' ! s))))"
proof -
  have r': "r' = swept e r" using len by (simp add: r'_def reap_dead_eq MAX_CONSUMERS_def)
  have ok: "seqs_ok r'"
    using sq unfolding r' seqs_ok_def by (rule seqs_within_swept)
  show ?thesis
  proof (cases "pick_slot r'")
    case None
    then show ?thesis
      using pick_slot_None [OF ok]
      by (auto simp: reserve_header_None [folded r'_def] r'_def [symmetric] reclaimable_def unread_def)
  next
    case (Some s)
    have fst: "fst (reserve_header e dt ndim shape strides nbytes ts r) = Some (s, g_next_seq r', active_mask r')"
      using Some by (simp add: reserve_header_def Let_def r'_def)
    have order: "j = s \<or> seq_newer (s_sequence (slots r' ! j)) (s_sequence (slots r' ! s))"
      if j: "j < length (slots r')" "s < length (slots r')" "unread (slots r' ! j)" "unread (slots r' ! s)"
        "age (g_next_seq r') (s_sequence (slots r' ! j)) \<le> age (g_next_seq r') (s_sequence (slots r' ! s))" for j
    proof (cases "j = s")
      case False
      have use: "in_use (slots r' ! j)" "in_use (slots r' ! s)"
        using j by (simp_all add: unread_def in_use_def)
      then have "s_sequence (slots r' ! j) \<noteq> s_sequence (slots r' ! s)"
        using seqs_ok_inj [OF ok j(1,2) use] False by blast
      then have "age (g_next_seq r') (s_sequence (slots r' ! j)) < age (g_next_seq r') (s_sequence (slots r' ! s))"
        using j(5) by (simp add: order_less_le age_inject)
      moreover have "seq_newer (s_sequence (slots r' ! j)) (s_sequence (slots r' ! s)) \<longleftrightarrow>
          age (g_next_seq r') (s_sequence (slots r' ! j)) < age (g_next_seq r') (s_sequence (slots r' ! s))"
        using seqs_ok_window [OF ok j(1) use(1)] seqs_ok_window [OF ok j(2) use(2)] by (intro seq_newer_age) auto
      ultimately show ?thesis by simp
    qed simp
    from pick_slot_Some [OF ok Some] order show ?thesis
      by (auto simp: fst unread_def) blast
  qed
qed

theorem reserve_choice_witness:
  "case fst (reserve_header (kill_env 7 [7, 9] 1) U8 1 (pad_dims [3]) (pad_dims [1]) 3 None pending_ring) of
     None \<Rightarrow> True | Some (s, sequence, rm) \<Rightarrow> s < 2 \<and> sequence = 2"
proof -
  have "length (registry pending_ring) = MAX_CONSUMERS" "seqs_ok pending_ring"
    using seqs_within_pending_ring by (simp_all add: MAX_CONSUMERS_def seqs_ok_def) (rule seqs_within_mono, auto)
  from reserve_choice [OF this, of "kill_env 7 [7, 9] 1" U8 1 "pad_dims [3]" "pad_dims [1]" 3 None]
  show ?thesis
    by (simp add: reap_dead_eq split: option.splits prod.splits)
qed


text \<open>
  Aborting a direct write, or dropping its writer, frees its slot and no other, wakes the
  producers that wait, and gives its sequence back exactly when nothing was reserved after it;
  otherwise the sequence stays missing from the stream.
\<close>

theorem writer_abort_spec:
  assumes wf: "wf_ring cap r" and free: "lock_free r" and s: "sw_slot w < length (slots r)"
  shows "\<exists>q. writer_abort e w r = Some (w\<lparr>sw_committed := True\<rparr>, q) \<and>
    (\<not> sw_committed w \<longrightarrow> writer_drop e w r = Some q) \<and>
    s_state (slots q ! sw_slot w) = STATE_FREE \<and> s_readers_mask (slots q ! sw_slot w) = 0 \<and>
    (\<forall>j<length (slots r). j \<noteq> sw_slot w \<longrightarrow> slots q ! j = slots r ! j) \<and>
    payloads q = payloads r \<and> g_reclaim_futex q = g_reclaim_futex r + 1 \<and>
    g_publish_count q = g_publish_count r \<and>
    g_next_seq q = (if g_next_seq r = sw_sequence w + 1 then sw_sequence w else g_next_seq r) \<and>
    lock_free q \<and> wf_ring cap q"
proof -
  obtain q where q: "release_slot e w r = Some q"
    using lock_registry_free [OF free, of e] by (simp add: release_slot_def Let_def)
  moreover from this have "wf_ring cap q" by (rule wf_release_slot [OF wf])
  moreover have "s_state (slots q ! sw_slot w) = STATE_FREE \<and> s_readers_mask (slots q ! sw_slot w) = 0 \<and>
    (\<forall>j<length (slots r). j \<noteq> sw_slot w \<longrightarrow> slots q ! j = slots r ! j) \<and>
    payloads q = payloads r \<and> g_reclaim_futex q = g_reclaim_futex r + 1 \<and>
    g_publish_count q = g_publish_count r \<and>
    g_next_seq q = (if g_next_seq r = sw_sequence w + 1 then sw_sequence w else g_next_seq r) \<and> lock_free q"
    using q s lock_registry_free [OF free, of e]
    by (auto simp: release_slot_def Let_def signal_reclaim_def signal_def unlock_registry_eq lock_free_def
        free_lock_def upd_slot_def)
  ultimately show ?thesis by (auto simp: writer_abort_def writer_drop_def)
qed

theorem writer_abort_spec_witness:
  "\<exists>q. writer_abort (kill_env 7 [7, 9] 1)
       \<lparr>sw_slot = 0, sw_sequence = 1, sw_mask = 1, sw_nbytes = 8, sw_committed = False\<rparr> pending_ring =
      Some (\<lparr>sw_slot = 0, sw_sequence = 1, sw_mask = 1, sw_nbytes = 8, sw_committed = True\<rparr>, q) \<and>
    g_next_seq q = 1"
  using writer_abort_spec [OF wf_pending_ring,
      of "\<lparr>sw_slot = 0, sw_sequence = 1, sw_mask = 1, sw_nbytes = 8, sw_committed = False\<rparr>" "kill_env 7 [7, 9] 1"]
  by auto

text \<open>
  Claim C22. Writing in place is publishing: reserving for a dtype and shape, filling the payload and
  committing does to the ring, and returns, exactly what \<^verbatim>\<open>publish\<close> does with the contiguous view of
  the same data; and when \<^verbatim>\<open>publish\<close> fails, drops or waits for ever, so does \<^verbatim>\<open>reserve\<close>.
\<close>

theorem direct_write_is_publish:
  assumes view: "tensor_view_contiguous dt shape data = Inr v" and len: "length data < 2 ^ 64"
  shows "publish W cap v policy timeout r =
    (case reserve W cap dt shape policy timeout r of
       None \<Rightarrow> None
     | Some (Inl err, q) \<Rightarrow> Some (Inl err, q)
     | Some (Inr None, q) \<Rightarrow> Some (Inr None, q)
     | Some (Inr (Some w), q) \<Rightarrow>
         (case writer_commit w (writer_fill w data q) of (p, w', q') \<Rightarrow> Some (Inr (Some p), q')))"
proof -
  have v: "length shape \<le> MAX_NDIM" "tensor_bytes dt shape = usize_len data"
      "v = \<lparr>v_dtype = dt, v_ndim = length shape, v_shape = pad_dims shape,
            v_strides = pad_dims (contiguous_strides dt shape), v_data = data, v_timestamp_ns = None\<rparr>"
    using view by (auto simp: tensor_view_contiguous_def tensor_view_new_def split: if_splits)
  have take: "take (unat (usize_len data)) data = data"
    using len by (simp add: usize_len_def unat_of_nat_small)
  show ?thesis
    using v(1) by (auto simp: publish_def reserve_def v(2,3) reserve_for_copy_def writer_commit_def writer_fill_def
        writer_readers_def take Let_def split: option.split sum.split)
qed

theorem direct_write_is_publish_witness:
  "\<exists>v. tensor_view_contiguous U8 [3] [10, 20, 30] = Inr v \<and>
    publish (demo_waits 7) 64 v DropNewest 0 pending_ring =
    (case reserve (demo_waits 7) 64 U8 [3] DropNewest 0 pending_ring of
       None \<Rightarrow> None
     | Some (Inl err, q) \<Rightarrow> Some (Inl err, q)
     | Some (Inr None, q) \<Rightarrow> Some (Inr None, q)
     | Some (Inr (Some w), q) \<Rightarrow>
         (case writer_commit w (writer_fill w [10, 20, 30] q) of (p, w', q') \<Rightarrow> Some (Inr (Some p), q')))"
proof -
  obtain v where v: "tensor_view_contiguous U8 [3] [10, 20, 30] = Inr v"
    by (simp add: tensor_view_contiguous_def tensor_view_new_def contiguous_strides_def tensor_bytes_def
        shape_elements_def usize_len_def MAX_NDIM_def)
  show ?thesis
    using v direct_write_is_publish [OF v, of "demo_waits 7" 64 DropNewest 0 pending_ring] by simp
qed

end
