(* ===== verification/Consumer.thy ===== *)
theory Consumer
  imports Producer
begin

text \<open>
  The consumer part of \<^verbatim>\<open>rust/tenzorbus/src/ring.rs\<close>: the scan for the oldest publication addressed to
  a consumer, the validated read of a header, taking and releasing a lease. The scan and the read
  are translated load by load, so that what they promise can be stated for any interference.
\<close>

text \<open>
  Loads of one call happen one after the other, and other processes may write between them. A
  \<open>trace\<close> gives the contents of the mapping at the k-th load of the call; \<open>still r\<close> is the trace
  on which nobody else writes.
\<close>

type_synonym trace = "nat \<Rightarrow> ring"

definition still :: "ring \<Rightarrow> trace" where
  "still r = (\<lambda>_. r)"

subsection \<open>Finding the next publication\<close>

definition consumer_bit :: "consumer \<Rightarrow> u64" where
  "consumer_bit c = one_bit (c_index c)"

definition heartbeat :: "env \<Rightarrow> consumer \<Rightarrow> ring \<Rightarrow> ring" where
  "heartbeat e c r = upd_entry (c_index c) (\<lambda>x. x\<lparr>r_heartbeat_ns := now_ns e\<rparr>) r"

text \<open>Slot \<open>i\<close> of the scan loads its state, its mask and its sequence, in this order.\<close>

definition scan_step :: "consumer \<Rightarrow> trace \<Rightarrow> nat \<Rightarrow> (u64 \<times> nat) option \<Rightarrow> (u64 \<times> nat) option" where
  "scan_step c tr i best =
     (if s_state (slots (tr (3 * i)) ! i) \<noteq> STATE_COMMITTED then best
      else if s_readers_mask (slots (tr (3 * i + 1)) ! i) AND consumer_bit c = 0 then best
      else
        (let sq = s_sequence (slots (tr (3 * i + 2)) ! i)
         in if \<not> seq_newer sq (c_last_sequence c) then best
            else
              (case best of
                 Some (b, j) \<Rightarrow> if \<not> seq_newer b sq then best else Some (sq, i)
               | None \<Rightarrow> Some (sq, i))))"

definition scan_oldest :: "consumer \<Rightarrow> nat \<Rightarrow> trace \<Rightarrow> (u64 \<times> nat) option" where
  "scan_oldest c slot_count tr = fold (scan_step c tr) [0..<slot_count] None"

text \<open>
  The loads of \<^verbatim>\<open>read_validated\<close>: state, sequence, rank, dtype, size, timestamp, then a shape and a
  stride per dimension, the mask, and the second round of state, sequence and mask.
\<close>

definition read_validated :: "usize \<Rightarrow> consumer \<Rightarrow> trace \<Rightarrow> nat \<Rightarrow> u64 \<Rightarrow> tensor_meta option" where
  "read_validated cap c tr s expected =
     (if s_state (slots (tr 0) ! s) \<noteq> STATE_COMMITTED then None
      else if s_sequence (slots (tr 1) ! s) \<noteq> expected then None
      else
        (let ndim = unat (s_ndim (slots (tr 2) ! s));
             code = s_dtype (slots (tr 3) ! s);
             nbytes = s_nbytes (slots (tr 4) ! s);
             ts = s_timestamp_ns (slots (tr 5) ! s);
             shape = map (\<lambda>d. s_shape (slots (tr (6 + 2 * d)) ! s) ! d) [0..<MAX_NDIM];
             strides = map (\<lambda>d. s_strides (slots (tr (7 + 2 * d)) ! s) ! d) [0..<MAX_NDIM];
             rm = s_readers_mask (slots (tr 22) ! s)
         in if s_state (slots (tr 23) ! s) \<noteq> STATE_COMMITTED then None
            else if s_sequence (slots (tr 24) ! s) \<noteq> expected then None
            else if rm AND consumer_bit c = 0 \<or> s_readers_mask (slots (tr 25) ! s) AND consumer_bit c = 0
            then None
            else if ndim > MAX_NDIM \<or> nbytes > cap then None
            else
              (case dtype_from_code code of
                 None \<Rightarrow> None
               | Some dt \<Rightarrow>
                   Some \<lparr>m_sequence = expected, m_timestamp_ns = ts, m_nbytes = nbytes, m_dtype = dt,
                         m_ndim = ndim, m_shape = shape, m_strides = strides, m_slot_index = s,
                         m_readers_remaining = of_nat (count_ones rm)\<rparr>)))"

text \<open>The passes of \<^verbatim>\<open>try_take\<close> after the first, at most one per slot; pass \<open>k\<close> sees \<open>trs k\<close>.\<close>

fun rescan :: "consumer \<Rightarrow> nat \<Rightarrow> (nat \<Rightarrow> trace) \<Rightarrow> nat \<Rightarrow> nat \<Rightarrow> u64 \<times> nat \<Rightarrow> u64 \<times> nat" where
  "rescan c slot_count trs 0 k best = best"
| "rescan c slot_count trs (Suc n) k best =
     (case scan_oldest c slot_count (trs k) of
        Some nxt \<Rightarrow> if seq_newer (fst best) (fst nxt) then rescan c slot_count trs n (k + 1) nxt else best
      | None \<Rightarrow> best)"

definition try_take :: "usize \<Rightarrow> consumer \<Rightarrow> nat \<Rightarrow> (nat \<Rightarrow> trace) \<Rightarrow> tensor_meta option" where
  "try_take cap c slot_count trs =
     (case scan_oldest c slot_count (trs 0) of
        None \<Rightarrow> None
      | Some first \<Rightarrow>
          (case rescan c slot_count trs slot_count 1 first of
             (sq, s) \<Rightarrow> read_validated cap c (trs (slot_count + 1)) s sq))"

subsection \<open>Taking and releasing\<close>

text \<open>
  An attempt of \<^verbatim>\<open>next_raw\<close> runs with nobody else writing; \<open>w_other\<close> is what the others do before
  the next one. The payload pointer is the slot of the meta data: \<open>lease_data\<close> reads the slab itself.
\<close>

definition take_meta :: "env \<Rightarrow> consumer \<Rightarrow> tensor_meta \<Rightarrow> ring \<Rightarrow> consumer \<times> ring" where
  "take_meta e c m r =
     (c\<lparr>c_last_sequence := m_sequence m\<rparr>,
      heartbeat e c (upd_entry (c_index c) (\<lambda>x. x\<lparr>r_last_sequence := m_sequence m\<rparr>) r))"

partial_function (option) next_loop ::
  "waits \<Rightarrow> usize \<Rightarrow> consumer \<Rightarrow> nat \<Rightarrow> nat \<Rightarrow> ring \<Rightarrow>
   ((error + tensor_meta) \<times> consumer \<times> ring) option" where
  "next_loop W cap c deadline k r =
     (case try_take cap c (length (slots r)) (\<lambda>_. still r) of
        Some m \<Rightarrow> Some (Inr m, take_meta (w_env W k) c m r)
      | None \<Rightarrow>
          if w_now W k \<ge> deadline then Some (Inl Timeout, c, r)
          else next_loop W cap c deadline (k + 1) (w_other W k r))"

definition next_raw ::
  "waits \<Rightarrow> usize \<Rightarrow> consumer \<Rightarrow> nat \<Rightarrow> ring \<Rightarrow> ((error + tensor_meta) \<times> consumer \<times> ring) option" where
  "next_raw W cap c timeout r = next_loop W cap c (w_start W + timeout) 0 r"

definition lease_data :: "tensor_meta \<Rightarrow> ring \<Rightarrow> u8 list" where
  "lease_data m r = take (unat (m_nbytes m)) (payloads r ! m_slot_index m)"

definition recycled_error :: "tensor_meta \<Rightarrow> error" where
  "recycled_error m = LeaseViolation (''slot '' @ dec (m_slot_index m) @ '' was recycled while sequence '' @
     dec (unat (m_sequence m)) @ '' was still leased'')"

definition consumer_release :: "env \<Rightarrow> consumer \<Rightarrow> tensor_meta \<Rightarrow> ring \<Rightarrow> (error + unit) \<times> ring" where
  "consumer_release e c m r =
     (let s = m_slot_index m
      in if s_sequence (slots r ! s) \<noteq> m_sequence m then (Inl (recycled_error m), r)
         else
           (let bt = consumer_bit c;
                previous = s_readers_mask (slots r ! s);
                r1 = upd_slot s (\<lambda>h. h\<lparr>s_readers_mask := previous AND NOT bt\<rparr>) r
            in if previous AND bt = 0 then (Inl (LeaseViolation ''lease released more than once''), r1)
               else
                 (let now = previous AND NOT bt;
                      r2 = upd_slot s (\<lambda>h. h\<lparr>s_readers_remaining := of_nat (count_ones now)\<rparr>) r1;
                      r3 = heartbeat e c r2
                  in (Inr (), if now = 0 then signal_reclaim r3 else r3))))"

record lease =
  l_meta :: tensor_meta
  l_released :: bool

definition consumer_next ::
  "waits \<Rightarrow> usize \<Rightarrow> consumer \<Rightarrow> nat \<Rightarrow> ring \<Rightarrow> ((error + lease) \<times> consumer \<times> ring) option" where
  "consumer_next W cap c timeout r =
     (case next_raw W cap c timeout r of
        None \<Rightarrow> None
      | Some (Inl err, c', q) \<Rightarrow> Some (Inl err, c', q)
      | Some (Inr m, c', q) \<Rightarrow> Some (Inr \<lparr>l_meta = m, l_released = False\<rparr>, c', q))"

definition lease_release :: "env \<Rightarrow> consumer \<Rightarrow> lease \<Rightarrow> ring \<Rightarrow> lease \<times> (error + unit) \<times> ring" where
  "lease_release e c l r = (l\<lparr>l_released := True\<rparr>, consumer_release e c (l_meta l) r)"

definition lease_drop :: "env \<Rightarrow> consumer \<Rightarrow> lease \<Rightarrow> ring \<Rightarrow> ring" where
  "lease_drop e c l r = (if l_released l then r else snd (consumer_release e c (l_meta l) r))"

subsection \<open>Entries that keep their state\<close>

lemma upd_entry_sel [simp]:
  "slots (upd_entry i f r) = slots r" "payloads (upd_entry i f r) = payloads r"
  "g_next_seq (upd_entry i f r) = g_next_seq r" "g_consumers (upd_entry i f r) = g_consumers r"
  "g_lock (upd_entry i f r) = g_lock r" "length (registry (upd_entry i f r)) = length (registry r)"
  "registry (upd_entry i f r) = (registry r)[i := f (registry r ! i)]"
  by (simp_all add: upd_entry_def)

lemma active_mask_states:
  assumes "map r_state (registry q) = map r_state (registry r)" and "length (registry r) = 64"
  shows "active_mask q = active_mask r"
proof (rule active_mask_cong)
  fix i assume "i < (64 :: nat)"
  moreover have "length (registry q) = 64" using arg_cong [OF assms(1), of length] assms(2) by simp
  ultimately show "r_state (registry q ! i) = REGISTRY_ACTIVE \<longleftrightarrow> r_state (registry r ! i) = REGISTRY_ACTIVE"
    using arg_cong [OF assms(1), of "\<lambda>xs. xs ! i"] assms(2) by simp
qed

lemma upd_entry_states:
  assumes "\<And>x. r_state (f x) = r_state x"
  shows "map r_state (registry (upd_entry i f r)) = map r_state (registry r)"
proof (cases "i < length (registry r)")
  case True
  then show ?thesis using assms by (simp add: map_update) (metis list_update_id nth_map)
next
  case False
  then show ?thesis by (simp add: list_update_beyond)
qed

lemma wf_upd_entry:
  assumes wf: "wf_ring cap r" and same: "\<And>x. r_state (f x) = r_state x"
  shows "wf_ring cap (upd_entry i f r)"
proof -
  note st = upd_entry_states [OF same, where i = i and r = r]
  have am: "active_mask (upd_entry i f r) = active_mask r"
    by (rule active_mask_states [OF st wf_ringD(1) [OF wf]])
  have "\<forall>y\<in>set (map r_state (registry r)). y = REGISTRY_FREE \<or> y = REGISTRY_ACTIVE"
    using wf by (simp add: wf_ring_def)
  then have "\<forall>x\<in>set (registry (upd_entry i f r)). r_state x = REGISTRY_FREE \<or> r_state x = REGISTRY_ACTIVE"
    unfolding st [symmetric] by simp
  then show ?thesis
    using wf unfolding wf_ring_def am by simp
qed

subsection \<open>The scan\<close>

definition eligible :: "consumer \<Rightarrow> slot_header \<Rightarrow> bool" where
  "eligible c h \<longleftrightarrow>
     s_state h = STATE_COMMITTED \<and> s_readers_mask h AND consumer_bit c \<noteq> 0 \<and>
     seq_newer (s_sequence h) (c_last_sequence c)"

lemma scan_still: "scan_oldest c n (still r) = oldest_in (eligible c) (slots r) n"
proof -
  have "scan_step c (still r) i best =
      (if eligible c (slots r ! i) then keep_oldest (s_sequence (slots r ! i), i) best else best)" for i best
    by (auto simp: scan_step_def still_def eligible_def keep_oldest_def Let_def split: option.split)
  then have "scan_step c (still r) =
      (\<lambda>i best. if eligible c (slots r ! i) then keep_oldest (s_sequence (slots r ! i), i) best else best)"
    by (intro ext)
  then show ?thesis by (simp only: scan_oldest_def oldest_in_def)
qed

interpretation consumer_scan: windowed "eligible c" "g_next_seq r" "windowed_slots r" for c r
  by unfold_locales
    (auto simp: windowed_slots_def eligible_def in_use_def dest!: seqs_ok_window split: if_splits)

lemma rescan_still:
  assumes "scan_oldest c n (still r) = Some best"
  shows "rescan c n (\<lambda>_. still r) m k best = best"
  using assms by (cases m) simp_all

lemma try_take_still:
  "try_take cap c n (\<lambda>_. still r) =
     (case oldest_in (eligible c) (slots r) n of
        None \<Rightarrow> None | Some (sq, s) \<Rightarrow> read_validated cap c (still r) s sq)"
  by (simp add: try_take_def rescan_still scan_still split: option.split)

text \<open>What a reader accepts and what it learns, when the slot does not move under it.\<close>

definition meta_of :: "nat \<Rightarrow> slot_header \<Rightarrow> dtype \<Rightarrow> tensor_meta" where
  "meta_of s h dt =
     \<lparr>m_sequence = s_sequence h, m_timestamp_ns = s_timestamp_ns h, m_nbytes = s_nbytes h, m_dtype = dt,
      m_ndim = unat (s_ndim h), m_shape = s_shape h, m_strides = s_strides h, m_slot_index = s,
      m_readers_remaining = of_nat (count_ones (s_readers_mask h))\<rparr>"

lemma read_validated_still:
  assumes ok: "slot_ok am cap (slots r ! s)" and el: "eligible c (slots r ! s)"
  shows "\<exists>dt. s_dtype (slots r ! s) = dtype_code dt \<and>
    read_validated cap c (still r) s (s_sequence (slots r ! s)) = Some (meta_of s (slots r ! s) dt)"
proof -
  have lens: "length (s_shape (slots r ! s)) = MAX_NDIM" "length (s_strides (slots r ! s)) = MAX_NDIM"
    using ok by (simp_all add: slot_ok_def)
  have "map (\<lambda>d. xs ! d) [0..<MAX_NDIM] = xs" if "length xs = MAX_NDIM" for xs :: "u32 list"
    using map_nth [of xs] that by simp
  note dims = this [OF lens(1)] this [OF lens(2)]
  from ok el obtain dt where "s_dtype (slots r ! s) = dtype_code dt" "unat (s_ndim (slots r ! s)) \<le> MAX_NDIM"
      "s_nbytes (slots r ! s) \<le> cap"
    by (auto simp: slot_ok_def eligible_def validate_header_ok)
  then show ?thesis
    using el by (intro exI [of _ dt])
      (simp add: read_validated_def still_def Let_def eligible_def meta_of_def dims code_table.decode_enc)
qed


lemma try_take_spec:
  assumes wf: "wf_ring cap r" and sq: "seqs_ok r"
  shows "case try_take cap c (length (slots r)) (\<lambda>_. still r) of
      None \<Rightarrow> \<forall>h\<in>set (slots r). \<not> eligible c h
    | Some m \<Rightarrow> m_slot_index m < length (slots r) \<and> eligible c (slots r ! m_slot_index m) \<and>
        s_dtype (slots r ! m_slot_index m) = dtype_code (m_dtype m) \<and>
        m = meta_of (m_slot_index m) (slots r ! m_slot_index m) (m_dtype m) \<and>
        (\<forall>j<length (slots r). eligible c (slots r ! j) \<longrightarrow>
           j = m_slot_index m \<or> seq_newer (s_sequence (slots r ! j)) (m_sequence m))"
proof (cases "oldest_in (eligible c) (slots r) (length (slots r))")
  case None
  with sq show ?thesis
    using consumer_scan.scan_None [of c r] by (simp add: try_take_still)
next
  case (Some best)
  obtain s where best: "best = (s_sequence (slots r ! s), s)" "s < length (slots r)" "eligible c (slots r ! s)"
    and oldest: "\<forall>j<length (slots r). eligible c (slots r ! j) \<longrightarrow>
      age (g_next_seq r) (s_sequence (slots r ! j)) \<le> age (g_next_seq r) (s_sequence (slots r ! s))"
    using consumer_scan.scan_Some [of c r best, unfolded consumer_scan.oldest_below_def] Some sq
    by (cases best) auto
  have "j = s \<or> seq_newer (s_sequence (slots r ! j)) (s_sequence (slots r ! s))"
    if j: "j < length (slots r)" "eligible c (slots r ! j)" for j
  proof (cases "j = s")
    case False
    have use: "in_use (slots r ! j)" "in_use (slots r ! s)"
      using j best by (simp_all add: eligible_def in_use_def)
    then have "s_sequence (slots r ! j) \<noteq> s_sequence (slots r ! s)"
      using seqs_ok_inj [OF sq j(1) best(2) use] False by blast
    moreover have "age (g_next_seq r) (s_sequence (slots r ! j)) \<le> age (g_next_seq r) (s_sequence (slots r ! s))"
      using oldest j by blast
    ultimately have "age (g_next_seq r) (s_sequence (slots r ! j)) < age (g_next_seq r) (s_sequence (slots r ! s))"
      by (simp add: order_less_le age_inject)
    moreover have "seq_newer (s_sequence (slots r ! j)) (s_sequence (slots r ! s)) \<longleftrightarrow>
        age (g_next_seq r) (s_sequence (slots r ! j)) < age (g_next_seq r) (s_sequence (slots r ! s))"
      using seqs_ok_window [OF sq j(1) use(1)] seqs_ok_window [OF sq best(2) use(2)]
      by (intro seq_newer_age) auto
    ultimately show ?thesis by simp
  qed simp
  moreover obtain dt where "s_dtype (slots r ! s) = dtype_code dt"
    "read_validated cap c (still r) s (s_sequence (slots r ! s)) = Some (meta_of s (slots r ! s) dt)"
    using read_validated_still [OF wf_ringD(6) [OF wf best(2)] best(3)] by blast
  ultimately show ?thesis
    using Some best by (simp add: try_take_still) (simp add: meta_of_def)
qed

lemma scan_any:
  assumes "scan_oldest c n tr = Some b"
  shows "snd b < n \<and> seq_newer (fst b) (c_last_sequence c)"
proof -
  have step: "scan_step c tr k best = Some b \<Longrightarrow>
      best = Some b \<or> snd b = k \<and> seq_newer (fst b) (c_last_sequence c)" for k best b
    by (auto simp: scan_step_def Let_def split: if_splits option.splits)
  have "fold (scan_step c tr) [0..<k] None = Some b \<Longrightarrow> snd b < k \<and> seq_newer (fst b) (c_last_sequence c)"
    for k b
  proof (induction k arbitrary: b)
    case 0
    then show ?case by simp
  next
    case (Suc k)
    from Suc.prems have "scan_step c tr k (fold (scan_step c tr) [0..<k] None) = Some b" by simp
    from step [OF this] Suc.IH [of b] show ?case by auto
  qed
  with assms show ?thesis by (simp add: scan_oldest_def)
qed

lemma rescan_any:
  assumes "snd b < n \<and> seq_newer (fst b) (c_last_sequence c)"
  shows "snd (rescan c n trs m k b) < n \<and> seq_newer (fst (rescan c n trs m k b)) (c_last_sequence c)"
  using assms
proof (induction c n trs m k b rule: rescan.induct)
  case (2 c n trs m k b)
  then show ?case using scan_any [of c n "trs k"] by (auto split: option.split)
qed simp

lemma try_take_any:
  assumes "try_take cap c n trs = Some m"
  shows "seq_newer (m_sequence m) (c_last_sequence c) \<and> m_slot_index m < n \<and>
    read_validated cap c (trs (n + 1)) (m_slot_index m) (m_sequence m) = Some m"
proof -
  obtain first where first: "scan_oldest c n (trs 0) = Some first"
    using assms by (auto simp: try_take_def split: option.splits)
  obtain sq s where best: "rescan c n trs n 1 first = (sq, s)" by force
  have rv: "read_validated cap c (trs (n + 1)) s sq = Some m"
    using assms first best by (simp add: try_take_def)
  moreover from this have "m_slot_index m = s" "m_sequence m = sq"
    by (auto simp: read_validated_def Let_def split: if_splits option.splits)
  moreover have "s < n" "seq_newer sq (c_last_sequence c)"
    using rescan_any [OF scan_any [OF first], of trs n 1] best by simp_all
  ultimately show ?thesis by simp
qed

lemma read_validated_bounds:
  assumes "read_validated cap c tr s sq = Some m"
  shows "m_nbytes m \<le> cap" "m_ndim m \<le> MAX_NDIM" "length (m_shape m) = MAX_NDIM" "length (m_strides m) = MAX_NDIM"
    "s_state (slots (tr 23) ! s) = STATE_COMMITTED" "s_sequence (slots (tr 24) ! s) = sq"
    "s_readers_mask (slots (tr 25) ! s) AND consumer_bit c \<noteq> 0"
  using assms by (auto simp: read_validated_def Let_def split: if_splits option.splits)

text \<open>Releasing in closed form.\<close>

lemma and_consumer_bit: "(w AND consumer_bit c = 0) \<longleftrightarrow> \<not> bit w (c_index c)"
  using and_one_bit [of w "c_index c"] bit_u64_less [of w "c_index c"]
  by (auto simp: consumer_bit_def)

definition released_ring :: "env \<Rightarrow> consumer \<Rightarrow> nat \<Rightarrow> ring \<Rightarrow> ring" where
  "released_ring e c s r =
     (heartbeat e c (upd_slot s (clear_reader (c_index c)) r))
       \<lparr>g_reclaim_futex := g_reclaim_futex r + (if last_reader (c_index c) (slots r ! s) then 1 else 0)\<rparr>"

lemma consumer_release_eq:
  assumes "m_slot_index m < length (slots r)"
  shows "consumer_release e c m r =
    (if s_sequence (slots r ! m_slot_index m) \<noteq> m_sequence m then (Inl (recycled_error m), r)
     else if \<not> bit (s_readers_mask (slots r ! m_slot_index m)) (c_index c)
     then (Inl (LeaseViolation ''lease released more than once''), r)
     else (Inr (), released_ring e c (m_slot_index m) r))"
proof -
  let ?s = "m_slot_index m" and ?i = "c_index c"
  let ?rm = "s_readers_mask (slots r ! ?s)"
  have last: "bit ?rm ?i \<Longrightarrow> ?rm AND NOT (one_bit ?i) = 0 \<longleftrightarrow> last_reader ?i (slots r ! ?s)"
    using bit_u64_less [of ?rm ?i] by (simp add: and_not_one_bit_eq_0 last_reader_def)
  have same: "\<not> bit ?rm ?i \<Longrightarrow> upd_slot ?s (\<lambda>h. h\<lparr>s_readers_mask := ?rm AND NOT (one_bit ?i)\<rparr>) r = r"
    by (simp add: upd_slot_def and_not_one_bit_id)
  have clear: "bit ?rm ?i \<Longrightarrow>
      upd_slot ?s (\<lambda>h. h\<lparr>s_readers_remaining := of_nat (count_ones (?rm AND NOT (one_bit ?i)))\<rparr>)
        (upd_slot ?s (\<lambda>h. h\<lparr>s_readers_mask := ?rm AND NOT (one_bit ?i)\<rparr>) r) =
      upd_slot ?s (clear_reader ?i) r"
    using assms by (simp add: upd_slot_upd_slot) (simp add: upd_slot_def clear_reader_def)
  have rf: "g_reclaim_futex (heartbeat e c (upd_slot s f r)) = g_reclaim_futex r" for s f
    by (simp add: heartbeat_def upd_entry_def upd_slot_def)
  have nf: "heartbeat e c q\<lparr>g_reclaim_futex := g_reclaim_futex (heartbeat e c q)\<rparr> = heartbeat e c q" for q
    by simp
  show ?thesis
    using last same clear nf [of "upd_slot ?s (clear_reader ?i) r"]
    by (simp add: consumer_release_def Let_def and_consumer_bit)
      (auto simp: consumer_bit_def released_ring_def signal_reclaim_def signal_def rf)
qed

lemma released_ring_sel [simp]:
  "slots (released_ring e c s r) = (slots r)[s := clear_reader (c_index c) (slots r ! s)]"
  "payloads (released_ring e c s r) = payloads r" "g_next_seq (released_ring e c s r) = g_next_seq r"
  "g_lock (released_ring e c s r) = g_lock r"
  "g_reclaim_futex (released_ring e c s r) =
     g_reclaim_futex r + (if last_reader (c_index c) (slots r ! s) then 1 else 0)"
  by (simp_all add: released_ring_def heartbeat_def upd_entry_def)

lemma wf_heartbeat: "wf_ring cap r \<Longrightarrow> wf_ring cap (heartbeat e c r)"
  unfolding heartbeat_def by (rule wf_upd_entry) simp_all

lemma wf_g_reclaim_futex [simp]: "wf_ring cap (r\<lparr>g_reclaim_futex := n\<rparr>) = wf_ring cap r"
  by (rule wf_ring_cong) simp_all

lemma wf_released_ring: "wf_ring cap r \<Longrightarrow> wf_ring cap (released_ring e c s r)"
  unfolding released_ring_def wf_g_reclaim_futex
  by (intro wf_heartbeat wf_upd_slot slot_ok_clear_reader [of "active_mask r"]) (auto dest: wf_ringD(6))

text \<open>The consumer of \<open>pending_ring\<close>.\<close>

definition demo_consumer :: consumer where
  "demo_consumer = \<lparr>c_index = 0, c_generation = 1, c_last_sequence = 0, c_closed = False\<rparr>"

lemma demo_eligible: "eligible demo_consumer pending_slot"
  by (simp add: eligible_def demo_consumer_def and_consumer_bit pending_slot_def seq_newer_def)

lemma seqs_ok_pending_ring: "seqs_ok pending_ring"
  unfolding seqs_ok_def by (rule seqs_within_mono [OF seqs_within_pending_ring]) simp

lemma demo_take:
  "try_take 64 demo_consumer (length (slots pending_ring)) (\<lambda>_. still pending_ring) =
     Some (meta_of 0 pending_slot U8)"
proof -
  obtain m where m: "try_take 64 demo_consumer (length (slots pending_ring)) (\<lambda>_. still pending_ring) = Some m"
    using try_take_spec [OF wf_pending_ring(1) seqs_ok_pending_ring, of demo_consumer] demo_eligible
    by (cases "try_take 64 demo_consumer (length (slots pending_ring)) (\<lambda>_. still pending_ring)")
      (simp_all add: slots_pending_ring)
  then have spec: "m_slot_index m < 2" "eligible demo_consumer (slots pending_ring ! m_slot_index m)"
    "s_dtype (slots pending_ring ! m_slot_index m) = dtype_code (m_dtype m)"
    "m = meta_of (m_slot_index m) (slots pending_ring ! m_slot_index m) (m_dtype m)"
    using try_take_spec [OF wf_pending_ring(1) seqs_ok_pending_ring, of demo_consumer] by simp_all
  have "m_slot_index m = 0"
    using spec(1,2) by (auto simp: less_Suc_eq numeral_2_eq_2 slots_pending_ring eligible_def)
  moreover from this have "m_dtype m = U8"
    using spec(3) code_table.enc_eq_iff [of U8 "m_dtype m"]
    by (simp add: slots_pending_ring pending_slot_def)
  ultimately show ?thesis using m spec(4) by (simp add: slots_pending_ring)
qed

subsection \<open>Properties\<close>

text \<open>
  Whatever other processes write between the loads of \<^verbatim>\<open>try_take\<close>, what it delivers is
  newer than everything this consumer has taken, comes from a slot of the ring, fits the slot's
  capacity and the rank the protocol allows, and was committed, of that sequence and addressed to
  the consumer at the loads that validate it.
\<close>

theorem take_safe_under_interference:
  assumes "try_take cap c n trs = Some m"
  shows "seq_newer (m_sequence m) (c_last_sequence c) \<and> m_slot_index m < n \<and>
    m_nbytes m \<le> cap \<and> m_ndim m \<le> MAX_NDIM \<and> length (m_shape m) = MAX_NDIM \<and> length (m_strides m) = MAX_NDIM \<and>
    s_state (slots (trs (n + 1) 23) ! m_slot_index m) = STATE_COMMITTED \<and>
    s_sequence (slots (trs (n + 1) 24) ! m_slot_index m) = m_sequence m \<and>
    s_readers_mask (slots (trs (n + 1) 25) ! m_slot_index m) AND consumer_bit c \<noteq> 0"
  using try_take_any [OF assms]
    read_validated_bounds [of cap c "trs (n + 1)" "m_slot_index m" "m_sequence m" m] by simp

theorem take_safe_under_interference_witness:
  "seq_newer (m_sequence (meta_of 0 pending_slot U8)) (c_last_sequence demo_consumer) \<and>
   m_nbytes (meta_of 0 pending_slot U8) \<le> 64"
  using take_safe_under_interference [OF demo_take] by blast

text \<open>
  A publication waiting for the consumer is delivered at the first attempt: the oldest
  one, with exactly the header of its slot; the data of the lease is the payload itself; the only
  thing the ring learns is the sequence taken, and a second attempt can deliver only newer ones.
\<close>

theorem next_takes_oldest:
  assumes wf: "wf_ring cap r" and sq: "seqs_ok r" and i: "c_index c < MAX_CONSUMERS"
    and some: "\<exists>h\<in>set (slots r). eligible c h"
  shows "\<exists>m c' q. next_raw W cap c timeout r = Some (Inr m, c', q) \<and>
    m_slot_index m < length (slots r) \<and> eligible c (slots r ! m_slot_index m) \<and>
    m = meta_of (m_slot_index m) (slots r ! m_slot_index m) (m_dtype m) \<and>
    (\<forall>j<length (slots r). eligible c (slots r ! j) \<longrightarrow>
       j = m_slot_index m \<or> seq_newer (s_sequence (slots r ! j)) (m_sequence m)) \<and>
    slots q = slots r \<and> payloads q = payloads r \<and> g_next_seq q = g_next_seq r \<and>
    lease_data m q = take (unat (m_nbytes m)) (payloads r ! m_slot_index m) \<and>
    length (lease_data m q) = unat (m_nbytes m) \<and>
    r_last_sequence (registry q ! c_index c) = m_sequence m \<and>
    c' = c\<lparr>c_last_sequence := m_sequence m\<rparr> \<and> wf_ring cap q \<and>
    (\<forall>n trs m'. try_take cap c' n trs = Some m' \<longrightarrow> seq_newer (m_sequence m') (m_sequence m))"
proof -
  obtain m where m: "try_take cap c (length (slots r)) (\<lambda>_. still r) = Some m"
    using try_take_spec [OF wf sq, of c] some by (auto split: option.splits)
  define q where "q = snd (take_meta (w_env W 0) c m r)"
  define c' where "c' = c\<lparr>c_last_sequence := m_sequence m\<rparr>"
  have op: "next_raw W cap c timeout r = Some (Inr m, c', q)"
    using m by (simp add: next_raw_def next_loop.simps take_meta_def q_def c'_def)
  have spec: "m_slot_index m < length (slots r)" "eligible c (slots r ! m_slot_index m)"
    "m = meta_of (m_slot_index m) (slots r ! m_slot_index m) (m_dtype m)"
    "\<forall>j<length (slots r). eligible c (slots r ! j) \<longrightarrow>
       j = m_slot_index m \<or> seq_newer (s_sequence (slots r ! j)) (m_sequence m)"
    using try_take_spec [OF wf sq, of c] m by simp_all
  have sel: "slots q = slots r" "payloads q = payloads r" "g_next_seq q = g_next_seq r"
      "g_consumers q = g_consumers r"
    by (simp_all add: q_def take_meta_def heartbeat_def upd_entry_def)
  have reg: "registry q = (registry r)[c_index c := (registry r ! c_index c)
      \<lparr>r_last_sequence := m_sequence m, r_heartbeat_ns := now_ns (w_env W 0)\<rparr>]"
    using i wf_ringD(1) [OF wf] by (simp add: q_def take_meta_def heartbeat_def upd_entry_def MAX_CONSUMERS_def)
  have "wf_ring cap q"
    unfolding q_def take_meta_def heartbeat_def snd_conv using wf by (intro wf_upd_entry) simp_all
  moreover have "m_nbytes m \<le> cap"
    using try_take_any [OF m] read_validated_bounds(1) by blast
  moreover have "unat cap \<le> length (payloads r ! m_slot_index m)"
    by (rule wf_ringD(5) [OF wf spec(1)])
  ultimately show ?thesis
    using op spec sel reg i wf_ringD(1) [OF wf]
    by (intro exI [of _ m] exI [of _ c'] exI [of _ q])
      (auto simp: lease_data_def c'_def word_le_nat_alt MAX_CONSUMERS_def dest!: try_take_any)
qed


theorem next_takes_oldest_witness:
  "\<exists>m c' q. next_raw (demo_waits 9) 64 demo_consumer 0 pending_ring = Some (Inr m, c', q) \<and>
     length (lease_data m q) = unat (m_nbytes m) \<and> c_last_sequence c' = m_sequence m"
proof -
  have "\<exists>h\<in>set (slots pending_ring). eligible demo_consumer h"
    using demo_eligible by (simp add: slots_pending_ring)
  moreover have "c_index demo_consumer < MAX_CONSUMERS"
    by (simp add: demo_consumer_def MAX_CONSUMERS_def)
  ultimately obtain m c' q where "next_raw (demo_waits 9) 64 demo_consumer 0 pending_ring = Some (Inr m, c', q)"
    "length (lease_data m q) = unat (m_nbytes m)" "c' = demo_consumer\<lparr>c_last_sequence := m_sequence m\<rparr>"
    using next_takes_oldest [OF wf_pending_ring(1) seqs_ok_pending_ring, of demo_consumer "demo_waits 9" 0]
    by blast
  then show ?thesis by simp
qed

text \<open>
  Claim C20. Releasing a lease whose slot still carries its sequence and the consumer's bit succeeds:
  it takes that bit and no other out of the mask, keeps the reader count equal to the mask, changes
  no other slot and no payload, and moves the reclaim word exactly when it was the last reader's.
  Releasing it again is refused and changes nothing.
\<close>

theorem release_spec:
  assumes wf: "wf_ring cap r" and s: "m_slot_index m < length (slots r)"
    and held: "s_sequence (slots r ! m_slot_index m) = m_sequence m"
      "bit (s_readers_mask (slots r ! m_slot_index m)) (c_index c)"
  shows "\<exists>q. consumer_release e c m r = (Inr (), q) \<and>
    (\<forall>i. bit (s_readers_mask (slots q ! m_slot_index m)) i \<longleftrightarrow>
       bit (s_readers_mask (slots r ! m_slot_index m)) i \<and> i \<noteq> c_index c) \<and>
    s_readers_remaining (slots q ! m_slot_index m) = of_nat (count_ones (s_readers_mask (slots q ! m_slot_index m))) \<and>
    s_state (slots q ! m_slot_index m) = s_state (slots r ! m_slot_index m) \<and>
    s_sequence (slots q ! m_slot_index m) = m_sequence m \<and>
    (\<forall>j<length (slots r). j \<noteq> m_slot_index m \<longrightarrow> slots q ! j = slots r ! j) \<and> payloads q = payloads r \<and>
    g_reclaim_futex q = g_reclaim_futex r + (if s_readers_mask (slots q ! m_slot_index m) = 0 then 1 else 0) \<and>
    wf_ring cap q \<and> consumer_release e c m q = (Inl (LeaseViolation ''lease released more than once''), q)"
proof -
  let ?q = "released_ring e c (m_slot_index m) r"
  have "consumer_release e c m r = (Inr (), ?q)"
    using s held by (simp add: consumer_release_eq)
  moreover have "wf_ring cap ?q" using wf by (rule wf_released_ring)
  moreover have "s_readers_mask (slots r ! m_slot_index m) \<noteq> 0" using held(2) by auto
  moreover have "s_readers_remaining (slots r ! m_slot_index m) = of_nat (count_ones (s_readers_mask (slots r ! m_slot_index m)))"
    using wf_ringD(6) [OF wf s] by (simp add: slot_ok_def)
  ultimately show ?thesis
    using s held
    by (intro exI [of _ ?q])
      (auto simp: consumer_release_eq bit_clear_reader mask_clear_reader_0 remaining_clear_reader)
qed

theorem release_spec_witness:
  "\<exists>q. consumer_release (kill_env 9 [7, 9] 1) demo_consumer (meta_of 0 pending_slot U8) pending_ring = (Inr (), q) \<and>
     g_reclaim_futex q = g_reclaim_futex pending_ring + (if s_readers_mask (slots q ! 0) = 0 then 1 else 0)"
  using release_spec [OF wf_pending_ring(1), of "meta_of 0 pending_slot U8" demo_consumer "kill_env 9 [7, 9] 1"]
  by (auto simp: meta_of_def demo_consumer_def pending_slot_def)

text \<open>What is published arrives; the Python round trip rests on it too.\<close>

lemma published_arrives:
  assumes wf: "wf_ring cap r" and sq: "seqs_within d r" "d < 2 ^ 63 - 1" and free: "lock_free r"
    and v: "view_ok v" "usize_len (v_data v) \<le> cap"
    and some: "\<exists>h\<in>set (slots (swept (w_env W 0) r)). reclaimable h"
    and c: "c_index c < MAX_CONSUMERS" "r_state (registry r ! c_index c) = REGISTRY_ACTIVE"
      "\<not> dead_entry (w_env W 0) (registry r ! c_index c)"
    and idle: "\<forall>h\<in>set (slots r). \<not> eligible c h" and new: "seq_newer (g_next_seq r) (c_last_sequence c)"
  shows "\<exists>p q m c' q'. publish W cap v policy timeout r = Some (Inr (Some p), q) \<and>
    next_raw W' cap c timeout' q = Some (Inr m, c', q') \<and>
    m_sequence m = p_sequence p \<and> m_slot_index m = p_slot_index p \<and> m_dtype m = v_dtype v \<and>
    m_ndim m = v_ndim v \<and> m_shape m = v_shape v \<and> m_strides m = v_strides v \<and>
    m_nbytes m = usize_len (v_data v) \<and> (\<forall>t. v_timestamp_ns v = Some t \<longrightarrow> m_timestamp_ns m = t) \<and>
    lease_data m q' = v_data v \<and> c_last_sequence c' = p_sequence p"
proof -
  let ?e = "w_env W 0"
  obtain s where pick: "pick_slot (swept ?e r) = Some s"
    using pick_slot_exists [OF sq(1) _ some] sq(2) by auto
  define h where "h = (reserved_header ?e (swept ?e r) (v_dtype v) (v_ndim v) (v_shape v) (v_strides v)
      (usize_len (v_data v)) (v_timestamp_ns v) (slots (swept ?e r) ! s))\<lparr>s_state := STATE_COMMITTED\<rparr>"
  define q where "q = commit_slot s (copy_payload s (v_data v)
    (reserved_ring ?e (v_dtype v) (v_ndim v) (v_shape v) (v_strides v) (usize_len (v_data v)) (v_timestamp_ns v) s r))"
  have pub: "publish W cap v policy timeout r = Some (Inr (Some \<lparr>p_sequence = g_next_seq r, p_slot_index = s,
      p_nbytes = usize_len (v_data v), p_readers = of_nat (count_ones (active_mask (swept ?e r)))\<rparr>), q)"
    unfolding q_def by (rule publish_take [OF wf free v pick])
  have s: "s < length (slots r)" "s < length (payloads r)"
    using pick_slot_reclaimable [OF pick] wf_ringD(4) [OF wf] by simp_all
  have slots: "slots q = (slots (swept ?e r))[s := h]"
    using s by (simp add: q_def h_def)
  have wfq: "wf_ring cap q" unfolding q_def by (rule wf_published [OF wf free v pick])
  have "seqs_within (Suc d) q" unfolding q_def by (rule seqs_within_published [OF sq(1) _ pick]) (use sq(2) in simp)
  then have sqq: "seqs_ok q" unfolding seqs_ok_def by (rule seqs_within_mono) (use sq(2) in simp)
  have act: "bit (active_mask (swept ?e r)) (c_index c)"
    unfolding bit_active_swept [OF wf_ringD(1) [OF wf]] using c
    by (simp add: bit_active_mask dead_consumers_iff MAX_CONSUMERS_def)
  have el: "eligible c h"
    using act new by (simp add: eligible_def h_def reserved_header_def and_consumer_bit)
  have only: "j = s" if "j < length (slots q)" "eligible c (slots q ! j)" for j
  proof (rule ccontr)
    assume "j \<noteq> s"
    with that s have "eligible c (swept_slot ?e r (slots r ! j))" "j < length (slots r)"
      by (simp_all add: slots)
    then have "eligible c (slots r ! j)"
      by (auto simp: eligible_def and_consumer_bit swept_slot_def recover_slot_def abandoned_clear_readers
          bit_clear_readers split: if_splits)
    with idle \<open>j < length (slots r)\<close> show False by simp
  qed
  obtain m where m: "try_take cap c (length (slots q)) (\<lambda>_. still q) = Some m"
    using try_take_spec [OF wfq sqq, of c] el s by (auto simp: slots set_update_memI split: option.splits)
  have spec: "m_slot_index m = s" "m = meta_of s h (m_dtype m)" "s_dtype h = dtype_code (m_dtype m)"
    using try_take_spec [OF wfq sqq, of c] m only [of "m_slot_index m"] s by (auto simp: slots)
  have fields: "m_sequence m = g_next_seq r" "m_ndim m = v_ndim v" "m_shape m = v_shape v"
    "m_strides m = v_strides v" "m_nbytes m = usize_len (v_data v)"
    "m_timestamp_ns m = (case v_timestamp_ns v of Some t \<Rightarrow> t | None \<Rightarrow> now_ns ?e)"
    using v(1) by (subst spec(2), simp add: meta_of_def h_def reserved_header_def view_ok_def MAX_NDIM_def unat_of_nat)+
  have "m_dtype m = v_dtype v"
    using spec(3) by (simp add: h_def reserved_header_def code_table.enc_eq_iff)
  moreover have "take (unat (usize_len (v_data v))) (payloads q ! s) = v_data v"
    using s v(1) by (simp add: q_def usize_len_def view_ok_def unat_of_nat_small)
  moreover have "next_raw W' cap c timeout' q = Some (Inr m, take_meta (w_env W' 0) c m q)"
    using m by (simp add: next_raw_def next_loop.simps)
  ultimately show ?thesis
    using pub fields spec(1)
    by (auto simp: take_meta_def lease_data_def heartbeat_def)
qed

lemma demo_publish_ready:
  "\<exists>h\<in>set (slots (swept (w_env (demo_waits 7) 0) pending_ring)). reclaimable h"
  "\<forall>h\<in>set (slots pending_ring). \<not> eligible (demo_consumer\<lparr>c_last_sequence := 1\<rparr>) h"
  "c_index (demo_consumer\<lparr>c_last_sequence := 1\<rparr>) < MAX_CONSUMERS"
  "r_state (registry pending_ring ! c_index (demo_consumer\<lparr>c_last_sequence := 1\<rparr>)) = REGISTRY_ACTIVE"
  "\<not> dead_entry (w_env (demo_waits 7) 0) (registry pending_ring ! c_index (demo_consumer\<lparr>c_last_sequence := 1\<rparr>))"
  "seq_newer (g_next_seq pending_ring) (c_last_sequence (demo_consumer\<lparr>c_last_sequence := 1\<rparr>))"
proof -
  have env: "w_env (demo_waits 7) 0 = kill_env 7 [7, 9] 1" by (simp add: demo_waits_def)
  have "slots (swept (kill_env 7 [7, 9] 1) pending_ring) ! 1 =
      swept_slot (kill_env 7 [7, 9] 1) pending_ring (slots pending_ring ! 1)"
    by simp
  then have "reclaimable (slots (swept (kill_env 7 [7, 9] 1) pending_ring) ! 1)"
    by (simp add: reclaimable_def slots_pending_ring)
  moreover have "slots (swept (kill_env 7 [7, 9] 1) pending_ring) ! 1 \<in> set (slots (swept (kill_env 7 [7, 9] 1) pending_ring))"
    by (rule nth_mem) simp
  ultimately show "\<exists>h\<in>set (slots (swept (w_env (demo_waits 7) 0) pending_ring)). reclaimable h"
    unfolding env by metis
  show "\<forall>h\<in>set (slots pending_ring). \<not> eligible (demo_consumer\<lparr>c_last_sequence := 1\<rparr>) h"
    by (simp add: slots_pending_ring eligible_def pending_slot_def)
qed (simp_all add: demo_consumer_def MAX_CONSUMERS_def fresh_entry_def dead_entry_def demo_waits_def seq_newer_def)



text \<open>A loop invariant of the attempts of a wait: it holds of the ring the last attempt saw.\<close>

lemma next_loop_rule:
  assumes run: "next_loop W cap c deadline k r = Some (res, c', q)" and init: "I r"
    and step: "\<And>k r. I r \<Longrightarrow> I (w_other W k r)"
  shows "\<exists>p j. I p \<and> (case res of
      Inl err \<Rightarrow> err = Timeout \<and> c' = c \<and> q = p
    | Inr m \<Rightarrow> try_take cap c (length (slots p)) (\<lambda>_. still p) = Some m \<and> (c', q) = take_meta (w_env W j) c m p)"
proof -
  define post where "post z \<longleftrightarrow> (\<exists>p j. I p \<and> (case fst z of
      Inl err \<Rightarrow> err = Timeout \<and> snd z = (c, p)
    | Inr m \<Rightarrow> try_take cap c (length (slots p)) (\<lambda>_. still p) = Some m \<and> snd z = take_meta (w_env W j) c m p))" for z
  have postI: "I p \<Longrightarrow> post (Inl Timeout, c, p)"
    "I p \<Longrightarrow> try_take cap c (length (slots p)) (\<lambda>_. still p) = Some m \<Longrightarrow> post (Inr m, take_meta (w_env W j) c m p)"
    for p m j
    by (auto simp: post_def)
  have "V = W \<longrightarrow> cap' = cap \<longrightarrow> d = c \<longrightarrow> I r \<longrightarrow> post z" if "next_loop V cap' d deadline k r = Some z" for V cap' d z
  proof (rule next_loop.raw_induct [where P = "\<lambda>V cap' d deadline k r z. V = W \<longrightarrow> cap' = cap \<longrightarrow> d = c \<longrightarrow> I r \<longrightarrow> post z",
        OF _ that], intro impI, goal_cases)
    case (1 loop V cap' d deadline k r z)
    then show ?case using step [of r k] by (auto split: option.splits if_splits dest: postI)
  qed
  from this [OF run] init have "post (res, c', q)" by simp
  then show ?thesis by (auto simp: post_def split: sum.splits)
qed

lemma next_loop_returns:
  assumes late: "w_start W + timeout \<le> w_now W n" and k: "k \<le> n"
  shows "\<exists>res c' q. next_loop W cap c (w_start W + timeout) k r = Some (res, c', q) \<and>
    (\<forall>err. res = Inl err \<longrightarrow> err = Timeout \<and> c' = c \<and> (\<exists>k\<le>n. w_start W + timeout \<le> w_now W k) \<and>
       try_take cap c (length (slots q)) (\<lambda>_. still q) = None)"
  using k
proof (induction "n - k" arbitrary: k r rule: less_induct)
  case less
  show ?case
  proof (cases "try_take cap c (length (slots r)) (\<lambda>_. still r)")
    case None
    show ?thesis
    proof (cases "w_start W + timeout \<le> w_now W k")
      case True
      with None less.prems show ?thesis by (auto simp: next_loop.simps [of W cap c _ k r])
    next
      case False
      with late less.prems have "k < n" by (metis order_le_less)
      with less.hyps [of "Suc k" "w_other W k r"] None False show ?thesis
        by (subst next_loop.simps) simp
    qed
  next
    case (Some m)
    then show ?thesis by (subst next_loop.simps) (simp add: take_meta_def)
  qed
qed




text \<open>
  Closing a consumer whose lease is still out makes the release of that lease a lease
  violation, the error documented as a bug that is never normal: the close has already taken the bit
  the release looks for.
\<close>

theorem close_then_release_violates:
  assumes wf: "wf_ring cap r" and free: "lock_free r" and c: "\<not> c_closed c" "m_slot_index m < length (slots r)"
    and held: "s_sequence (slots r ! m_slot_index m) = m_sequence m"
      "bit (s_readers_mask (slots r ! m_slot_index m)) (c_index c)"
  shows "\<exists>c' q. consumer_close e c r = Some (c', q) \<and>
    fst (consumer_release e c' m q) = Inl (LeaseViolation ''lease released more than once'')"
proof -
  obtain l where l: "lock_registry e r = Some (r\<lparr>g_lock := l\<rparr>)"
    using lock_registry_free [OF free, of e] by simp
  have "slots (unlock_registry (without_consumer (c_index c) (r\<lparr>g_lock := l\<rparr>))) = map (clear_reader (c_index c)) (slots r)"
    by (simp add: unlock_registry_eq without_consumer_def)
  then show ?thesis
    using c held by (simp add: consumer_close_eq l consumer_release_eq bit_clear_reader)
qed

theorem close_then_release_violates_witness:
  "\<exists>c' q. consumer_close (kill_env 9 [7, 9] 1) demo_consumer pending_ring = Some (c', q) \<and>
    fst (consumer_release (kill_env 9 [7, 9] 1) c' (meta_of 0 pending_slot U8) q) =
      Inl (LeaseViolation ''lease released more than once'')"
  by (rule close_then_release_violates [OF wf_pending_ring])
    (simp_all add: demo_consumer_def meta_of_def pending_slot_def)

text \<open>
  A closed consumer handle still takes and releases: neither operation looks at the closed
  flag or at the generation of its registry entry. When the entry has been given to another
  consumer, the publication so released is gone for that consumer too.
\<close>

theorem closed_handle_takes:
  assumes wf: "wf_ring cap r" and sq: "seqs_ok r" and c: "c_closed c" "c_index c < MAX_CONSUMERS"
    and some: "\<exists>h\<in>set (slots r). eligible c h"
  shows "\<exists>m c' q q'. next_raw W cap c timeout r = Some (Inr m, c', q) \<and> c_closed c' \<and>
    consumer_release e c' m q = (Inr (), q') \<and>
    (\<forall>c2. c_index c2 = c_index c \<longrightarrow> \<not> eligible c2 (slots q' ! m_slot_index m))"
proof -
  obtain m where m: "try_take cap c (length (slots r)) (\<lambda>_. still r) = Some m"
    using try_take_spec [OF wf sq, of c] some by (auto split: option.splits)
  then have s: "m_slot_index m < length (slots r)" "eligible c (slots r ! m_slot_index m)"
      "m_sequence m = s_sequence (slots r ! m_slot_index m)"
    using try_take_spec [OF wf sq, of c] by (simp_all, metis meta_of_def tensor_meta.select_convs(1))
  define c' q where "c' = fst (take_meta (w_env W 0) c m r)" and "q = snd (take_meta (w_env W 0) c m r)"
  have op: "next_raw W cap c timeout r = Some (Inr m, c', q)"
    using m by (simp add: next_raw_def next_loop.simps c'_def q_def)
  have c': "c_closed c'" "c_index c' = c_index c" "slots q = slots r"
    using c by (simp_all add: c'_def q_def take_meta_def heartbeat_def)
  then show ?thesis
    using op s by (intro exI [of _ m] exI [of _ c'] exI [of _ q]
        exI [of _ "released_ring e c' (m_slot_index m) q"])
      (auto simp: consumer_release_eq eligible_def and_consumer_bit bit_clear_reader)
qed

theorem closed_handle_takes_witness:
  "\<exists>m c' q q'. next_raw (demo_waits 9) 64 (demo_consumer\<lparr>c_closed := True\<rparr>) 0 pending_ring = Some (Inr m, c', q) \<and>
    c_closed c' \<and> consumer_release (kill_env 9 [7, 9] 1) c' m q = (Inr (), q') \<and>
    \<not> eligible demo_consumer (slots q' ! m_slot_index m)"
proof -
  have "\<exists>h\<in>set (slots pending_ring). eligible (demo_consumer\<lparr>c_closed := True\<rparr>) h"
    using demo_eligible by (simp add: slots_pending_ring eligible_def consumer_bit_def)
  then obtain m c' q q' where "next_raw (demo_waits 9) 64 (demo_consumer\<lparr>c_closed := True\<rparr>) 0 pending_ring =
      Some (Inr m, c', q)" "c_closed c'" "consumer_release (kill_env 9 [7, 9] 1) c' m q = (Inr (), q')"
    "\<forall>c2. c_index c2 = c_index (demo_consumer\<lparr>c_closed := True\<rparr>) \<longrightarrow> \<not> eligible c2 (slots q' ! m_slot_index m)"
    using closed_handle_takes [OF wf_pending_ring(1) seqs_ok_pending_ring, of "demo_consumer\<lparr>c_closed := True\<rparr>"
        "demo_waits 9" 0 "kill_env 9 [7, 9] 1"]
    by (auto simp: demo_consumer_def MAX_CONSUMERS_def)
  then show ?thesis by auto
qed

end
