(* ===== verification/SlotSteps.thy ===== *)
theory SlotSteps
  imports Consumer
begin

text \<open>
  The life of one slot, store by store, under everybody who touches it: the producer that reserves,
  fills and commits or aborts, the sweeper that recovers it, and the consumers that release it. The
  rest of the development runs an operation at a time; here a writer has made only some of its
  stores when a reader loads. Loads and stores of one word are atomic and seen in one order;
  \<open>MemoryOrder\<close> has the same slot under the orderings the source asks for.
\<close>

unbundle bit_operations_syntax

subsection \<open>Stores\<close>

record cell =
  ce_head :: slot_header
  ce_data :: "u8 list"

datatype store =
    StState u32
  | StPid u32
  | StToken u32
  | StSequence u64
  | StTimestamp u64
  | StNbytes u64
  | StDtype u8
  | StNdim u8
  | StFlags u32
  | StShape nat u32
  | StStride nat u32
  | StMask u64
  | StReaders u16
  | StByte nat u8

fun head_store :: "store \<Rightarrow> slot_header \<Rightarrow> slot_header" where
  "head_store (StState v) h = h\<lparr>s_state := v\<rparr>"
| "head_store (StPid v) h = h\<lparr>s_producer_pid := v\<rparr>"
| "head_store (StToken v) h = h\<lparr>s_producer_start_token := v\<rparr>"
| "head_store (StSequence v) h = h\<lparr>s_sequence := v\<rparr>"
| "head_store (StTimestamp v) h = h\<lparr>s_timestamp_ns := v\<rparr>"
| "head_store (StNbytes v) h = h\<lparr>s_nbytes := v\<rparr>"
| "head_store (StDtype v) h = h\<lparr>s_dtype := v\<rparr>"
| "head_store (StNdim v) h = h\<lparr>s_ndim := v\<rparr>"
| "head_store (StFlags v) h = h\<lparr>s_flags := v\<rparr>"
| "head_store (StShape d v) h = h\<lparr>s_shape := (s_shape h)[d := v]\<rparr>"
| "head_store (StStride d v) h = h\<lparr>s_strides := (s_strides h)[d := v]\<rparr>"
| "head_store (StMask v) h = h\<lparr>s_readers_mask := v\<rparr>"
| "head_store (StReaders v) h = h\<lparr>s_readers_remaining := v\<rparr>"
| "head_store (StByte k v) h = h"

fun data_store :: "store \<Rightarrow> u8 list \<Rightarrow> u8 list" where
  "data_store (StByte k v) bs = bs[k := v]"
| "data_store _ bs = bs"

definition exec :: "store \<Rightarrow> cell \<Rightarrow> cell" where
  "exec st c = \<lparr>ce_head = head_store st (ce_head c), ce_data = data_store st (ce_data c)\<rparr>"

text \<open>A store to slot \<open>s\<close> of a mapping.\<close>

definition store_at :: "nat \<Rightarrow> store \<Rightarrow> ring \<Rightarrow> ring" where
  "store_at s st r =
     r\<lparr>slots := (slots r)[s := head_store st (slots r ! s)],
       payloads := (payloads r)[s := data_store st (payloads r ! s)]\<rparr>"

subsection \<open>What the operations store\<close>

record reservation =
  rv_pid :: u32
  rv_token :: u32
  rv_sequence :: u64
  rv_timestamp :: u64
  rv_nbytes :: u64
  rv_dtype :: u8
  rv_ndim :: u8
  rv_shape :: "u32 list"
  rv_strides :: "u32 list"
  rv_mask :: u64

definition field_stores :: "reservation \<Rightarrow> store list" where
  "field_stores v =
     [StPid (rv_pid v), StToken (rv_token v), StSequence (rv_sequence v), StTimestamp (rv_timestamp v),
      StNbytes (rv_nbytes v), StDtype (rv_dtype v), StNdim (rv_ndim v), StFlags 0] @
     concat (map (\<lambda>d. [StShape d (rv_shape v ! d), StStride d (rv_strides v ! d)]) [0..<MAX_NDIM])"

definition header_stores :: "reservation \<Rightarrow> store list" where
  "header_stores v =
     StState STATE_WRITING # field_stores v @
     [StMask (rv_mask v), StReaders (of_nat (count_ones (rv_mask v)))]"

definition recover_stores :: "store list" where
  "recover_stores = [StMask 0, StReaders 0, StState STATE_FREE]"

text \<open>
  A job is the sequence of stores one party makes to the slot: a publication and an aborted direct
  write, each with the stores made while the slot is \<^verbatim>\<open>WRITING\<close> (payload bytes, and the timestamp of
  \<^verbatim>\<open>set_timestamp_ns\<close>), and the recovery of an abandoned slot.
\<close>

datatype job =
    Publication reservation "store list"
  | Aborted reservation "store list"
  | Recovery

fun program :: "job \<Rightarrow> store list" where
  "program (Publication v body) = header_stores v @ body @ [StState STATE_COMMITTED]"
| "program (Aborted v body) = header_stores v @ body @ recover_stores"
| "program Recovery = recover_stores"

fun body_store :: "store \<Rightarrow> bool" where
  "body_store (StTimestamp _) = True"
| "body_store (StByte _ _) = True"
| "body_store _ = False"

definition copy_stores :: "u8 list \<Rightarrow> store list" where
  "copy_stores data = map (\<lambda>k. StByte k (data ! k)) [0..<length data]"

subsection \<open>The operations of the ring as stores\<close>

lemma store_at_head:
  assumes "\<And>bs. data_store st bs = bs"
  shows "store_at s st r = upd_slot s (head_store st) r"
  by (simp add: store_at_def upd_slot_def assms)

lemma store_at_upd [simp]:
  "store_at s (StState v) r = upd_slot s (\<lambda>h. h\<lparr>s_state := v\<rparr>) r"
  "store_at s (StPid x) r = upd_slot s (\<lambda>h. h\<lparr>s_producer_pid := x\<rparr>) r"
  "store_at s (StToken x) r = upd_slot s (\<lambda>h. h\<lparr>s_producer_start_token := x\<rparr>) r"
  "store_at s (StSequence q) r = upd_slot s (\<lambda>h. h\<lparr>s_sequence := q\<rparr>) r"
  "store_at s (StTimestamp q) r = upd_slot s (\<lambda>h. h\<lparr>s_timestamp_ns := q\<rparr>) r"
  "store_at s (StNbytes q) r = upd_slot s (\<lambda>h. h\<lparr>s_nbytes := q\<rparr>) r"
  "store_at s (StDtype b) r = upd_slot s (\<lambda>h. h\<lparr>s_dtype := b\<rparr>) r"
  "store_at s (StNdim b) r = upd_slot s (\<lambda>h. h\<lparr>s_ndim := b\<rparr>) r"
  "store_at s (StFlags x) r = upd_slot s (\<lambda>h. h\<lparr>s_flags := x\<rparr>) r"
  "store_at s (StShape d x) r = upd_slot s (\<lambda>h. h\<lparr>s_shape := (s_shape h)[d := x]\<rparr>) r"
  "store_at s (StStride d x) r = upd_slot s (\<lambda>h. h\<lparr>s_strides := (s_strides h)[d := x]\<rparr>) r"
  "store_at s (StMask q) r = upd_slot s (\<lambda>h. h\<lparr>s_readers_mask := q\<rparr>) r"
  "store_at s (StReaders n) r = upd_slot s (\<lambda>h. h\<lparr>s_readers_remaining := n\<rparr>) r"
  by (simp_all add: store_at_def upd_slot_def)

lemma fold_concat_pairs:
  "fold f (concat (map (\<lambda>d. [g d, h d]) ds)) r = fold (\<lambda>d r. f (h d) (f (g d) r)) ds r"
  by (induction ds arbitrary: r) simp_all

lemma store_dims_stores:
  "store_dims s shape strides r =
     fold (store_at s) (concat (map (\<lambda>d. [StShape d (shape ! d), StStride d (strides ! d)]) [0..<MAX_NDIM])) r"
  by (simp only: store_dims_def fold_concat_pairs store_at_upd)

definition reservation_of ::
  "env \<Rightarrow> dtype \<Rightarrow> nat \<Rightarrow> u32 list \<Rightarrow> u32 list \<Rightarrow> usize \<Rightarrow> u64 option \<Rightarrow> ring \<Rightarrow> reservation" where
  "reservation_of e dt ndim shape strides nbytes ts r =
     \<lparr>rv_pid = e_pid e, rv_token = pid_start_token e (e_pid e), rv_sequence = g_next_seq r,
      rv_timestamp = (case ts of Some t \<Rightarrow> t | None \<Rightarrow> now_ns e), rv_nbytes = nbytes, rv_dtype = dtype_code dt,
      rv_ndim = of_nat ndim, rv_shape = shape, rv_strides = strides, rv_mask = active_mask r\<rparr>"

lemma reserve_stores:
  "reserve_header e dt ndim shape strides nbytes ts r =
     (let q = reap_dead e r; v = reservation_of e dt ndim shape strides nbytes ts q
      in case pick_slot q of
           None \<Rightarrow> (None, q)
         | Some s \<Rightarrow>
             (Some (s, g_next_seq q, active_mask q),
              (fold (store_at s) (header_stores v) q)\<lparr>g_next_seq := g_next_seq q + 1\<rparr>))"
  unfolding reserve_header_def header_stores_def field_stores_def reservation_of_def Let_def
  by (simp add: store_dims_stores split: option.split)

lemma copy_stores_below:
  assumes "s < length (payloads r)" "n \<le> length data" "n \<le> length (payloads r ! s)"
  shows "fold (store_at s) (map (\<lambda>k. StByte k (data ! k)) [0..<n]) r = copy_payload s (take n data) r"
  using assms(2,3)
proof (induction n)
  case 0
  show ?case by (simp add: copy_payload_def)
next
  case (Suc n)
  let ?r = "copy_payload s (take n data) r"
  have "payloads ?r ! s = take n data @ drop n (payloads r ! s)" "slots ?r = slots r"
    using assms(1) Suc.prems by (simp_all add: copy_payload_def min_def)
  moreover have "(take n data @ drop n (payloads r ! s))[n := data ! n] = take (Suc n) data @ drop (Suc n) (payloads r ! s)"
    using Suc.prems by (simp add: list_update_append take_Suc_conv_app_nth Cons_nth_drop_Suc [symmetric] min_def)
  ultimately have "store_at s (StByte n (data ! n)) ?r = copy_payload s (take (Suc n) data) r"
    using Suc.prems by (simp add: store_at_def) (simp add: copy_payload_def min_def)
  with Suc show ?case by simp
qed

lemma copy_payload_stores:
  "s < length (payloads r) \<Longrightarrow> length data \<le> length (payloads r ! s) \<Longrightarrow>
   copy_payload s data r = fold (store_at s) (copy_stores data) r"
  using copy_stores_below [of s r "length data" data] by (simp add: copy_stores_def)

subsection \<open>One slot under everybody\<close>

record slot_world =
  w_cell :: cell
  w_run :: "(job \<times> cell \<times> nat) option"
  w_log :: "(job \<times> cell) list"

text \<open>
  \<open>w_run\<close> is the job under way, the cell it found and how many of its stores are done; \<open>w_log\<close>
  records, as a ghost, the publications committed so far with the cell each found. \<open>slot_step i\<close> is
  any step but a release by consumer \<open>i\<close>, which is registered and alive: every reservation then has
  its bit, and only the other consumers' bits are cleared. A job may stop at any store (its process
  dies). Jobs exclude each other: the lock serialises reservations and recoveries, and a slot is
  recovered only after its writer has died. The mirror count may hold anything, as its stores are
  not ordered with those of the mask.
\<close>

abbreviation w_head :: "slot_world \<Rightarrow> slot_header" where
  "w_head w \<equiv> ce_head (w_cell w)"

fun starts :: "nat \<Rightarrow> job \<Rightarrow> slot_header \<Rightarrow> bool" where
  "starts i (Publication v body) h \<longleftrightarrow> reclaimable h \<and> bit (rv_mask v) i \<and> list_all body_store body"
| "starts i (Aborted v body) h \<longleftrightarrow> reclaimable h \<and> bit (rv_mask v) i \<and> list_all body_store body"
| "starts i Recovery h \<longleftrightarrow> s_state h = STATE_WRITING"

fun logged :: "job \<Rightarrow> cell \<Rightarrow> (job \<times> cell) list \<Rightarrow> (job \<times> cell) list" where
  "logged (Publication v body) b log = (Publication v body, b) # log"
| "logged _ b log = log"

inductive slot_step :: "nat \<Rightarrow> slot_world \<Rightarrow> slot_world \<Rightarrow> bool" for i where
  sl_begin:
    "w_run w = None \<Longrightarrow> starts i j (w_head w) \<Longrightarrow>
     slot_step i w (w\<lparr>w_run := Some (j, w_cell w, 0)\<rparr>)"
| sl_store:
    "w_run w = Some (j, b, k) \<Longrightarrow> Suc k < length (program j) \<Longrightarrow>
     slot_step i w (w\<lparr>w_cell := exec (program j ! k) (w_cell w), w_run := Some (j, b, Suc k)\<rparr>)"
| sl_last:
    "w_run w = Some (j, b, k) \<Longrightarrow> Suc k = length (program j) \<Longrightarrow>
     slot_step i w (w\<lparr>w_cell := exec (program j ! k) (w_cell w), w_run := None, w_log := logged j b (w_log w)\<rparr>)"
| sl_die:
    "slot_step i w (w\<lparr>w_run := None\<rparr>)"
| sl_release:
    "j \<noteq> i \<Longrightarrow>
     slot_step i w (w\<lparr>w_cell := exec (StMask (s_readers_mask (w_head w) AND NOT (one_bit j))) (w_cell w)\<rparr>)"
| sl_mirror:
    "slot_step i w (w\<lparr>w_cell := exec (StReaders n) (w_cell w)\<rparr>)"

text \<open>What a reader learns of a cell: all but the mask and its mirror, which keep changing.\<close>

definition core :: "cell \<Rightarrow> cell" where
  "core c = c\<lparr>ce_head := (ce_head c)\<lparr>s_readers_mask := 0, s_readers_remaining := 0\<rparr>\<rparr>"

lemma core_exec: "core a = core b \<Longrightarrow> core (exec st a) = core (exec st b)"
  by (cases st; cases a; cases b; cases "ce_head a"; cases "ce_head b") (auto simp: core_def exec_def)

lemma core_mask [simp]: "core (exec (StMask m) c) = core c" "core (exec (StReaders n) c) = core c"
  by (simp_all add: core_def exec_def)

lemma core_eqD:
  assumes "core a = core b"
  shows "s_state (ce_head a) = s_state (ce_head b)" "s_sequence (ce_head a) = s_sequence (ce_head b)"
    "s_timestamp_ns (ce_head a) = s_timestamp_ns (ce_head b)" "s_nbytes (ce_head a) = s_nbytes (ce_head b)"
    "s_dtype (ce_head a) = s_dtype (ce_head b)" "s_ndim (ce_head a) = s_ndim (ce_head b)"
    "s_shape (ce_head a) = s_shape (ce_head b)" "s_strides (ce_head a) = s_strides (ce_head b)"
    "ce_data a = ce_data b"
proof -
  have h: "(ce_head a)\<lparr>s_readers_mask := 0, s_readers_remaining := 0\<rparr> =
      (ce_head b)\<lparr>s_readers_mask := 0, s_readers_remaining := 0\<rparr>"
    using arg_cong [OF assms, of ce_head] by (simp add: core_def)
  show "s_state (ce_head a) = s_state (ce_head b)" using arg_cong [OF h, of s_state] by simp
  show "s_sequence (ce_head a) = s_sequence (ce_head b)" using arg_cong [OF h, of s_sequence] by simp
  show "s_timestamp_ns (ce_head a) = s_timestamp_ns (ce_head b)" using arg_cong [OF h, of s_timestamp_ns] by simp
  show "s_nbytes (ce_head a) = s_nbytes (ce_head b)" using arg_cong [OF h, of s_nbytes] by simp
  show "s_dtype (ce_head a) = s_dtype (ce_head b)" using arg_cong [OF h, of s_dtype] by simp
  show "s_ndim (ce_head a) = s_ndim (ce_head b)" using arg_cong [OF h, of s_ndim] by simp
  show "s_shape (ce_head a) = s_shape (ce_head b)" using arg_cong [OF h, of s_shape] by simp
  show "s_strides (ce_head a) = s_strides (ce_head b)" using arg_cong [OF h, of s_strides] by simp
  show "ce_data a = ce_data b" using arg_cong [OF assms, of ce_data] by (simp add: core_def)
qed

text \<open>The mask the stores of a program leave, and the states they go through.\<close>

fun mask_after :: "u64 \<Rightarrow> store list \<Rightarrow> u64" where
  "mask_after m [] = m"
| "mask_after m (StMask v # ss) = mask_after v ss"
| "mask_after m (_ # ss) = mask_after m ss"

lemma mask_after_append [simp]: "mask_after m (xs @ ys) = mask_after (mask_after m xs) ys"
  by (induction m xs rule: mask_after.induct) simp_all

lemma mask_after_last: "mask_after m [st] = (case st of StMask v \<Rightarrow> v | _ \<Rightarrow> m)"
  by (cases st) simp_all

lemma exec_mask: "s_readers_mask (ce_head (exec st c)) = (case st of StMask v \<Rightarrow> v | _ \<Rightarrow> s_readers_mask (ce_head c))"
  by (cases st) (simp_all add: exec_def)

fun changes_mask :: "store \<Rightarrow> bool" where
  "changes_mask (StMask _) = True"
| "changes_mask _ = False"

fun changes_state :: "store \<Rightarrow> bool" where
  "changes_state (StState _) = True"
| "changes_state _ = False"

lemma mask_after_quiet: "\<forall>st\<in>set ss. \<not> changes_mask st \<Longrightarrow> mask_after m ss = m"
  by (induction m ss rule: mask_after.induct) simp_all

lemma state_quiet:
  "\<forall>st\<in>set ss. \<not> changes_state st \<Longrightarrow> s_state (ce_head (fold exec ss c)) = s_state (ce_head c)"
proof (induction ss arbitrary: c)
  case (Cons st ss)
  then have "s_state (ce_head (exec st c)) = s_state (ce_head c)"
    by (cases st) (simp_all add: exec_def)
  with Cons show ?case by simp
qed simp

lemma body_quiet:
  assumes "list_all body_store body" "st \<in> set body"
  shows "\<not> changes_mask st" "\<not> changes_state st"
  using assms by (cases st; force simp: list_all_iff)+

lemma field_quiet:
  assumes "st \<in> set (field_stores v)"
  shows "\<not> changes_mask st" "\<not> changes_state st"
  using assms by (auto simp: field_stores_def)

text \<open>
  The mask a job works with before its own mask store: none for a reservation, which takes an unread
  slot, and any for a recovery.
\<close>

fun mask_before :: "job \<Rightarrow> u64" where
  "mask_before Recovery = NOT 0"
| "mask_before _ = 0"

definition mask_bound :: "job \<Rightarrow> nat \<Rightarrow> u64" where
  "mask_bound j k = mask_after (mask_before j) (take k (program j))"

lemma mask_bound_Suc:
  "k < length (program j) \<Longrightarrow>
   mask_bound j (Suc k) = (case program j ! k of StMask v \<Rightarrow> v | _ \<Rightarrow> mask_bound j k)"
  by (cases "program j ! k") (simp_all add: mask_bound_def take_Suc_conv_app_nth)


lemma mask_after_take: "mask_after m (take k ss) = m \<or> StMask (mask_after m (take k ss)) \<in> set ss"
proof (induction m ss arbitrary: k rule: mask_after.induct)
  case (1 m)
  show ?case by simp
qed (rename_tac k, case_tac k; fastforce)+

lemma header_stores_mask: "StMask m \<in> set (header_stores v) \<longleftrightarrow> m = rv_mask v"
  using field_quiet(1) [of "StMask m" v] by (auto simp: header_stores_def)

lemma mask_after_header [simp]: "mask_after m (header_stores v) = rv_mask v"
  by (simp add: header_stores_def mask_after_quiet field_quiet)

lemma mask_bound_publication:
  assumes "list_all body_store body"
  shows "mask_bound (Publication v body) k = 0 \<or> mask_bound (Publication v body) k = rv_mask v"
  using mask_after_take [of 0 k "program (Publication v body)"] body_quiet(1) [OF assms, of "StMask m" for m]
  by (auto simp: mask_bound_def header_stores_mask)

lemma mask_bound_last:
  assumes "list_all body_store body"
  shows "Suc k = length (program (Publication v body)) \<Longrightarrow> mask_bound (Publication v body) k = rv_mask v"
    and "Suc k = length (program (Aborted v body)) \<Longrightarrow> mask_bound (Aborted v body) k = 0"
    and "Suc k = length (program Recovery) \<Longrightarrow> mask_bound Recovery k = 0"
proof -
  have quiet: "mask_after m body = m" for m
    using body_quiet(1) [OF assms] by (intro mask_after_quiet) blast
  show "Suc k = length (program (Publication v body)) \<Longrightarrow> mask_bound (Publication v body) k = rv_mask v"
    by (simp add: mask_bound_def quiet)
  show "Suc k = length (program (Aborted v body)) \<Longrightarrow> mask_bound (Aborted v body) k = 0"
    by (simp add: mask_bound_def recover_stores_def)
  show "Suc k = length (program Recovery) \<Longrightarrow> mask_bound Recovery k = 0"
    by (simp add: mask_bound_def recover_stores_def numeral_2_eq_2)
qed

fun final_state :: "job \<Rightarrow> u32" where
  "final_state (Publication _ _) = STATE_COMMITTED"
| "final_state _ = STATE_FREE"

fun job_ok :: "job \<Rightarrow> cell \<Rightarrow> bool" where
  "job_ok (Publication v body) b \<longleftrightarrow> list_all body_store body"
| "job_ok (Aborted v body) b \<longleftrightarrow> list_all body_store body"
| "job_ok Recovery b \<longleftrightarrow> s_state (ce_head b) = STATE_WRITING"

lemma program_shape:
  assumes "job_ok j b"
  obtains q where "\<forall>st\<in>set q. \<not> changes_state st"
    "program j = (if j = Recovery then q else StState STATE_WRITING # q) @ [StState (final_state j)]"
proof (cases j)
  case (Publication v body)
  show thesis
  proof (rule that)
    show "\<forall>st\<in>set (tl (header_stores v) @ body). \<not> changes_state st"
      using assms Publication body_quiet(2) [of body] field_quiet(2) [of _ v] by (auto simp: header_stores_def)
    show "program j = (if j = Recovery then tl (header_stores v) @ body
        else StState STATE_WRITING # tl (header_stores v) @ body) @ [StState (final_state j)]"
      using Publication by (simp add: header_stores_def)
  qed
next
  case (Aborted v body)
  show thesis
  proof (rule that)
    show "\<forall>st\<in>set (tl (header_stores v) @ body @ [StMask 0, StReaders 0]). \<not> changes_state st"
      using assms Aborted body_quiet(2) [of body] field_quiet(2) [of _ v] by (auto simp: header_stores_def)
    show "program j = (if j = Recovery then tl (header_stores v) @ body @ [StMask 0, StReaders 0]
        else StState STATE_WRITING # tl (header_stores v) @ body @ [StMask 0, StReaders 0]) @ [StState (final_state j)]"
      using Aborted by (simp add: header_stores_def recover_stores_def)
  qed
next
  case Recovery
  show thesis
    by (rule that [of "[StMask 0, StReaders 0]"]) (simp_all add: Recovery recover_stores_def)
qed

lemma state_during:
  assumes ok: "job_ok j b" and k: "k < length (program j)" "0 < k \<or> j = Recovery"
  shows "s_state (ce_head (fold exec (take k (program j)) b)) = STATE_WRITING"
proof -
  obtain q where q: "\<forall>st\<in>set q. \<not> changes_state st"
    "program j = (if j = Recovery then q else StState STATE_WRITING # q) @ [StState (final_state j)]"
    using ok by (rule program_shape)
  have quiet: "\<forall>st\<in>set (take n q). \<not> changes_state st" for n
    using q(1) by (auto dest: in_set_takeD)
  show ?thesis
  proof (cases "j = Recovery")
    case True
    have shape: "program j = q @ [StState (final_state j)]" using q(2) unfolding if_P [OF True] .
    have "take k (program j) = take k q" using k(1) unfolding shape by simp
    with True ok quiet show ?thesis by (simp add: state_quiet)
  next
    case False
    with q(2) k have "take k (program j) = StState STATE_WRITING # take (k - 1) q"
      by (cases k) simp_all
    with quiet show ?thesis by (simp add: state_quiet) (simp add: exec_def)
  qed
qed

lemma state_at_end:
  assumes "job_ok j b"
  shows "s_state (ce_head (fold exec (program j) b)) = final_state j"
  using assms by (rule program_shape) (simp add: exec_def)

lemma program_last: "job_ok j b \<Longrightarrow> Suc k = length (program j) \<Longrightarrow> program j ! k = StState (final_state j)"
  by (erule program_shape) (auto simp: nth_append split: if_splits)

subsection \<open>The invariant of a slot\<close>

definition dims_ok :: "cell \<Rightarrow> bool" where
  "dims_ok c \<longleftrightarrow> length (s_shape (ce_head c)) = MAX_NDIM \<and> length (s_strides (ce_head c)) = MAX_NDIM"

definition written :: "job \<times> cell \<Rightarrow> cell \<Rightarrow> bool" where
  "written jb c \<longleftrightarrow> core c = core (fold exec (program (fst jb)) (snd jb))"

definition log_ok :: "(job \<times> cell) list \<Rightarrow> bool" where
  "log_ok log \<longleftrightarrow>
     (\<forall>jb\<in>set log. \<exists>v body b. jb = (Publication v body, b) \<and> list_all body_store body \<and> dims_ok b)"

definition run_ok :: "cell \<Rightarrow> job \<times> cell \<times> nat \<Rightarrow> bool" where
  "run_ok c = (\<lambda>(j, b, k). k < length (program j) \<and> job_ok j b \<and> dims_ok b \<and>
     core c = core (fold exec (take k (program j)) b) \<and>
     (\<forall>x. bit (s_readers_mask (ce_head c)) x \<longrightarrow> bit (mask_bound j k) x))"

definition slot_inv :: "slot_world \<Rightarrow> bool" where
  "slot_inv w \<longleftrightarrow>
     s_state (w_head w) \<in> {STATE_FREE, STATE_COMMITTED, STATE_WRITING} \<and>
     (s_state (w_head w) = STATE_FREE \<longrightarrow> s_readers_mask (w_head w) = 0) \<and>
     (s_state (w_head w) = STATE_COMMITTED \<longrightarrow> (\<exists>jb\<in>set (w_log w). written jb (w_cell w))) \<and>
     dims_ok (w_cell w) \<and> log_ok (w_log w) \<and> (\<forall>run. w_run w = Some run \<longrightarrow> run_ok (w_cell w) run)"

lemma dims_ok_exec [simp]: "dims_ok (exec st c) = dims_ok c"
  by (cases st) (simp_all add: dims_ok_def exec_def)

lemma dims_ok_fold [simp]: "dims_ok (fold exec ss c) = dims_ok c"
  by (induction ss arbitrary: c) simp_all

lemma run_ok_store:
  assumes run: "run_ok c (j, b, k)"
  shows "core (exec (program j ! k) c) = core (fold exec (take (Suc k) (program j)) b)"
    and "bit (s_readers_mask (ce_head (exec (program j ! k) c))) x \<Longrightarrow> bit (mask_bound j (Suc k)) x"
proof -
  from run have k: "k < length (program j)" "core c = core (fold exec (take k (program j)) b)"
    and bound: "bit (s_readers_mask (ce_head c)) x \<Longrightarrow> bit (mask_bound j k) x" for x
    by (auto simp: run_ok_def)
  from k show "core (exec (program j ! k) c) = core (fold exec (take (Suc k) (program j)) b)"
    by (simp add: take_Suc_conv_app_nth) (rule core_exec)
  show "bit (s_readers_mask (ce_head (exec (program j ! k) c))) x \<Longrightarrow> bit (mask_bound j (Suc k)) x"
    using bound k(1) by (auto simp: exec_mask mask_bound_Suc split: store.splits)
qed

lemma starts_job_ok: "starts i j (ce_head c) \<Longrightarrow> job_ok j c"
  by (cases j) simp_all

lemma slot_inv_begin:
  assumes inv: "slot_inv w" and st: "starts i j (w_head w)"
  shows "slot_inv (w\<lparr>w_run := Some (j, w_cell w, 0)\<rparr>)"
proof -
  have "reclaimable (w_head w) \<Longrightarrow> s_readers_mask (w_head w) = 0"
    using inv by (auto simp: slot_inv_def reclaimable_def unread_def)
  then have "bit (s_readers_mask (w_head w)) x \<Longrightarrow> bit (mask_bound j 0) x" for x
    using st bit_imp_le_length [of "s_readers_mask (w_head w)" x]
    by (cases j) (auto simp: mask_bound_def bit_not_iff)
  moreover have "0 < length (program j)"
    using starts_job_ok [OF st] by (rule program_shape) simp
  ultimately have "run_ok (w_cell w) (j, w_cell w, 0)"
    using starts_job_ok [OF st] inv by (simp add: run_ok_def slot_inv_def)
  with inv show ?thesis by (simp add: slot_inv_def)
qed

lemma slot_inv_store:
  assumes inv: "slot_inv w" and run: "w_run w = Some (j, b, k)" "Suc k < length (program j)"
  shows "slot_inv (w\<lparr>w_cell := exec (program j ! k) (w_cell w), w_run := Some (j, b, Suc k)\<rparr>)"
proof -
  have ok: "run_ok (w_cell w) (j, b, k)" using inv run by (simp add: slot_inv_def)
  then have "run_ok (exec (program j ! k) (w_cell w)) (j, b, Suc k)"
    using run(2) run_ok_store [OF ok] by (simp add: run_ok_def)
  moreover have "s_state (ce_head (exec (program j ! k) (w_cell w))) = STATE_WRITING"
    using core_eqD(1) [OF run_ok_store(1) [OF ok]] ok run(2) state_during [of j b "Suc k"]
    by (simp add: run_ok_def)
  ultimately show ?thesis
    using inv by (simp add: slot_inv_def)
qed

lemma slot_inv_last:
  assumes inv: "slot_inv w" and run: "w_run w = Some (j, b, k)" "Suc k = length (program j)"
  shows "slot_inv (w\<lparr>w_cell := exec (program j ! k) (w_cell w), w_run := None, w_log := logged j b (w_log w)\<rparr>)"
proof -
  have ok: "run_ok (w_cell w) (j, b, k)" using inv run by (simp add: slot_inv_def)
  then have job: "job_ok j b" "dims_ok b" by (simp_all add: run_ok_def)
  have core: "core (exec (program j ! k) (w_cell w)) = core (fold exec (program j) b)"
    using run_ok_store(1) [OF ok] run(2) by simp
  have state: "s_state (ce_head (exec (program j ! k) (w_cell w))) = final_state j"
    using core_eqD(1) [OF core] state_at_end [OF job(1)] by simp
  show ?thesis
  proof (cases j)
    case (Publication v body)
    with state core job inv show ?thesis
      by (auto simp: slot_inv_def log_ok_def written_def)
  next
    case (Aborted v body)
    then have "mask_bound j k = 0" using job(1) run(2) mask_bound_last(2) by simp
    with ok have "s_readers_mask (w_head w) = 0" by (simp add: run_ok_def bit_eq_iff)
    then have "s_readers_mask (ce_head (exec (program j ! k) (w_cell w))) = 0"
      unfolding program_last [OF job(1) run(2)] by (simp add: exec_mask)
    with Aborted state inv show ?thesis by (simp add: slot_inv_def)
  next
    case Recovery
    then have "mask_bound j k = 0" using run(2) mask_bound_last(3) [of "[]"] by simp
    with ok have "s_readers_mask (w_head w) = 0" by (simp add: run_ok_def bit_eq_iff)
    then have "s_readers_mask (ce_head (exec (program j ! k) (w_cell w))) = 0"
      unfolding program_last [OF job(1) run(2)] by (simp add: exec_mask)
    with Recovery state inv show ?thesis by (simp add: slot_inv_def)
  qed
qed

lemma slot_inv_interfere:
  assumes inv: "slot_inv w"
    and core: "core c = core (w_cell w)"
    and sub: "\<And>x. bit (s_readers_mask (ce_head c)) x \<Longrightarrow> bit (s_readers_mask (w_head w)) x"
  shows "slot_inv (w\<lparr>w_cell := c\<rparr>)"
proof -
  have "s_readers_mask (w_head w) = 0 \<Longrightarrow> s_readers_mask (ce_head c) = 0"
    using sub by (auto intro!: bit_word_eqI)
  moreover have "run_ok c run" if "run_ok (w_cell w) run" for run
    using that core sub by (cases run) (auto simp: run_ok_def)
  ultimately show ?thesis
    using inv core core_eqD [OF core] by (auto simp: slot_inv_def dims_ok_def written_def)
qed

lemma slot_step_inv: "slot_step i w w' \<Longrightarrow> slot_inv w \<Longrightarrow> slot_inv w'"
proof (induction rule: slot_step.induct)
  case (sl_die w)
  then show ?case by (simp add: slot_inv_def)
next
  case (sl_release j w)
  show ?case
    by (rule slot_inv_interfere [OF sl_release(2)]) (auto simp: exec_mask bit_and_not_one_bit)
next
  case (sl_mirror w n)
  show ?case by (rule slot_inv_interfere [OF sl_mirror]) (auto simp: exec_mask)
qed (blast intro: slot_inv_begin slot_inv_store slot_inv_last)+

text \<open>
  Consumer \<open>i\<close> is addressed: what is committed in the slot, or will be by the job under way, is for it.
  It is so from the moment the consumer has seen its bit in the mask.
\<close>

definition addressed :: "nat \<Rightarrow> slot_world \<Rightarrow> bool" where
  "addressed i w \<longleftrightarrow>
     (s_state (w_head w) = STATE_COMMITTED \<longrightarrow> bit (s_readers_mask (w_head w)) i) \<and>
     (\<forall>v body b k. w_run w = Some (Publication v body, b, k) \<longrightarrow>
        bit (rv_mask v) i \<and>
        (bit (mask_bound (Publication v body) k) i \<longrightarrow> bit (s_readers_mask (w_head w)) i))"

lemma addressed_seen:
  assumes inv: "slot_inv w" and seen: "bit (s_readers_mask (w_head w)) i"
  shows "addressed i w"
  unfolding addressed_def
proof (intro conjI impI allI)
  fix v body b k assume "w_run w = Some (Publication v body, b, k)"
  with inv have ok: "run_ok (w_cell w) (Publication v body, b, k)" by (simp add: slot_inv_def)
  with seen have "bit (mask_bound (Publication v body) k) i" by (simp add: run_ok_def)
  moreover from ok have "list_all body_store body" by (simp add: run_ok_def)
  ultimately show "bit (rv_mask v) i" using mask_bound_publication [of body v k] by auto
qed (rule seen)+

lemma slot_step_addressed:
  assumes "slot_step i w w'" "slot_inv w" "addressed i w"
  shows "addressed i w'"
  using assms
proof (induction rule: slot_step.induct)
  case (sl_begin w j)
  then show ?case by (auto simp: addressed_def mask_bound_def)
next
  case (sl_store w j b k)
  have ok: "run_ok (w_cell w) (j, b, k)" using sl_store by (simp add: slot_inv_def)
  have "s_state (ce_head (exec (program j ! k) (w_cell w))) = STATE_WRITING"
    using core_eqD(1) [OF run_ok_store(1) [OF ok]] ok sl_store(2) state_during [of j b "Suc k"]
    by (simp add: run_ok_def)
  moreover have "bit (mask_bound j (Suc k)) i \<Longrightarrow>
      bit (s_readers_mask (ce_head (exec (program j ! k) (w_cell w)))) i" if "j = Publication v body" for v body
    using sl_store that by (auto simp: exec_mask mask_bound_Suc addressed_def split: store.splits)
  ultimately show ?case
    using sl_store by (auto simp: addressed_def)
next
  case (sl_last w j b k)
  have ok: "run_ok (w_cell w) (j, b, k)" using sl_last by (simp add: slot_inv_def)
  then have job: "job_ok j b" by (simp add: run_ok_def)
  have state: "s_state (ce_head (exec (program j ! k) (w_cell w))) = final_state j"
    using core_eqD(1) [OF run_ok_store(1) [OF ok]] state_at_end [OF job] sl_last(2) by simp
  have "bit (s_readers_mask (ce_head (exec (program j ! k) (w_cell w)))) i" if j: "j = Publication v body" for v body
  proof -
    have "mask_bound j k = rv_mask v" using job j sl_last(2) mask_bound_last(1) by simp
    then have "bit (s_readers_mask (w_head w)) i" using sl_last j by (simp add: addressed_def)
    then show ?thesis unfolding program_last [OF job sl_last(2)] by (simp add: exec_mask)
  qed
  with state show ?case by (cases j) (simp_all add: addressed_def)
next
  case (sl_die w)
  then show ?case by (simp add: addressed_def)
next
  case (sl_release j w)
  then show ?case
    by (simp add: addressed_def exec_mask bit_and_not_one_bit core_eqD(1) [OF core_mask(1)])
next
  case (sl_mirror w n)
  then show ?case by (simp add: addressed_def exec_mask core_eqD(1) [OF core_mask(2)])
qed

text \<open>Once committed and addressed to \<open>i\<close>, a slot does not move until \<open>i\<close> releases it.\<close>

definition frozen :: "nat \<Rightarrow> cell \<Rightarrow> (job \<times> cell) list \<Rightarrow> slot_world \<Rightarrow> bool" where
  "frozen i c log w \<longleftrightarrow>
     s_state (w_head w) = STATE_COMMITTED \<and> bit (s_readers_mask (w_head w)) i \<and> w_run w = None \<and>
     core (w_cell w) = core c \<and> w_log w = log"

lemma frozen_committed:
  assumes inv: "slot_inv w" and addr: "addressed i w" and state: "s_state (w_head w) = STATE_COMMITTED"
  shows "frozen i (w_cell w) (w_log w) w"
proof -
  have bit: "bit (s_readers_mask (w_head w)) i" using addr state by (simp add: addressed_def)
  have "w_run w = None"
  proof (rule ccontr)
    assume "w_run w \<noteq> None"
    then obtain j b k where run: "w_run w = Some (j, b, k)" by (cases "w_run w") auto
    with inv have ok: "run_ok (w_cell w) (j, b, k)" by (simp add: slot_inv_def)
    then have "s_state (ce_head (fold exec (take k (program j)) b)) = STATE_COMMITTED"
      using core_eqD(1) [of "w_cell w" "fold exec (take k (program j)) b"] state by (simp add: run_ok_def)
    with ok have "\<not> (0 < k \<or> j = Recovery)"
      using state_during [of j b k] by (force simp: run_ok_def)
    then have "mask_bound j k = 0" by (cases j) (simp_all add: mask_bound_def)
    with ok bit show False by (auto simp: run_ok_def)
  qed
  with bit state show ?thesis by (simp add: frozen_def)
qed

lemma slot_step_frozen:
  assumes "slot_step i w w'" "frozen i c log w"
  shows "frozen i c log w'"
  using assms
proof (induction rule: slot_step.induct)
  case (sl_begin w j)
  then show ?case by (cases j) (auto simp: frozen_def reclaimable_def unread_def)
next
  case (sl_release j w)
  then show ?case
    by (simp add: frozen_def exec_mask bit_and_not_one_bit core_eqD(1) [OF core_mask(1)])
next
  case (sl_mirror w n)
  then show ?case by (simp add: frozen_def exec_mask core_eqD(1) [OF core_mask(2)])
qed (simp_all add: frozen_def)

text \<open>The three facts along a run.\<close>

interpretation slot_run: preserved_by "slot_step i" slot_inv for i
  by unfold_locales (rule slot_step_inv)

interpretation addressed_run: preserved_by "slot_step i" "\<lambda>w. slot_inv w \<and> addressed i w" for i
  by unfold_locales (blast intro: slot_step_inv slot_step_addressed)

interpretation frozen_run: preserved_by "slot_step i" "frozen i c log" for i c log
  by unfold_locales (rule slot_step_frozen)

subsection \<open>A reader against a writer\<close>

lemma scan_saw_bit:
  assumes "scan_oldest c n tr = Some b"
  shows "s_readers_mask (slots (tr (3 * snd b + 1)) ! snd b) AND consumer_bit c \<noteq> 0"
proof -
  define seen :: "u64 \<times> nat \<Rightarrow> bool" where
    "seen = (\<lambda>b. s_readers_mask (slots (tr (3 * snd b + 1)) ! snd b) AND consumer_bit c \<noteq> 0)"
  have "s_readers_mask (slots (tr (3 * k + 1)) ! k) AND consumer_bit c \<noteq> 0 \<Longrightarrow> seen (sq, k)" for k sq
    by (simp add: seen_def)
  then have step: "pred_option seen best \<Longrightarrow> pred_option seen (scan_step c tr k best)" for k best
    by (auto simp: scan_step_def Let_def split: option.split)
  have "pred_option seen best \<Longrightarrow> pred_option seen (fold (scan_step c tr) ks best)" for ks best
    by (induction ks arbitrary: best) (simp_all add: step)
  from this [of None "[0..<n]"] assms have "seen b" by (simp add: scan_oldest_def)
  then show ?thesis by (simp add: seen_def)
qed

lemma rescan_saw_bit:
  assumes "\<exists>p<k. s_readers_mask (slots (trs p (3 * snd b + 1)) ! snd b) AND consumer_bit c \<noteq> 0"
  shows "\<exists>p<k + m. s_readers_mask (slots (trs p (3 * snd (rescan c n trs m k b) + 1)) ! snd (rescan c n trs m k b))
    AND consumer_bit c \<noteq> 0"
  using assms
proof (induction c n trs m k b rule: rescan.induct)
  case (2 c n trs m k b)
  have weaken: "\<exists>p<k + Suc m. s_readers_mask (slots (trs p (3 * snd b + 1)) ! snd b) AND consumer_bit c \<noteq> 0"
    using 2(2) by (meson trans_less_add1)
  show ?case
  proof (cases "scan_oldest c n (trs k)")
    case (Some nxt)
    have "\<exists>p<k + 1. s_readers_mask (slots (trs p (3 * snd nxt + 1)) ! snd nxt) AND consumer_bit c \<noteq> 0"
      using scan_saw_bit [OF Some] by (intro exI [of _ k]) simp
    with 2(1) [OF Some] weaken Some show ?thesis by simp
  qed (use weaken in simp)
qed simp

lemma try_take_saw_bit:
  assumes "try_take cap c n trs = Some m"
  shows "\<exists>p\<le>n. bit (s_readers_mask (slots (trs p (3 * m_slot_index m + 1)) ! m_slot_index m)) (c_index c)"
proof -
  obtain first where first: "scan_oldest c n (trs 0) = Some first"
    using assms by (auto simp: try_take_def split: option.splits)
  obtain sq s where best: "rescan c n trs n 1 first = (sq, s)" by force
  have "read_validated cap c (trs (n + 1)) s sq = Some m"
    using assms first best by (simp add: try_take_def)
  then have "m_slot_index m = s"
    by (auto simp: read_validated_def Let_def split: if_splits option.splits)
  moreover have "\<exists>p<1 + n. s_readers_mask (slots (trs p (3 * s + 1)) ! s) AND consumer_bit c \<noteq> 0"
    using rescan_saw_bit [of 1 trs first c n n] scan_saw_bit [OF first] best by auto
  ultimately show ?thesis
    by (auto simp: and_consumer_bit less_Suc_eq_le)
qed

lemma read_validated_fields:
  assumes "read_validated cap c tr s sq = Some m"
  shows "s_state (slots (tr 0) ! s) = STATE_COMMITTED" "s_sequence (slots (tr 1) ! s) = m_sequence m"
    "m_nbytes m = s_nbytes (slots (tr 4) ! s)" "dtype_code (m_dtype m) = s_dtype (slots (tr 3) ! s)"
    "m_ndim m = unat (s_ndim (slots (tr 2) ! s))" "m_timestamp_ns m = s_timestamp_ns (slots (tr 5) ! s)"
    "d < MAX_NDIM \<Longrightarrow> m_shape m ! d = s_shape (slots (tr (6 + 2 * d)) ! s) ! d"
    "d < MAX_NDIM \<Longrightarrow> m_strides m ! d = s_strides (slots (tr (7 + 2 * d)) ! s) ! d"
  using assms code_table.enc_decode
  by (auto simp: read_validated_def Let_def split: if_splits option.splits)

text \<open>
  The loads of a take on a common timeline: \<open>W t s\<close> is slot \<open>s\<close> at instant \<open>t\<close> and \<open>clk p k\<close> the
  instant of load \<open>k\<close> of pass \<open>p\<close>; the loads happen in program order, and between two instants any
  number of steps may happen to any slot.
\<close>

definition on_timeline ::
  "nat \<Rightarrow> nat \<Rightarrow> (nat \<Rightarrow> nat \<Rightarrow> slot_world) \<Rightarrow> (nat \<Rightarrow> nat \<Rightarrow> nat) \<Rightarrow> (nat \<Rightarrow> trace) \<Rightarrow> bool" where
  "on_timeline i n W clk trs \<longleftrightarrow>
     (\<forall>s<n. slot_inv (W 0 s)) \<and>
     (\<forall>s<n. \<forall>t. (slot_step i)\<^sup>*\<^sup>* (W t s) (W (Suc t) s)) \<and>
     (\<forall>p k q l. k < 3 * n + 26 \<and> (p < q \<or> p = q \<and> k \<le> l) \<longrightarrow> clk p k \<le> clk q l) \<and>
     (\<forall>p k. \<forall>s<n. slots (trs p k) ! s = w_head (W (clk p k) s))"

lemma timeline_run:
  assumes "on_timeline i n W clk trs" "s < n" "t \<le> u"
  shows "(slot_step i)\<^sup>*\<^sup>* (W t s) (W u s)"
  using assms(3)
proof (induction rule: dec_induct)
  case (step u)
  moreover have "(slot_step i)\<^sup>*\<^sup>* (W u s) (W (Suc u) s)"
    using assms(1,2) by (simp add: on_timeline_def)
  ultimately show ?case by simp
qed simp

lemma take_frozen:
  assumes tl: "on_timeline (c_index c) n W clk trs" and take: "try_take cap c n trs = Some m"
    and t: "clk (n + 1) 0 \<le> t"
  defines "w0 \<equiv> W (clk (n + 1) 0) (m_slot_index m)"
  shows "slot_inv w0 \<and> frozen (c_index c) (w_cell w0) (w_log w0) (W t (m_slot_index m))"
proof -
  let ?s = "m_slot_index m"
  have s: "?s < n" and rv: "read_validated cap c (trs (n + 1)) ?s (m_sequence m) = Some m"
    using try_take_any [OF take] by simp_all
  obtain p where p: "p \<le> n" "bit (s_readers_mask (slots (trs p (3 * ?s + 1)) ! ?s)) (c_index c)"
    using try_take_saw_bit [OF take] by blast
  define w1 where "w1 = W (clk p (3 * ?s + 1)) ?s"
  have "slot_inv w1"
    unfolding w1_def
    by (rule slot_run.run_inv [OF timeline_run [OF tl s le0]]) (use tl s in \<open>simp_all add: on_timeline_def\<close>)
  moreover have "bit (s_readers_mask (w_head w1)) (c_index c)"
    using tl s p(2) by (simp add: on_timeline_def w1_def)
  ultimately have "slot_inv w1 \<and> addressed (c_index c) w1" by (blast intro: addressed_seen)
  moreover have "clk p (3 * ?s + 1) \<le> clk (n + 1) 0"
    using tl s p(1) by (simp add: on_timeline_def)
  ultimately have w0: "slot_inv w0" "addressed (c_index c) w0"
    unfolding w0_def w1_def using addressed_run.run_inv [OF timeline_run [OF tl s]] by blast+
  have "s_state (w_head w0) = STATE_COMMITTED"
    using read_validated_fields(1) [OF rv] tl s by (simp add: on_timeline_def w0_def)
  with w0 have "frozen (c_index c) (w_cell w0) (w_log w0) w0" by (intro frozen_committed)
  then show ?thesis
    using w0(1) frozen_run.run_inv [OF timeline_run [OF tl s t]] unfolding w0_def by blast
qed

subsection \<open>What a publication leaves in the slot\<close>

fun stamp_after :: "u64 \<Rightarrow> store list \<Rightarrow> u64" where
  "stamp_after t [] = t"
| "stamp_after t (StTimestamp v # ss) = stamp_after v ss"
| "stamp_after t (_ # ss) = stamp_after t ss"

lemma body_leaves:
  assumes "list_all body_store body"
  shows "ce_data (fold exec body c) = fold data_store body (ce_data c)"
    "ce_head (fold exec body c) = (ce_head c)\<lparr>s_timestamp_ns := stamp_after (s_timestamp_ns (ce_head c)) body\<rparr>"
  using assms
proof (induction body arbitrary: c)
  case (Cons st body)
  { case 1 with Cons show ?case by (cases st) (simp_all add: exec_def) }
  { case 2 with Cons show ?case by (cases st) (simp_all add: exec_def) }
qed simp_all

lemma header_leaves:
  assumes "dims_ok b"
  shows "ce_data (fold exec (header_stores v) b) = ce_data b"
    "s_sequence (ce_head (fold exec (header_stores v) b)) = rv_sequence v"
    "s_timestamp_ns (ce_head (fold exec (header_stores v) b)) = rv_timestamp v"
    "s_nbytes (ce_head (fold exec (header_stores v) b)) = rv_nbytes v"
    "s_dtype (ce_head (fold exec (header_stores v) b)) = rv_dtype v"
    "s_ndim (ce_head (fold exec (header_stores v) b)) = rv_ndim v"
    "d < MAX_NDIM \<Longrightarrow> s_shape (ce_head (fold exec (header_stores v) b)) ! d = rv_shape v ! d"
    "d < MAX_NDIM \<Longrightarrow> s_strides (ce_head (fold exec (header_stores v) b)) ! d = rv_strides v ! d"
  using assms
  by (simp_all add: header_stores_def field_stores_def exec_def dims_ok_def MAX_NDIM_def upt_rec)
    (auto simp: numeral_eq_Suc less_Suc_eq)

definition published_cell :: "reservation \<Rightarrow> store list \<Rightarrow> cell \<Rightarrow> cell" where
  "published_cell v body b = fold exec (program (Publication v body)) b"

lemma published_fields:
  assumes "dims_ok b" "list_all body_store body"
  shows "ce_data (published_cell v body b) = fold data_store body (ce_data b)"
    "s_sequence (ce_head (published_cell v body b)) = rv_sequence v"
    "s_timestamp_ns (ce_head (published_cell v body b)) = stamp_after (rv_timestamp v) body"
    "s_nbytes (ce_head (published_cell v body b)) = rv_nbytes v"
    "s_dtype (ce_head (published_cell v body b)) = rv_dtype v"
    "s_ndim (ce_head (published_cell v body b)) = rv_ndim v"
    "d < MAX_NDIM \<Longrightarrow> s_shape (ce_head (published_cell v body b)) ! d = rv_shape v ! d"
    "d < MAX_NDIM \<Longrightarrow> s_strides (ce_head (published_cell v body b)) ! d = rv_strides v ! d"
  using header_leaves [OF assms(1)] body_leaves [OF assms(2)]
  by (simp_all add: published_cell_def) (simp_all add: exec_def)

lemma copy_stores_body: "list_all body_store (copy_stores data)"
  by (simp add: copy_stores_def list_all_iff)

lemma copy_stores_stamp: "stamp_after t (copy_stores data) = t"
proof -
  have "stamp_after t (map (\<lambda>k. StByte k (data ! k)) ks) = t" for ks
    by (induction ks) simp_all
  then show ?thesis by (simp add: copy_stores_def)
qed

lemma copy_stores_data:
  assumes "length data \<le> length bs"
  shows "fold data_store (copy_stores data) bs = data @ drop (length data) bs"
proof -
  have "fold data_store (map (\<lambda>k. StByte k (data ! k)) [0..<n]) bs = take n data @ drop n bs" if "n \<le> length data" for n
    using that
  proof (induction n)
    case (Suc n)
    with assms show ?case
      by (simp add: list_update_append take_Suc_conv_app_nth Cons_nth_drop_Suc [symmetric] min_def)
  qed simp
  from this [of "length data"] show ?thesis by (simp add: copy_stores_def)
qed

subsection \<open>Properties\<close>

text \<open>
  Claim C5. No torn read: while producers, sweepers and the other consumers go on store by store, what
  \<^verbatim>\<open>try_take\<close> returns is the header of one committed publication, never a mixture of two or of a
  half-written one, and from then until this consumer releases it the slot stays committed and
  addressed to it, with the payload bytes of that same publication.
\<close>

theorem no_torn_take:
  assumes tl: "on_timeline (c_index c) n W clk trs" and take: "try_take cap c n trs = Some m"
  shows "\<exists>v body b. (Publication v body, b) \<in> set (w_log (W (clk (n + 1) 0) (m_slot_index m))) \<and>
    m_sequence m = rv_sequence v \<and> m_nbytes m = rv_nbytes v \<and> dtype_code (m_dtype m) = rv_dtype v \<and>
    m_ndim m = unat (rv_ndim v) \<and> m_timestamp_ns m = stamp_after (rv_timestamp v) body \<and>
    (\<forall>d<MAX_NDIM. m_shape m ! d = rv_shape v ! d \<and> m_strides m ! d = rv_strides v ! d) \<and>
    (\<forall>t\<ge>clk (n + 1) 0.
       s_state (w_head (W t (m_slot_index m))) = STATE_COMMITTED \<and>
       s_sequence (w_head (W t (m_slot_index m))) = m_sequence m \<and>
       bit (s_readers_mask (w_head (W t (m_slot_index m)))) (c_index c) \<and>
       ce_data (w_cell (W t (m_slot_index m))) = fold data_store body (ce_data b))"
proof -
  let ?s = "m_slot_index m" and ?t = "clk (n + 1) 0"
  let ?w = "W ?t ?s"
  have s: "?s < n" and rv: "read_validated cap c (trs (n + 1)) ?s (m_sequence m) = Some m"
    using try_take_any [OF take] by simp_all
  have inv: "slot_inv ?w" and fr: "\<And>t. ?t \<le> t \<Longrightarrow> frozen (c_index c) (w_cell ?w) (w_log ?w) (W t ?s)"
    using take_frozen [OF tl take] by blast+
  from fr [of ?t] inv obtain jb where jb: "jb \<in> set (w_log ?w)" "written jb (w_cell ?w)"
    by (auto simp: slot_inv_def frozen_def)
  moreover from this(1) inv obtain v body b where eq: "jb = (Publication v body, b)" "list_all body_store body" "dims_ok b"
    by (auto simp: slot_inv_def log_ok_def)
  ultimately have "core (w_cell ?w) = core (published_cell v body b)"
    by (simp add: written_def published_cell_def)
  then have core: "core (w_cell (W t ?s)) = core (published_cell v body b)" if "?t \<le> t" for t
    using fr [OF that] by (simp add: frozen_def)
  note fields = published_fields [OF eq(3,2)]
  have head: "slots (trs (n + 1) k) ! ?s = w_head (W (clk (n + 1) k) ?s)" "?t \<le> clk (n + 1) k" for k
    using tl s by (simp_all add: on_timeline_def)
  note load = core_eqD [OF core [OF head(2)], folded head(1), unfolded fields]
  note meta = read_validated_fields [OF rv, unfolded load]
  have "m_shape m ! d = rv_shape v ! d \<and> m_strides m ! d = rv_strides v ! d" if "d < MAX_NDIM" for d
    using meta(7,8) [OF that] fields(7,8) [OF that, of v] by simp
  moreover have "m_sequence m = rv_sequence v" "m_nbytes m = rv_nbytes v" "dtype_code (m_dtype m) = rv_dtype v"
    "m_ndim m = unat (rv_ndim v)" "m_timestamp_ns m = stamp_after (rv_timestamp v) body"
    using meta by simp_all
  moreover have "s_state (w_head (W t ?s)) = STATE_COMMITTED \<and> s_sequence (w_head (W t ?s)) = rv_sequence v \<and>
       bit (s_readers_mask (w_head (W t ?s))) (c_index c) \<and> ce_data (w_cell (W t ?s)) = fold data_store body (ce_data b)"
    if "?t \<le> t" for t
    using fr [OF that] core_eqD(2,9) [OF core [OF that]] fields by (simp add: frozen_def)
  ultimately show ?thesis
    using jb(1) eq(1) by (intro exI [of _ v] exI [of _ body] exI [of _ b]) simp
qed

text \<open>A witness: slot 0 of \<open>pending_ring\<close> with the publication that filled it, at rest.\<close>

definition pending_reservation :: reservation where
  "pending_reservation =
     \<lparr>rv_pid = 7, rv_token = 0, rv_sequence = 1, rv_timestamp = 0, rv_nbytes = 8, rv_dtype = dtype_code U8,
      rv_ndim = 1, rv_shape = pad_dims [8], rv_strides = pad_dims [1], rv_mask = 1\<rparr>"

definition still_world :: "nat \<Rightarrow> slot_world" where
  "still_world s =
     (let b = \<lparr>ce_head = zero_slot\<lparr>s_magic := SLOT_MAGIC, s_state := STATE_FREE\<rparr>, ce_data = []\<rparr>
      in if s = 0
         then \<lparr>w_cell = \<lparr>ce_head = pending_slot, ce_data = []\<rparr>, w_run = None,
                w_log = [(Publication pending_reservation [], b)]\<rparr>
         else \<lparr>w_cell = b, w_run = None, w_log = []\<rparr>)"

lemma still_world_inv: "slot_inv (still_world s)"
  by (simp add: slot_inv_def still_world_def Let_def log_ok_def dims_ok_def zero_slot_def pending_slot_def
      pad_dims_def MAX_NDIM_def written_def core_def pending_reservation_def header_stores_def field_stores_def
      exec_def upt_rec)
    (simp add: numeral_eq_Suc)

lemma still_timeline: "on_timeline i 2 (\<lambda>_. still_world) (\<lambda>_ _. 0) (\<lambda>_. still pending_ring)"
  unfolding on_timeline_def
  by (simp add: still_world_inv) (auto simp: still_world_def still_def slots_pending_ring Let_def less_2_cases_iff)

theorem no_torn_take_witness:
  "\<exists>v body b. (Publication v body, b) \<in> set (w_log (still_world 0)) \<and> rv_sequence v = 1 \<and> rv_nbytes v = 8 \<and>
     ce_data (w_cell (still_world 0)) = fold data_store body (ce_data b)"
proof -
  have "try_take 64 demo_consumer 2 (\<lambda>_. still pending_ring) = Some (meta_of 0 pending_slot U8)"
    using demo_take by simp
  from no_torn_take [OF still_timeline this]
  show ?thesis by (auto simp: meta_of_def pending_slot_def)
qed

lemma commit_stores:
  assumes "s < length (payloads r)" "length data \<le> length (payloads r ! s)"
  shows "commit_slot s (copy_payload s data r) =
    (let q = fold (store_at s) (copy_stores data @ [StState STATE_COMMITTED]) r
     in signal_publish (q\<lparr>g_publish_count := g_publish_count q + 1\<rparr>))"
  using assms by (simp add: commit_slot_def copy_payload_stores Let_def)

lemma release_slot_stores:
  "release_slot e w r = map_option (\<lambda>r1.
     let q = fold (store_at (sw_slot w)) recover_stores r1
     in signal_reclaim (unlock_registry
          (if g_next_seq q = sw_sequence w + 1 then q\<lparr>g_next_seq := sw_sequence w\<rparr> else q))) (lock_registry e r)"
  by (simp add: release_slot_def recover_stores_def Let_def split: option.split)

lemma reap_slot_stores:
  "reap_slot e s (r, f) =
     (if abandoned_slot e (slots r ! s) then (fold (store_at s) recover_stores r, True) else (r, f))"
  by (simp add: reap_slot_def recover_stores_def abandoned_slot_def Let_def)



end
