(* ===== verification/MemoryOrder.thy ===== *)
theory MemoryOrder
  imports SlotSteps
begin

text \<open>
  The same slot under the memory orderings of \<^verbatim>\<open>ring.rs\<close>. The stores to a slot are numbered in the order
  they happen, and what a thread knows is, for each word, the newest store it must have seen. A load may
  find any store that is not older than that; an \<^verbatim>\<open>Acquire\<close> load that finds a \<^verbatim>\<open>Release\<close> store learns what
  the storing thread handed on. \<^verbatim>\<open>Relaxed\<close> loads and those without an ordering (the rank, the dtype and the
  payload) learn nothing but the store they found. A load never finds a store of its own future. What the
  reader learns from other slots is left open, so every behaviour of the whole ring is one of the model's.
\<close>

unbundle bit_operations_syntax

subsection \<open>MemoryOrder\<close>

datatype ordering = Relaxed | Acquire | Release

text \<open>The two constants the feature \<^verbatim>\<open>tsan-positive-control\<close> sets to \<^verbatim>\<open>Relaxed\<close> (\<open>ctl\<close>).\<close>

definition COMMIT_RELEASE :: "bool \<Rightarrow> ordering" where
  "COMMIT_RELEASE tsan_positive_control = (if tsan_positive_control then Relaxed else Release)"

definition COMMIT_ACQUIRE :: "bool \<Rightarrow> ordering" where
  "COMMIT_ACQUIRE tsan_positive_control = (if tsan_positive_control then Relaxed else Acquire)"

datatype word_at = WState | WPid | WToken | WSequence | WTimestamp | WNbytes | WDtype | WNdim | WFlags
  | WShape nat | WStride nat | WMask | WReaders | WByte nat

fun store_word :: "store \<Rightarrow> word_at" where
  "store_word (StState v) = WState"
| "store_word (StPid v) = WPid"
| "store_word (StToken v) = WToken"
| "store_word (StSequence v) = WSequence"
| "store_word (StTimestamp v) = WTimestamp"
| "store_word (StNbytes v) = WNbytes"
| "store_word (StDtype v) = WDtype"
| "store_word (StNdim v) = WNdim"
| "store_word (StFlags v) = WFlags"
| "store_word (StShape d v) = WShape d"
| "store_word (StStride d v) = WStride d"
| "store_word (StMask v) = WMask"
| "store_word (StReaders v) = WReaders"
| "store_word (StByte k v) = WByte k"

fun store_order :: "bool \<Rightarrow> store \<Rightarrow> ordering" where
  "store_order ctl (StState v) = (if v = STATE_COMMITTED then COMMIT_RELEASE ctl else Release)"
| "store_order ctl (StMask v) = Release"
| "store_order ctl (StReaders v) = Release"
| "store_order ctl _ = Relaxed"

text \<open>Two cells that agree on a word.\<close>

fun same_word :: "word_at \<Rightarrow> cell \<Rightarrow> cell \<Rightarrow> bool" where
  "same_word WState a b \<longleftrightarrow> s_state (ce_head a) = s_state (ce_head b)"
| "same_word WPid a b \<longleftrightarrow> s_producer_pid (ce_head a) = s_producer_pid (ce_head b)"
| "same_word WToken a b \<longleftrightarrow> s_producer_start_token (ce_head a) = s_producer_start_token (ce_head b)"
| "same_word WSequence a b \<longleftrightarrow> s_sequence (ce_head a) = s_sequence (ce_head b)"
| "same_word WTimestamp a b \<longleftrightarrow> s_timestamp_ns (ce_head a) = s_timestamp_ns (ce_head b)"
| "same_word WNbytes a b \<longleftrightarrow> s_nbytes (ce_head a) = s_nbytes (ce_head b)"
| "same_word WDtype a b \<longleftrightarrow> s_dtype (ce_head a) = s_dtype (ce_head b)"
| "same_word WNdim a b \<longleftrightarrow> s_ndim (ce_head a) = s_ndim (ce_head b)"
| "same_word WFlags a b \<longleftrightarrow> s_flags (ce_head a) = s_flags (ce_head b)"
| "same_word (WShape d) a b \<longleftrightarrow> s_shape (ce_head a) ! d = s_shape (ce_head b) ! d"
| "same_word (WStride d) a b \<longleftrightarrow> s_strides (ce_head a) ! d = s_strides (ce_head b) ! d"
| "same_word WMask a b \<longleftrightarrow> s_readers_mask (ce_head a) = s_readers_mask (ce_head b)"
| "same_word WReaders a b \<longleftrightarrow> s_readers_remaining (ce_head a) = s_readers_remaining (ce_head b)"
| "same_word (WByte k) a b \<longleftrightarrow> ce_data a ! k = ce_data b ! k"

lemma same_word_refl [simp]: "same_word x a a"
  by (cases x) simp_all

lemma same_word_sym: "same_word x a b \<Longrightarrow> same_word x b a"
  by (cases x) simp_all

lemma same_word_trans: "same_word x a b \<Longrightarrow> same_word x b c \<Longrightarrow> same_word x a c"
  by (cases x) simp_all

lemma same_word_exec: "store_word st \<noteq> x \<Longrightarrow> same_word x c (exec st c)"
  by (cases st; cases x) (auto simp: exec_def)

subsection \<open>A slot and what a reader knows of it\<close>

text \<open>
  An action is a store (or none: a job begins or dies), what an \<^verbatim>\<open>Acquire\<close> load of it learns, and the
  slot after it. What is known of a word is a position: the number of actions after which it was current.
\<close>

type_synonym view = "word_at \<Rightarrow> nat"

record action =
  ac_word :: "word_at option"
  ac_view :: view
  ac_world :: slot_world

record history =
  hs_base :: slot_world
  hs_acts :: "action list"
  hs_view :: view

abbreviation now :: "history \<Rightarrow> nat" where
  "now H \<equiv> length (hs_acts H)"

definition world_at :: "history \<Rightarrow> nat \<Rightarrow> slot_world" where
  "world_at H u = (if u = 0 then hs_base H else ac_world (hs_acts H ! (u - 1)))"

abbreviation latest :: "history \<Rightarrow> slot_world" where
  "latest H \<equiv> world_at H (now H)"

fun last_write :: "word_at \<Rightarrow> action list \<Rightarrow> nat \<Rightarrow> nat" where
  "last_write x as 0 = 0"
| "last_write x as (Suc u) = (if ac_word (as ! u) = Some x then Suc u else last_write x as u)"

definition learned :: "word_at \<Rightarrow> history \<Rightarrow> nat \<Rightarrow> view" where
  "learned x H u y = (let w = last_write x (hs_acts H) u in if w = 0 then 0 else ac_view (hs_acts H ! (w - 1)) y)"

definition may_load :: "word_at \<Rightarrow> nat \<Rightarrow> history \<Rightarrow> bool" where
  "may_load x u H \<longleftrightarrow> hs_view H x \<le> u \<and> u \<le> now H"

definition load :: "ordering \<Rightarrow> word_at \<Rightarrow> nat \<Rightarrow> history \<Rightarrow> history" where
  "load ord x u H =
     (let v = (hs_view H)(x := u)
      in H\<lparr>hs_view := if ord = Acquire then (\<lambda>y. max (v y) (learned x H u y)) else v\<rparr>)"

definition act :: "word_at option \<Rightarrow> view \<Rightarrow> slot_world \<Rightarrow> history \<Rightarrow> history" where
  "act x g w H = H\<lparr>hs_acts := hs_acts H @ [\<lparr>ac_word = x, ac_view = g, ac_world = w\<rparr>]\<rparr>"

text \<open>
  What a \<^verbatim>\<open>Release\<close> store of a job hands on. Jobs exclude each other, so a job knows every store of the
  jobs before it to the words only jobs store, and its own; what it knows of the mask and its mirror,
  which consumers store too, is left open (\<open>g\<close>). The \<^verbatim>\<open>fetch_and\<close> of another consumer's release is
  \<^verbatim>\<open>AcqRel\<close>: it hands on what the mask it read carried and anything else that consumer knows.
\<close>

definition job_word :: "word_at \<Rightarrow> bool" where
  "job_word x \<longleftrightarrow> x \<noteq> WMask \<and> x \<noteq> WReaders"

definition job_view :: "bool \<Rightarrow> view \<Rightarrow> store \<Rightarrow> nat \<Rightarrow> view" where
  "job_view ctl g st n =
     (\<lambda>y. if store_order ctl st \<noteq> Release then 0
          else if job_word y \<or> y = store_word st then Suc n
          else min (g y) (Suc n))"

definition clear_view :: "view \<Rightarrow> history \<Rightarrow> view" where
  "clear_view g H = (\<lambda>y. max (min (g y) (Suc (now H))) (learned WMask H (now H) y))"

text \<open>
  A step of anybody else: the steps of \<open>slot_step\<close>, and the reader learning of more stores by loads of
  other slots or by taking the lock.
\<close>

inductive others :: "bool \<Rightarrow> nat \<Rightarrow> history \<Rightarrow> history \<Rightarrow> bool" for ctl i where
  ot_begin:
    "w_run (latest H) = None \<Longrightarrow> starts i j (w_head (latest H)) \<Longrightarrow>
     others ctl i H (act None (\<lambda>_. 0) ((latest H)\<lparr>w_run := Some (j, w_cell (latest H), 0)\<rparr>) H)"
| ot_store:
    "w_run (latest H) = Some (j, b, k) \<Longrightarrow> Suc k < length (program j) \<Longrightarrow> st = program j ! k \<Longrightarrow>
     others ctl i H (act (Some (store_word st)) (job_view ctl g st (now H))
       ((latest H)\<lparr>w_cell := exec st (w_cell (latest H)), w_run := Some (j, b, Suc k)\<rparr>) H)"
| ot_last:
    "w_run (latest H) = Some (j, b, k) \<Longrightarrow> Suc k = length (program j) \<Longrightarrow> st = program j ! k \<Longrightarrow>
     others ctl i H (act (Some (store_word st)) (job_view ctl g st (now H))
       ((latest H)\<lparr>w_cell := exec st (w_cell (latest H)), w_run := None, w_log := logged j b (w_log (latest H))\<rparr>) H)"
| ot_die:
    "others ctl i H (act None (\<lambda>_. 0) ((latest H)\<lparr>w_run := None\<rparr>) H)"
| ot_clear:
    "j \<noteq> i \<Longrightarrow>
     others ctl i H (act (Some WMask) (clear_view g H)
       ((latest H)\<lparr>w_cell := exec (StMask (s_readers_mask (w_head (latest H)) AND NOT (one_bit j))) (w_cell (latest H))\<rparr>) H)"
| ot_mirror:
    "others ctl i H (act (Some WReaders) (\<lambda>y. min (g y) (Suc (now H)))
       ((latest H)\<lparr>w_cell := exec (StReaders n) (w_cell (latest H))\<rparr>) H)"
| ot_learn:
    "(\<And>y. hs_view H y \<le> g y \<and> g y \<le> now H) \<Longrightarrow> others ctl i H (H\<lparr>hs_view := g\<rparr>)"

text \<open>The reader's own release: it reads and writes the newest mask.\<close>

definition own_release :: "nat \<Rightarrow> history \<Rightarrow> history" where
  "own_release i H =
     (let w = latest H;
          v = (\<lambda>y. max (hs_view H y) (learned WMask H (now H) y));
          v' = v(WMask := Suc (now H))
      in (act (Some WMask) v'
            (w\<lparr>w_cell := exec (StMask (s_readers_mask (w_head w) AND NOT (one_bit i))) (w_cell w)\<rparr>) H)\<lparr>hs_view := v'\<rparr>)"

text \<open>What happens while the reader holds what it has taken, and what happens at all.\<close>

inductive holding :: "bool \<Rightarrow> nat \<Rightarrow> history \<Rightarrow> history \<Rightarrow> bool" for ctl i where
  hd_others: "others ctl i H H' \<Longrightarrow> holding ctl i H H'"
| hd_load: "may_load x u H \<Longrightarrow> holding ctl i H (load ord x u H)"

inductive running :: "bool \<Rightarrow> nat \<Rightarrow> history \<Rightarrow> history \<Rightarrow> bool" for ctl i where
  rn_holding: "holding ctl i H H' \<Longrightarrow> running ctl i H H'"
| rn_release: "running ctl i H (own_release i H)"

subsection \<open>The invariant of a history\<close>

definition quiet_at :: "nat \<Rightarrow> history \<Rightarrow> nat \<Rightarrow> bool" where
  "quiet_at i H u \<longleftrightarrow> slot_step i (world_at H u) (world_at H (Suc u))"

text \<open>
  Whoever reads a mask with the reader's bit learns of a moment the bit was set and after which nothing
  but steps of others has happened.
\<close>

definition since_set :: "nat \<Rightarrow> history \<Rightarrow> nat \<Rightarrow> bool" where
  "since_set i H u \<longleftrightarrow>
     (\<exists>w\<le>u. (\<forall>y. job_word y \<longrightarrow> w \<le> learned WMask H u y) \<and> bit (s_readers_mask (w_head (world_at H w))) i \<and>
        (\<forall>t. w \<le> t \<and> t < u \<longrightarrow> quiet_at i H t))"

definition history_ok :: "bool \<Rightarrow> nat \<Rightarrow> history \<Rightarrow> bool" where
  "history_ok ctl i H \<longleftrightarrow>
     (\<forall>u\<le>now H. slot_inv (world_at H u)) \<and>
     (\<forall>x. hs_view H x \<le> now H) \<and>
     (\<forall>u<now H. hs_view H WMask \<le> u \<longrightarrow> quiet_at i H u) \<and>
     (\<forall>u<now H. \<forall>x. ac_word (hs_acts H ! u) \<noteq> Some x \<longrightarrow>
        same_word x (w_cell (world_at H u)) (w_cell (world_at H (Suc u)))) \<and>
     (\<forall>u<now H. \<forall>y. ac_view (hs_acts H ! u) y \<le> Suc u) \<and>
     (\<not> ctl \<longrightarrow> (\<forall>u<now H. ac_word (hs_acts H ! u) = Some WState \<longrightarrow>
        (\<forall>y. job_word y \<longrightarrow> ac_view (hs_acts H ! u) y = Suc u))) \<and>
     (\<forall>u\<le>now H. bit (s_readers_mask (w_head (world_at H u))) i \<longrightarrow> since_set i H u)"

lemma act_sel [simp]:
  "hs_acts (act x g w H) = hs_acts H @ [\<lparr>ac_word = x, ac_view = g, ac_world = w\<rparr>]" "hs_view (act x g w H) = hs_view H"
  "hs_base (act x g w H) = hs_base H"
  by (simp_all add: act_def)

lemma world_at_act [simp]:
  "u \<le> now H \<Longrightarrow> world_at (act x g w H) u = world_at H u" "world_at (act x g w H) (Suc (now H)) = w"
  by (auto simp: world_at_def nth_append)

lemma world_at_view [simp]: "world_at (H\<lparr>hs_view := v\<rparr>) u = world_at H u"
  by (simp add: world_at_def)

lemma last_write_le: "last_write x as u \<le> u"
  by (induction u) auto

lemma last_write_append [simp]: "u \<le> length as \<Longrightarrow> last_write x (as @ bs) u = last_write x as u"
  by (induction u) (auto simp: nth_append)

lemma last_write_word: "0 < last_write x as u \<Longrightarrow> ac_word (as ! (last_write x as u - 1)) = Some x"
  by (induction u) (auto split: if_splits)

lemma learned_act [simp]:
  "u \<le> now H \<Longrightarrow> learned x (act z g w H) u = learned x H u"
  "learned x (act z g w H) (Suc (now H)) = (if z = Some x then g else learned x H (now H))"
  using last_write_le [of x "hs_acts H" u] last_write_le [of x "hs_acts H" "now H"]
  by (auto simp: learned_def Let_def nth_append fun_eq_iff)

lemma learned_view [simp]: "learned x (H\<lparr>hs_view := v\<rparr>) = learned x H"
  by (auto simp: learned_def Let_def fun_eq_iff)

lemma quiet_act [simp]:
  "u < now H \<Longrightarrow> quiet_at i (act x g w H) u = quiet_at i H u"
  "quiet_at i (act x g w H) (now H) = slot_step i (latest H) w"
  by (simp_all add: quiet_at_def)

lemma quiet_view [simp]: "quiet_at i (H\<lparr>hs_view := v\<rparr>) = quiet_at i H"
  by (simp add: quiet_at_def fun_eq_iff)

lemma since_set_act: "u \<le> now H \<Longrightarrow> since_set i H u \<Longrightarrow> since_set i (act x g w H) u"
  unfolding since_set_def by (elim exE conjE, rule_tac x = wa in exI) simp

lemma learned_le:
  assumes "history_ok ctl i H" "u \<le> now H"
  shows "learned x H u y \<le> u"
proof (cases "last_write x (hs_acts H) u")
  case (Suc w)
  then have "w < u" using last_write_le [of x "hs_acts H" u] by simp
  then have "ac_view (hs_acts H ! w) y \<le> Suc w" using assms by (simp add: history_ok_def)
  with \<open>w < u\<close> show ?thesis by (simp add: learned_def Suc)
qed (simp add: learned_def)

lemma history_start:
  assumes "hs_acts H = []" "hs_view H = (\<lambda>_. 0)" "slot_inv (hs_base H)"
  shows "history_ok ctl i H"
  using assms by (simp add: history_ok_def since_set_def world_at_def learned_def)

text \<open>An action that is not the reader's own.\<close>

lemma history_ok_act:
  assumes ok: "history_ok ctl i H" and step: "slot_step i (latest H) w'"
    and same: "\<And>x. wd \<noteq> Some x \<Longrightarrow> same_word x (w_cell (latest H)) (w_cell w')"
    and bound: "\<And>y. g y \<le> Suc (now H)"
    and commit: "\<And>y. \<not> ctl \<Longrightarrow> wd = Some WState \<Longrightarrow> job_word y \<Longrightarrow> g y = Suc (now H)"
    and rm: "wd = Some WMask \<Longrightarrow> bit (s_readers_mask (w_head w')) i \<Longrightarrow>
      (\<forall>y. job_word y \<longrightarrow> g y = Suc (now H)) \<or>
      (bit (s_readers_mask (w_head (latest H))) i \<and> (\<forall>y. learned WMask H (now H) y \<le> g y))"
  shows "history_ok ctl i (act wd g w' H)"
proof -
  let ?H = "act wd g w' H"
  have inv: "slot_inv w'" using ok by (intro slot_step_inv [OF step]) (simp add: history_ok_def)
  have since: "since_set i ?H (Suc (now H))" if b: "bit (s_readers_mask (w_head w')) i"
  proof (cases "wd = Some WMask \<and> (\<forall>y. job_word y \<longrightarrow> g y = Suc (now H))")
    case True
    then show ?thesis using b unfolding since_set_def
      by (intro exI [of _ "Suc (now H)"]) (simp, linarith)
  next
    case False
    have old: "bit (s_readers_mask (w_head (latest H))) i"
      using b rm same [of WMask] False by (cases "wd = Some WMask") auto
    then obtain w where w: "w \<le> now H" "\<forall>y. job_word y \<longrightarrow> w \<le> learned WMask H (now H) y"
        "bit (s_readers_mask (w_head (world_at H w))) i" "\<forall>t. w \<le> t \<and> t < now H \<longrightarrow> quiet_at i H t"
      using ok unfolding history_ok_def since_set_def by blast
    have "w \<le> learned WMask ?H (Suc (now H)) y" if "job_word y" for y
      using w(2) that rm [OF _ b] False by (auto intro: order_trans)
    then show ?thesis using w step unfolding since_set_def
      by (intro exI [of _ w]) (auto simp: less_Suc_eq)
  qed
  have "quiet_at i ?H u" if "u < Suc (now H)" "hs_view H WMask \<le> u" for u
    using ok step that by (cases "u = now H") (simp_all add: history_ok_def)
  moreover have "same_word x (w_cell (world_at ?H u)) (w_cell (world_at ?H (Suc u)))"
    if "u < Suc (now H)" "ac_word (hs_acts ?H ! u) \<noteq> Some x" for u x
    using ok same that by (cases "u = now H") (simp_all add: history_ok_def nth_append)
  moreover have "ac_view (hs_acts ?H ! u) y \<le> Suc u" if "u < Suc (now H)" for u y
    using ok bound that by (cases "u = now H") (simp_all add: history_ok_def nth_append)
  moreover have "ac_view (hs_acts ?H ! u) y = Suc u"
    if "\<not> ctl" "u < Suc (now H)" "ac_word (hs_acts ?H ! u) = Some WState" "job_word y" for u y
    using ok commit that by (cases "u = now H") (simp_all add: history_ok_def nth_append)
  moreover have "since_set i ?H u" if "u \<le> Suc (now H)" "bit (s_readers_mask (w_head (world_at ?H u))) i" for u
    using ok since that by (cases "u = Suc (now H)") (simp_all add: history_ok_def since_set_act)
  moreover have "slot_inv (world_at ?H u)" if "u \<le> Suc (now H)" for u
    using ok inv that by (cases "u = Suc (now H)") (simp_all add: history_ok_def)
  moreover have "hs_view H x \<le> Suc (now H)" for x using ok by (simp add: history_ok_def le_SucI)
  ultimately show ?thesis by (simp add: history_ok_def)
qed

text \<open>Only the reader's knowledge changes.\<close>

lemma history_ok_view:
  assumes "history_ok ctl i H" "\<And>y. hs_view H y \<le> v y \<and> v y \<le> now H"
  shows "history_ok ctl i (H\<lparr>hs_view := v\<rparr>)"
proof -
  have "hs_view H WMask \<le> u" if "v WMask \<le> u" for u using assms(2) [of WMask] that by simp
  with assms show ?thesis by (simp add: history_ok_def since_set_def)
qed

lemma load_view:
  assumes ok: "history_ok ctl i H" and may: "may_load x u H"
  shows "hs_view H y \<le> hs_view (load ord x u H) y" "hs_view (load ord x u H) y \<le> now H"
    "load ord x u H = H\<lparr>hs_view := hs_view (load ord x u H)\<rparr>"
  using learned_le [OF ok, of u x y] ok may
  by (auto simp: load_def may_load_def Let_def history_ok_def)

lemma history_ok_load: "history_ok ctl i H \<Longrightarrow> may_load x u H \<Longrightarrow> history_ok ctl i (load ord x u H)"
  by (subst load_view(3)) (auto intro!: history_ok_view dest: load_view)

lemma exec_mask_cases:
  "bit (s_readers_mask (ce_head (exec st c))) i \<Longrightarrow>
   (\<exists>v. st = StMask v) \<or> bit (s_readers_mask (ce_head c)) i"
  by (cases st) (auto simp: exec_def)

lemma store_word_mask: "store_word st = WMask \<longleftrightarrow> (\<exists>v. st = StMask v)"
  by (cases st) auto

lemma store_word_state: "store_word st = WState \<longleftrightarrow> (\<exists>v. st = StState v)"
  by (cases st) auto

lemma job_act:
  assumes ok: "history_ok ctl i H" and step: "slot_step i (latest H) w'"
    and cell: "w_cell w' = exec st (w_cell (latest H))"
  shows "history_ok ctl i (act (Some (store_word st)) (job_view ctl g st (now H)) w' H)"
proof (rule history_ok_act [OF ok step])
  show "same_word x (w_cell (latest H)) (w_cell w')" if "Some (store_word st) \<noteq> Some x" for x
    using that by (simp add: cell same_word_exec)
  show "job_view ctl g st (now H) y = Suc (now H)" if "\<not> ctl" "Some (store_word st) = Some WState" "job_word y" for y
    using that by (auto simp: job_view_def store_word_state COMMIT_RELEASE_def)
  show "(\<forall>y. job_word y \<longrightarrow> job_view ctl g st (now H) y = Suc (now H)) \<or>
      (bit (s_readers_mask (w_head (latest H))) i \<and> (\<forall>y. learned WMask H (now H) y \<le> job_view ctl g st (now H) y))"
    if "Some (store_word st) = Some WMask" using that by (auto simp: job_view_def store_word_mask)
qed (simp add: job_view_def)

lemma history_ok_others: "others ctl i H H' \<Longrightarrow> history_ok ctl i H \<Longrightarrow> history_ok ctl i H'"
proof (induction rule: others.induct)
  case (ot_begin H j)
  then show ?case by (intro history_ok_act) (auto intro: sl_begin)
next
  case (ot_store H j b k st g)
  then show ?case by (intro job_act) (auto intro: sl_store)
next
  case (ot_last H j b k st g)
  then show ?case by (intro job_act) (auto intro: sl_last)
next
  case (ot_die H)
  then show ?case by (intro history_ok_act) (auto intro: sl_die)
next
  case (ot_clear j H g)
  then have "learned WMask H (now H) y \<le> Suc (now H)" for y by (simp add: learned_le le_SucI)
  with ot_clear show ?case
    by (intro history_ok_act) (auto intro: sl_release same_word_exec simp: clear_view_def exec_mask bit_and_not_one_bit)
next
  case (ot_mirror H g n)
  then show ?case by (intro history_ok_act) (auto intro: sl_mirror same_word_exec)
next
  case (ot_learn H g)
  then show ?case by (intro history_ok_view) auto
qed

lemma since_set_view [simp]: "since_set i (H\<lparr>hs_view := v\<rparr>) = since_set i H"
  by (simp add: since_set_def fun_eq_iff)

lemma history_ok_release:
  assumes ok: "history_ok ctl i H"
  shows "history_ok ctl i (own_release i H)"
proof -
  define c where "c = exec (StMask (s_readers_mask (w_head (latest H)) AND NOT (one_bit i))) (w_cell (latest H))"
  define w' where "w' = (latest H)\<lparr>w_cell := c\<rparr>"
  define v where "v = (\<lambda>y. max (hs_view H y) (learned WMask H (now H) y))(WMask := Suc (now H))"
  have le: "v y \<le> Suc (now H)" for y
    using ok learned_le [OF ok, of "now H" WMask y] by (simp add: v_def history_ok_def le_SucI)
  let ?A = "act (Some WMask) v w' H"
  let ?H = "?A\<lparr>hs_view := v\<rparr>"
  have eq: "own_release i H = ?H" by (simp add: own_release_def Let_def c_def w'_def v_def)
  have inv: "slot_inv w'" unfolding w'_def
    by (rule slot_inv_interfere) (use ok in \<open>auto simp: history_ok_def c_def exec_mask bit_and_not_one_bit\<close>)
  have none: "\<not> bit (s_readers_mask (w_head w')) i"
    by (simp add: w'_def c_def exec_mask bit_and_not_one_bit)
  have "same_word x (w_cell (world_at ?H u)) (w_cell (world_at ?H (Suc u)))"
    if "u < Suc (now H)" "ac_word (hs_acts ?H ! u) \<noteq> Some x" for u x
    using ok that by (cases "u = now H") (auto simp: history_ok_def nth_append w'_def c_def intro: same_word_exec)
  moreover have "ac_view (hs_acts ?H ! u) y \<le> Suc u" if "u < Suc (now H)" for u y
    using ok le that by (cases "u = now H") (simp_all add: history_ok_def nth_append)
  moreover have "ac_view (hs_acts ?H ! u) y = Suc u"
    if "\<not> ctl" "u < Suc (now H)" "ac_word (hs_acts ?H ! u) = Some WState" "job_word y" for u y
    using ok that by (cases "u = now H") (simp_all add: history_ok_def nth_append)
  moreover have "since_set i ?H u" if "u \<le> Suc (now H)" "bit (s_readers_mask (w_head (world_at ?H u))) i" for u
    using ok none that by (cases "u = Suc (now H)") (simp_all add: history_ok_def since_set_act)
  moreover have "slot_inv (world_at ?H u)" if "u \<le> Suc (now H)" for u
    using ok inv that by (cases "u = Suc (now H)") (simp_all add: history_ok_def)
  moreover have "v WMask = Suc (now H)" by (simp add: v_def)
  ultimately show ?thesis using le by (simp add: eq history_ok_def)
qed

interpretation history_run: preserved_by "running ctl i" "history_ok ctl i" for ctl i
  by unfold_locales (auto elim!: running.cases holding.cases intro: history_ok_others history_ok_load history_ok_release)

interpretation history_held: preserved_by "holding ctl i" "history_ok ctl i" for ctl i
  by unfold_locales (auto elim!: holding.cases intro: history_ok_others history_ok_load)

subsection \<open>What a load tells\<close>

text \<open>From \<open>w\<close> on the slot has been addressed to the reader, and the reader knows it.\<close>

definition watched :: "nat \<Rightarrow> nat \<Rightarrow> history \<Rightarrow> bool" where
  "watched i w H \<longleftrightarrow>
     w \<le> now H \<and> (\<forall>y. job_word y \<longrightarrow> w \<le> hs_view H y) \<and>
     slot_inv (world_at H w) \<and> addressed i (world_at H w) \<and> (\<forall>t. w \<le> t \<and> t < now H \<longrightarrow> quiet_at i H t)"

text \<open>From \<open>f\<close> on it has stood still with the cell \<open>c\<close> and the log \<open>log\<close>.\<close>

definition held :: "nat \<Rightarrow> nat \<Rightarrow> cell \<Rightarrow> (job \<times> cell) list \<Rightarrow> history \<Rightarrow> bool" where
  "held i f c log H \<longleftrightarrow>
     f \<le> now H \<and> (\<forall>y. job_word y \<longrightarrow> f \<le> hs_view H y) \<and>
     (\<forall>t. f \<le> t \<and> t \<le> now H \<longrightarrow> frozen i c log (world_at H t))"

text \<open>A step of others appends at most one quiet action.\<close>

lemma others_shape:
  "others ctl i H H' \<Longrightarrow>
   (\<exists>v. H' = H\<lparr>hs_view := v\<rparr> \<and> (\<forall>y. hs_view H y \<le> v y)) \<or>
   (\<exists>x g w. H' = act x g w H \<and> slot_step i (latest H) w)"
proof (induction rule: others.induct)
  case (ot_begin H j)
  from sl_begin [OF ot_begin] show ?case by blast
next
  case (ot_store H j b k st g)
  from sl_store [OF ot_store(1,2)] ot_store(3) show ?case by blast
next
  case (ot_last H j b k st g)
  from sl_last [OF ot_last(1,2)] ot_last(3) show ?case by blast
next
  case (ot_die H)
  from sl_die show ?case by blast
next
  case (ot_clear j H g)
  from sl_release [OF ot_clear] show ?case by blast
next
  case (ot_mirror H g n)
  from sl_mirror show ?case by blast
next
  case (ot_learn H g)
  then show ?case by blast
qed

lemma holding_shape:
  assumes "holding ctl i H H'" "history_ok ctl i H"
  shows "(\<exists>v. H' = H\<lparr>hs_view := v\<rparr> \<and> (\<forall>y. hs_view H y \<le> v y)) \<or>
    (\<exists>x g w. H' = act x g w H \<and> slot_step i (latest H) w)"
  using assms
proof (induction rule: holding.induct)
  case (hd_load x u H ord)
  then show ?case using load_view [of ctl i H x u] by metis
qed (rule others_shape)

lemma watched_holding:
  assumes step: "holding ctl i H H'" and ok: "history_ok ctl i H" and w: "watched i w H"
  shows "watched i w H'"
  using holding_shape [OF step ok] w
  by (auto simp: watched_def less_Suc_eq intro: order_trans)

lemma quiet_steps:
  assumes "\<And>t. w \<le> t \<Longrightarrow> t < u \<Longrightarrow> quiet_at i H t" "w \<le> u"
  shows "(slot_step i)\<^sup>*\<^sup>* (world_at H w) (world_at H u)"
  using assms(2,1)
proof (induction rule: dec_induct)
  case (step t)
  then have "(slot_step i)\<^sup>*\<^sup>* (world_at H w) (world_at H t)" "slot_step i (world_at H t) (world_at H (Suc t))"
    by (simp_all add: quiet_at_def)
  then show ?case by simp
qed simp

lemma held_holding:
  assumes step: "holding ctl i H H'" and ok: "history_ok ctl i H" and f: "held i f c log H"
  shows "held i f c log H'"
proof -
  have at: "frozen i c log (latest H)" using f by (simp add: held_def)
  from holding_shape [OF step ok] f slot_step_frozen [OF _ at] show ?thesis
    by (auto simp: held_def le_Suc_eq intro: order_trans)
qed

text \<open>Reading the mask with the reader's bit set.\<close>

lemma load_sel [simp]: "hs_acts (load ord x u H) = hs_acts H" "hs_base (load ord x u H) = hs_base H"
  by (simp_all add: load_def Let_def)

lemma world_at_load [simp]: "world_at (load ord x u H) = world_at H"
  by (simp add: world_at_def fun_eq_iff)

lemma quiet_load [simp]: "quiet_at i (load ord x u H) = quiet_at i H"
  by (simp add: quiet_at_def fun_eq_iff)

lemma load_learns: "ord = Acquire \<Longrightarrow> learned x H u y \<le> hs_view (load ord x u H) y"
  by (simp add: load_def Let_def)

lemma mask_seen:
  assumes ok: "history_ok ctl i H" and may: "may_load WMask u H"
    and b: "bit (s_readers_mask (w_head (world_at H u))) i"
  shows "\<exists>w. watched i w (load Acquire WMask u H)"
proof -
  have u: "hs_view H WMask \<le> u" "u \<le> now H" using may by (simp_all add: may_load_def)
  obtain w where w: "w \<le> u" "\<forall>y. job_word y \<longrightarrow> w \<le> learned WMask H u y" "bit (s_readers_mask (w_head (world_at H w))) i"
      "\<forall>t. w \<le> t \<and> t < u \<longrightarrow> quiet_at i H t"
    using ok b u(2) unfolding history_ok_def since_set_def by blast
  have "quiet_at i H t" if "w \<le> t" "t < now H" for t
    using w(4) ok u(1) that by (cases "t < u") (auto simp: history_ok_def)
  moreover have "slot_inv (world_at H w)" using ok w(1) u(2) by (simp add: history_ok_def)
  moreover from this w(3) have "addressed i (world_at H w)" by (rule addressed_seen)
  moreover have "w \<le> hs_view (load Acquire WMask u H) y" if "job_word y" for y
    using w(2) that load_learns [of Acquire WMask H u y] by (auto intro: order_trans)
  ultimately show ?thesis
    using w(1) u(2) by (intro exI [of _ w]) (simp add: watched_def)
qed

text \<open>Then reading \<^verbatim>\<open>COMMITTED\<close> in the state.\<close>

lemma word_between:
  assumes ok: "history_ok ctl i H" and "u \<le> now H" "last_write x (hs_acts H) u \<le> t" "t \<le> u"
  shows "same_word x (w_cell (world_at H t)) (w_cell (world_at H u))"
  using assms(2,3,4)
proof (induction u)
  case (Suc u)
  show ?case
  proof (cases "ac_word (hs_acts H ! u) = Some x \<or> t = Suc u")
    case False
    with Suc have "same_word x (w_cell (world_at H t)) (w_cell (world_at H u))" by simp
    moreover have "same_word x (w_cell (world_at H u)) (w_cell (world_at H (Suc u)))"
      using ok Suc.prems(1) False by (simp add: history_ok_def)
    ultimately show ?thesis by (rule same_word_trans)
  qed (use Suc.prems in auto)
qed simp

text \<open>Without the control a state store carries all its writer knows of the words of jobs.\<close>

lemma state_learned:
  assumes ok: "history_ok False i H" and u: "u \<le> now H" and y: "job_word y"
  shows "learned WState H u y = last_write WState (hs_acts H) u"
proof (cases "last_write WState (hs_acts H) u")
  case (Suc w)
  then have "w < now H" "ac_word (hs_acts H ! w) = Some WState"
    using last_write_le [of WState "hs_acts H" u] last_write_word [of WState "hs_acts H" u] u by simp_all
  then have "ac_view (hs_acts H ! w) y = Suc w" using ok y by (simp add: history_ok_def)
  then show ?thesis by (simp add: learned_def Suc)
qed (simp add: learned_def)

lemma state_seen:
  assumes ok: "history_ok False i H" and w: "watched i w H" and may: "may_load WState u H"
    and state: "s_state (w_head (world_at H u)) = STATE_COMMITTED"
  shows "\<exists>f. held i f (w_cell (world_at H f)) (w_log (world_at H f)) (load Acquire WState u H) \<and>
    slot_inv (world_at H f)"
proof -
  let ?p = "last_write WState (hs_acts H) u"
  define f where "f = max w ?p"
  have u: "hs_view H WState \<le> u" "u \<le> now H" using may by (simp_all add: may_load_def)
  have wv: "w \<le> hs_view H y" if "job_word y" for y using w that by (simp add: watched_def)
  have "w \<le> u" using wv [of WState] u(1) by (simp add: job_word_def)
  then have f: "w \<le> f" "f \<le> u" "?p \<le> f"
    using last_write_le [of WState "hs_acts H" u] by (simp_all add: f_def)
  have steps: "(slot_step i)\<^sup>*\<^sup>* (world_at H t) (world_at H t')" if "w \<le> t" "t \<le> t'" "t' \<le> now H" for t t'
    using w that by (intro quiet_steps) (simp_all add: watched_def)
  have "slot_inv (world_at H w) \<and> addressed i (world_at H w)" using w by (simp add: watched_def)
  then have at: "slot_inv (world_at H f)" "addressed i (world_at H f)"
    using addressed_run.run_inv [OF steps [of w f]] f u(2) by simp_all
  have "s_state (w_head (world_at H f)) = STATE_COMMITTED"
    using word_between [OF ok u(2) f(3,2)] state by simp
  with at have fr: "frozen i (w_cell (world_at H f)) (w_log (world_at H f)) (world_at H f)"
    by (rule frozen_committed)
  have "frozen i (w_cell (world_at H f)) (w_log (world_at H f)) (world_at H t)" if "f \<le> t" "t \<le> now H" for t
    using frozen_run.run_inv [OF steps [of f t] fr] f(1) that by simp
  moreover have "f \<le> hs_view (load Acquire WState u H) y" if y: "job_word y" for y
    using wv [OF y] load_view(1) [OF ok may, of y Acquire] load_learns [of Acquire WState H u y]
      state_learned [OF ok u(2) y] by (simp add: f_def)
  ultimately show ?thesis using at(1) f(2) u(2) by (intro exI [of _ f]) (simp add: held_def)
qed

text \<open>And from then on every permitted load of a word of the job reads what stands still.\<close>

lemma same_word_core:
  assumes "core a = core b" "job_word x"
  shows "same_word x a b"
proof -
  have "same_word x c (core c)" for c
    using assms(2) by (cases x) (simp_all add: job_word_def core_def)
  then show ?thesis using assms(1) same_word_trans same_word_sym by metis
qed

lemma held_load:
  assumes f: "held i f c log H" and may: "may_load x u H" and x: "job_word x"
  shows "same_word x (w_cell (world_at H u)) c"
proof -
  have "f \<le> hs_view H x" using f x by (simp add: held_def)
  then have "frozen i c log (world_at H u)" using f may by (simp add: held_def may_load_def)
  with x show ?thesis by (simp add: frozen_def same_word_core)
qed

subsection \<open>The loads of a take\<close>

text \<open>
  A load asks for an ordering and a word and finds a value, given by a header that has it. \<open>scan_reads\<close>
  are the loads \<^verbatim>\<open>scan_oldest\<close> makes of slot \<open>s\<close>, \<open>later_passes\<close> the passes \<^verbatim>\<open>try_take\<close> goes through after
  the first, \<open>validated_reads\<close> those of a \<^verbatim>\<open>read_validated\<close> that returns a value.
\<close>

type_synonym read = "ordering \<times> word_at \<times> slot_header"

definition scan_reads :: "consumer \<Rightarrow> trace \<Rightarrow> nat \<Rightarrow> read list" where
  "scan_reads c tr s =
     (Acquire, WState, slots (tr (3 * s)) ! s) #
     (if s_state (slots (tr (3 * s)) ! s) \<noteq> STATE_COMMITTED then []
      else (Acquire, WMask, slots (tr (3 * s + 1)) ! s) #
        (if s_readers_mask (slots (tr (3 * s + 1)) ! s) AND consumer_bit c = 0 then []
         else [(Acquire, WSequence, slots (tr (3 * s + 2)) ! s)]))"

fun later_passes :: "consumer \<Rightarrow> nat \<Rightarrow> (nat \<Rightarrow> trace) \<Rightarrow> nat \<Rightarrow> nat \<Rightarrow> u64 \<times> nat \<Rightarrow> nat list" where
  "later_passes c n trs 0 k best = []"
| "later_passes c n trs (Suc m) k best =
     k # (case scan_oldest c n (trs k) of
            Some nxt \<Rightarrow> if seq_newer (fst best) (fst nxt) then later_passes c n trs m (k + 1) nxt else []
          | None \<Rightarrow> [])"

definition take_passes :: "consumer \<Rightarrow> nat \<Rightarrow> (nat \<Rightarrow> trace) \<Rightarrow> nat list" where
  "take_passes c n trs =
     0 # (case scan_oldest c n (trs 0) of None \<Rightarrow> [] | Some first \<Rightarrow> later_passes c n trs n 1 first)"

definition validated_loads :: "bool \<Rightarrow> (ordering \<times> word_at) list" where
  "validated_loads ctl =
     [(COMMIT_ACQUIRE ctl, WState), (Acquire, WSequence), (Relaxed, WNdim), (Relaxed, WDtype), (Relaxed, WNbytes),
      (Relaxed, WTimestamp)] @
     concat (map (\<lambda>d. [(Relaxed, WShape d), (Relaxed, WStride d)]) [0..<MAX_NDIM]) @
     [(Acquire, WMask), (COMMIT_ACQUIRE ctl, WState), (Acquire, WSequence), (Acquire, WMask)]"

definition validated_reads :: "bool \<Rightarrow> trace \<Rightarrow> nat \<Rightarrow> read list" where
  "validated_reads ctl tr s =
     map (\<lambda>k. case validated_loads ctl ! k of (ord, x) \<Rightarrow> (ord, x, slots (tr k) ! s)) [0..<26]"

text \<open>The loads of slot \<open>s\<close> in a \<^verbatim>\<open>try_take\<close> that delivers from it.\<close>

definition take_reads :: "bool \<Rightarrow> consumer \<Rightarrow> nat \<Rightarrow> (nat \<Rightarrow> trace) \<Rightarrow> nat \<Rightarrow> read list" where
  "take_reads ctl c n trs s =
     concat (map (\<lambda>p. scan_reads c (trs p) s) (take_passes c n trs)) @ validated_reads ctl (trs (n + 1)) s"

definition finds :: "word_at \<Rightarrow> slot_header \<Rightarrow> history \<Rightarrow> nat \<Rightarrow> bool" where
  "finds x h H u \<longleftrightarrow> same_word x \<lparr>ce_head = h, ce_data = []\<rparr> (w_cell (world_at H u))"

inductive performs :: "bool \<Rightarrow> nat \<Rightarrow> read list \<Rightarrow> history \<Rightarrow> history \<Rightarrow> bool" for ctl i where
  pf_done: "performs ctl i [] H H"
| pf_wait: "holding ctl i H H' \<Longrightarrow> performs ctl i rs H' H'' \<Longrightarrow> performs ctl i rs H H''"
| pf_load: "may_load x u H \<Longrightarrow> finds x h H u \<Longrightarrow> performs ctl i rs (load ord x u H) H'' \<Longrightarrow>
    performs ctl i ((ord, x, h) # rs) H H''"

lemma performs_holding: "performs ctl i rs H H' \<Longrightarrow> (holding ctl i)\<^sup>*\<^sup>* H H'"
  by (induction rule: performs.induct) (auto intro: converse_rtranclp_into_rtranclp hd_load)

lemma performs_append:
  "performs ctl i (rs @ qs) H H'' \<Longrightarrow> \<exists>H'. performs ctl i rs H H' \<and> performs ctl i qs H' H''"
proof (induction "rs @ qs" H H'' arbitrary: rs rule: performs.induct)
  case (pf_done H)
  then show ?case by (auto intro: performs.pf_done)
next
  case (pf_wait H H' H'')
  then show ?case by (blast intro: performs.pf_wait)
next
  case (pf_load x u H h rs' ord H'')
  then show ?case by (cases rs) (auto intro: performs.intros)
qed

interpretation watched_run: preserved_by "holding ctl i" "\<lambda>H. history_ok ctl i H \<and> watched i w H" for ctl i w
  by unfold_locales (blast intro: history_held.step_inv watched_holding)

interpretation held_run: preserved_by "holding ctl i" "\<lambda>H. history_ok ctl i H \<and> held i f c log H" for ctl i f c log
  by unfold_locales (blast intro: history_held.step_inv held_holding)

lemma performs_mask:
  assumes "performs ctl i rs H H'" "history_ok ctl i H" "(Acquire, WMask, h) \<in> set rs" "bit (s_readers_mask h) i"
  shows "\<exists>w. watched i w H'"
  using assms
proof (induction rule: performs.induct)
  case (pf_wait H H' rs H'')
  then show ?case by (blast intro: history_held.step_inv)
next
  case (pf_load x u H g rs ord H'')
  show ?case
  proof (cases "(ord, x, g) = (Acquire, WMask, h)")
    case True
    then obtain w where "watched i w (load ord x u H)"
      using mask_seen [of ctl i H u] pf_load by (auto simp: finds_def)
    then show ?thesis
      using watched_run.run_inv [OF performs_holding [OF pf_load(3)]] history_ok_load [OF pf_load(5,1)] by blast
  next
    case False
    with pf_load history_ok_load [OF pf_load(5,1)] show ?thesis by auto
  qed
qed simp

lemma performs_held:
  assumes "performs ctl i rs H H'" "history_ok ctl i H" "held i f c log H"
  shows "held i f c log H' \<and> (\<forall>(ord, x, h)\<in>set rs. job_word x \<longrightarrow> same_word x \<lparr>ce_head = h, ce_data = []\<rparr> c)"
  using assms
proof (induction rule: performs.induct)
  case (pf_wait H H' rs H'')
  then show ?case by (blast intro: history_held.step_inv held_holding)
next
  case (pf_load x u H h rs ord H'')
  have "holding ctl i H (load ord x u H)" using pf_load(1) by (rule hd_load)
  then have "held i f c log (load ord x u H)" "history_ok ctl i (load ord x u H)"
    using pf_load(5,6) by (blast intro: history_held.step_inv held_holding)+
  moreover have "job_word x \<longrightarrow> same_word x \<lparr>ce_head = h, ce_data = []\<rparr> c"
    using held_load [OF pf_load(6,1)] pf_load(2) unfolding finds_def by (blast intro: same_word_trans)
  ultimately show ?case using pf_load(4) by simp
qed simp

lemma performs_first:
  "performs ctl i ((ord, x, h) # rs) H H'' \<Longrightarrow>
   \<exists>H1 u. (holding ctl i)\<^sup>*\<^sup>* H H1 \<and> may_load x u H1 \<and> finds x h H1 u \<and> performs ctl i rs (load ord x u H1) H''"
proof (induction "(ord, x, h) # rs" H H'' rule: performs.induct)
  case (pf_wait H H' H'')
  then show ?case by (meson converse_rtranclp_into_rtranclp)
qed blast

subsection \<open>The passes saw the bit\<close>

definition saw_bit :: "consumer \<Rightarrow> trace \<Rightarrow> nat \<Rightarrow> bool" where
  "saw_bit c tr s \<longleftrightarrow>
     s_state (slots (tr (3 * s)) ! s) = STATE_COMMITTED \<and>
     s_readers_mask (slots (tr (3 * s + 1)) ! s) AND consumer_bit c \<noteq> 0"

lemma scan_oldest_saw:
  assumes "scan_oldest c n tr = Some b"
  shows "saw_bit c tr (snd b)"
proof -
  have step: "pred_option (saw_bit c tr \<circ> snd) best \<Longrightarrow> pred_option (saw_bit c tr \<circ> snd) (scan_step c tr k best)" for k best
    by (auto simp: scan_step_def Let_def saw_bit_def split: option.split)
  have "pred_option (saw_bit c tr \<circ> snd) best \<Longrightarrow> pred_option (saw_bit c tr \<circ> snd) (fold (scan_step c tr) ks best)" for ks best
    by (induction ks arbitrary: best) (simp_all add: step)
  from this [of None "[0..<n]"] assms show ?thesis by (simp add: scan_oldest_def)
qed

lemma rescan_saw:
  "\<exists>p\<in>P. saw_bit c (trs p) (snd b) \<Longrightarrow>
   \<exists>p\<in>P \<union> set (later_passes c n trs m k b). saw_bit c (trs p) (snd (rescan c n trs m k b))"
proof (induction c n trs m k b arbitrary: P rule: rescan.induct)
  case (2 c n trs m k b)
  show ?case
  proof (cases "scan_oldest c n (trs k)")
    case (Some nxt)
    have "\<exists>p\<in>insert k P. saw_bit c (trs p) (snd nxt)" using scan_oldest_saw [OF Some] by blast
    from 2(1) [OF Some _ this] Some 2(2) show ?thesis by auto
  qed (use 2(2) in auto)
qed simp

lemma take_saw:
  assumes take: "try_take cap c n trs = Some m"
  shows "\<exists>h. (Acquire, WMask, h) \<in> set (concat (map (\<lambda>p. scan_reads c (trs p) (m_slot_index m)) (take_passes c n trs))) \<and>
    bit (s_readers_mask h) (c_index c)"
proof -
  obtain first where first: "scan_oldest c n (trs 0) = Some first"
    using take by (auto simp: try_take_def split: option.splits)
  obtain sq s where best: "rescan c n trs n 1 first = (sq, s)" by force
  have "read_validated cap c (trs (n + 1)) s sq = Some m"
    using take first best by (simp add: try_take_def)
  then have s: "m_slot_index m = s"
    by (auto simp: read_validated_def Let_def split: if_splits option.splits)
  have "\<exists>p\<in>{0} \<union> set (later_passes c n trs n 1 first). saw_bit c (trs p) s"
    using rescan_saw [of "{0}" c trs first n n 1] scan_oldest_saw [OF first] best by simp
  then obtain p where p: "p \<in> set (take_passes c n trs)" "saw_bit c (trs p) s"
    by (auto simp: take_passes_def first)
  moreover from p(2) have "(Acquire, WMask, slots (trs p (3 * s + 1)) ! s) \<in> set (scan_reads c (trs p) s)"
    by (auto simp: saw_bit_def scan_reads_def)
  ultimately show ?thesis
    by (intro exI [of _ "slots (trs p (3 * s + 1)) ! s"]) (auto simp: s saw_bit_def and_consumer_bit)
qed

subsection \<open>Delivery under release and acquire\<close>

lemma validated_loads_nth:
  "length (validated_loads ctl) = 26"
  "validated_loads ctl ! 0 = (COMMIT_ACQUIRE ctl, WState)"
  "validated_loads ctl ! 1 = (Acquire, WSequence)" "validated_loads ctl ! 2 = (Relaxed, WNdim)"
  "validated_loads ctl ! 3 = (Relaxed, WDtype)" "validated_loads ctl ! 4 = (Relaxed, WNbytes)"
  "validated_loads ctl ! 5 = (Relaxed, WTimestamp)"
  "d < MAX_NDIM \<Longrightarrow> validated_loads ctl ! (6 + 2 * d) = (Relaxed, WShape d)"
  "d < MAX_NDIM \<Longrightarrow> validated_loads ctl ! (7 + 2 * d) = (Relaxed, WStride d)"
  by (simp_all add: validated_loads_def MAX_NDIM_def upt_rec)
    (auto simp: numeral_eq_Suc less_Suc_eq)

lemma validated_reads_first:
  "validated_reads ctl tr s = (COMMIT_ACQUIRE ctl, WState, slots (tr 0) ! s) # tl (validated_reads ctl tr s)"
  by (simp add: validated_reads_def validated_loads_nth(2) upt_rec)

lemma validated_reads_later:
  "0 < k \<Longrightarrow> k < 26 \<Longrightarrow> validated_loads ctl ! k = (ord, x) \<Longrightarrow>
   (ord, x, slots (tr k) ! s) \<in> set (tl (validated_reads ctl tr s))"
proof -
  assume k: "0 < k" "k < 26" "validated_loads ctl ! k = (ord, x)"
  let ?f = "\<lambda>k. case validated_loads ctl ! k of (ord, x) \<Rightarrow> (ord, x, slots (tr k) ! s)"
  have "tl (validated_reads ctl tr s) = map ?f [1..<26]"
    unfolding validated_reads_def map_tl [symmetric] tl_upt by simp
  moreover have "?f k \<in> set (map ?f [1..<26])" using k(1,2) unfolding set_map by (intro imageI) simp
  ultimately show ?thesis using k(3) by simp
qed

lemma take_held:
  assumes ok: "history_ok False (c_index c) H" and take: "try_take cap c n trs = Some m"
    and reads: "performs False (c_index c) (take_reads False c n trs (m_slot_index m)) H H'"
  shows "\<exists>f w. held (c_index c) f (w_cell w) (w_log w) H' \<and> slot_inv w \<and> history_ok False (c_index c) H' \<and>
    (\<forall>k ord x. 0 < k \<longrightarrow> k < 26 \<longrightarrow> validated_loads False ! k = (ord, x) \<longrightarrow> job_word x \<longrightarrow>
       same_word x \<lparr>ce_head = slots (trs (n + 1) k) ! m_slot_index m, ce_data = []\<rparr> (w_cell w))"
proof -
  let ?i = "c_index c" and ?s = "m_slot_index m"
  let ?v = "validated_reads False (trs (n + 1)) ?s"
  have rv: "read_validated cap c (trs (n + 1)) ?s (m_sequence m) = Some m"
    using try_take_any [OF take] by simp
  obtain H1 where scans: "performs False ?i (concat (map (\<lambda>p. scan_reads c (trs p) ?s) (take_passes c n trs))) H H1"
    and valid: "performs False ?i ?v H1 H'"
    using performs_append [OF reads [unfolded take_reads_def]] by blast
  have valid': "performs False ?i ((COMMIT_ACQUIRE False, WState, slots (trs (n + 1) 0) ! ?s) # tl ?v) H1 H'"
    using valid by (subst validated_reads_first [symmetric])
  have ok1: "history_ok False ?i H1" using history_held.run_inv [OF performs_holding [OF scans] ok] .
  obtain w where w: "watched ?i w H1" using performs_mask [OF scans ok] take_saw [OF take] by blast
  obtain H2 u where h2: "(holding False ?i)\<^sup>*\<^sup>* H1 H2" "may_load WState u H2"
      "finds WState (slots (trs (n + 1) 0) ! ?s) H2 u"
      "performs False ?i (tl ?v) (load Acquire WState u H2) H'"
    using performs_first [OF valid'] by (auto simp: COMMIT_ACQUIRE_def)
  have ok2: "history_ok False ?i H2" "watched ?i w H2"
    using watched_run.run_inv [OF h2(1)] ok1 w by blast+
  have "s_state (w_head (world_at H2 u)) = STATE_COMMITTED"
    using h2(3) read_validated_fields(1) [OF rv] by (simp add: finds_def)
  then obtain f where f: "held ?i f (w_cell (world_at H2 f)) (w_log (world_at H2 f)) (load Acquire WState u H2)"
      "slot_inv (world_at H2 f)"
    using state_seen [OF ok2 h2(2)] by blast
  have ok3: "history_ok False ?i (load Acquire WState u H2)" using history_ok_load [OF ok2(1) h2(2)] .
  have fin: "held ?i f (w_cell (world_at H2 f)) (w_log (world_at H2 f)) H'"
    "\<forall>(ord, x, h)\<in>set (tl ?v). job_word x \<longrightarrow> same_word x \<lparr>ce_head = h, ce_data = []\<rparr> (w_cell (world_at H2 f))"
    using performs_held [OF h2(4) ok3 f(1)] by blast+
  have "history_ok False ?i H'" using history_held.run_inv [OF performs_holding [OF h2(4)] ok3] .
  moreover have "same_word x \<lparr>ce_head = slots (trs (n + 1) k) ! ?s, ce_data = []\<rparr> (w_cell (world_at H2 f))"
    if "0 < k" "k < 26" "validated_loads False ! k = (ord, x)" "job_word x" for k ord x
    using bspec [OF fin(2) validated_reads_later [OF that(1-3)]] that(4) by simp
  ultimately show ?thesis using fin(1) f(2) by blast
qed

text \<open>
  Claim C7. Delivery needs no more than the orderings the source asks for. Whatever \<^verbatim>\<open>Acquire\<close>,
  \<^verbatim>\<open>Release\<close> and \<^verbatim>\<open>Relaxed\<close> allow each load to find, what \<^verbatim>\<open>try_take\<close> returns is the header of one
  committed publication, and every byte of the payload loaded until the consumer releases the slot is
  that publication's.
\<close>

theorem acquire_take:
  assumes start: "hs_acts H0 = []" "hs_view H0 = (\<lambda>_. 0)" "slot_inv (hs_base H0)"
    and before: "(running False (c_index c))\<^sup>*\<^sup>* H0 H"
    and take: "try_take cap c n trs = Some m"
    and reads: "performs False (c_index c) (take_reads False c n trs (m_slot_index m)) H H1"
    and after: "(holding False (c_index c))\<^sup>*\<^sup>* H1 H2"
  shows "\<exists>v body b. (Publication v body, b) \<in> set (w_log (latest H2)) \<and>
    m_sequence m = rv_sequence v \<and> m_nbytes m = rv_nbytes v \<and> dtype_code (m_dtype m) = rv_dtype v \<and>
    m_ndim m = unat (rv_ndim v) \<and> m_timestamp_ns m = stamp_after (rv_timestamp v) body \<and>
    (\<forall>d<MAX_NDIM. m_shape m ! d = rv_shape v ! d \<and> m_strides m ! d = rv_strides v ! d) \<and>
    (\<forall>k u. may_load (WByte k) u H2 \<longrightarrow>
       ce_data (w_cell (world_at H2 u)) ! k = fold data_store body (ce_data b) ! k)"
proof -
  let ?i = "c_index c" and ?s = "m_slot_index m"
  have ok: "history_ok False ?i H" using history_run.run_inv [OF before history_start [OF start]] .
  obtain f w where f: "held ?i f (w_cell w) (w_log w) H1" "slot_inv w" "history_ok False ?i H1"
    and same: "\<And>k ord x. 0 < k \<Longrightarrow> k < 26 \<Longrightarrow> validated_loads False ! k = (ord, x) \<Longrightarrow> job_word x \<Longrightarrow>
       same_word x \<lparr>ce_head = slots (trs (n + 1) k) ! ?s, ce_data = []\<rparr> (w_cell w)"
    using take_held [OF ok take reads] by blast
  have held: "held ?i f (w_cell w) (w_log w) H2" using held_run.run_inv [OF after] f by blast
  then have fr: "frozen ?i (w_cell w) (w_log w) (latest H2)" by (simp add: held_def)
  have rv: "read_validated cap c (trs (n + 1)) ?s (m_sequence m) = Some m"
    using try_take_any [OF take] by simp
  have "s_state (w_head w) = STATE_COMMITTED" using fr core_eqD(1) [of "w_cell (latest H2)" "w_cell w"] by (simp add: frozen_def)
  with f(2) obtain jb where jb: "jb \<in> set (w_log w)" "written jb (w_cell w)" by (auto simp: slot_inv_def)
  moreover from this(1) f(2) obtain v body b where eq: "jb = (Publication v body, b)" "list_all body_store body" "dims_ok b"
    by (auto simp: slot_inv_def log_ok_def)
  ultimately have core: "core (w_cell w) = core (published_cell v body b)"
    by (simp add: written_def published_cell_def)
  note fields = published_fields [OF eq(3,2), where v = v]
  have word: "same_word x \<lparr>ce_head = slots (trs (n + 1) k) ! ?s, ce_data = []\<rparr> (published_cell v body b)"
    if "0 < k" "k < 26" "validated_loads False ! k = (ord, x)" "job_word x" for k ord x
    using same [OF that] same_word_core [OF core that(4)] by (rule same_word_trans)
  note meta = read_validated_fields [OF rv]
  have "m_sequence m = rv_sequence v"
    using word [OF _ _ validated_loads_nth(3)] unfolding meta(2) [symmetric] fields(2) [symmetric]
    by (simp add: job_word_def)
  moreover have "m_ndim m = unat (rv_ndim v)"
    using word [OF _ _ validated_loads_nth(4)] unfolding meta(5) fields(6) [symmetric] by (simp add: job_word_def)
  moreover have "dtype_code (m_dtype m) = rv_dtype v"
    using word [OF _ _ validated_loads_nth(5)] unfolding meta(4) fields(5) [symmetric] by (simp add: job_word_def)
  moreover have "m_nbytes m = rv_nbytes v"
    using word [OF _ _ validated_loads_nth(6)] unfolding meta(3) fields(4) [symmetric] by (simp add: job_word_def)
  moreover have "m_timestamp_ns m = stamp_after (rv_timestamp v) body"
    using word [OF _ _ validated_loads_nth(7)] unfolding meta(6) fields(3) [symmetric] by (simp add: job_word_def)
  moreover have "m_shape m ! d = rv_shape v ! d \<and> m_strides m ! d = rv_strides v ! d" if "d < MAX_NDIM" for d
    using word [OF _ _ validated_loads_nth(8) [OF that]] word [OF _ _ validated_loads_nth(9) [OF that]] that
    unfolding meta(7,8) [OF that] fields(7,8) [OF that, symmetric] by (simp add: job_word_def MAX_NDIM_def)
  moreover have "ce_data (w_cell (world_at H2 u)) ! k = fold data_store body (ce_data b) ! k"
    if "may_load (WByte k) u H2" for k u
    using held_load [OF held that] core_eqD(9) [OF core] unfolding fields(1) [symmetric] by (simp add: job_word_def)
  moreover have "(Publication v body, b) \<in> set (w_log (latest H2))"
    using jb(1) eq(1) fr by (simp add: frozen_def)
  ultimately show ?thesis by blast
qed

subsection \<open>A publication read as it happens\<close>

text \<open>A whole job, run from its first store to its last.\<close>

definition job_world :: "job \<Rightarrow> slot_world \<Rightarrow> nat \<Rightarrow> slot_world" where
  "job_world j w k =
     (if k < length (program j)
      then w\<lparr>w_cell := fold exec (take k (program j)) (w_cell w), w_run := Some (j, w_cell w, k)\<rparr>
      else w\<lparr>w_cell := fold exec (program j) (w_cell w), w_run := None, w_log := logged j (w_cell w) (w_log w)\<rparr>)"

definition job_acts :: "bool \<Rightarrow> job \<Rightarrow> slot_world \<Rightarrow> nat \<Rightarrow> nat \<Rightarrow> action list" where
  "job_acts ctl j w n m =
     \<lparr>ac_word = None, ac_view = (\<lambda>_. 0), ac_world = job_world j w 0\<rparr> #
     map (\<lambda>k. \<lparr>ac_word = Some (store_word (program j ! k)),
                ac_view = job_view ctl (\<lambda>_. 0) (program j ! k) (Suc (n + k)),
                ac_world = job_world j w (Suc k)\<rparr>) [0..<m]"

definition job_done :: "bool \<Rightarrow> job \<Rightarrow> nat \<Rightarrow> history \<Rightarrow> history" where
  "job_done ctl j m H = H\<lparr>hs_acts := hs_acts H @ job_acts ctl j (latest H) (now H) m\<rparr>"

lemma job_acts_sel [simp]: "length (job_acts ctl j w n m) = Suc m"
  by (simp add: job_acts_def)

lemma world_at_job:
  "k \<le> m \<Longrightarrow> world_at (job_done ctl j m H) (Suc (now H + k)) = job_world j (latest H) k"
  by (cases k) (simp_all add: job_done_def world_at_def nth_append job_acts_def)

lemma job_runs:
  assumes none: "w_run (latest H) = None" and starts: "starts i j (w_head (latest H))" and m: "m \<le> length (program j)"
  shows "(holding ctl i)\<^sup>*\<^sup>* H (job_done ctl j m H)"
  using m
proof (induction m)
  case 0
  have "0 < length (program j)" using starts_job_ok [OF starts] by (rule program_shape) simp
  then have "job_done ctl j 0 H = act None (\<lambda>_. 0) ((latest H)\<lparr>w_run := Some (j, w_cell (latest H), 0)\<rparr>) H"
    by (simp add: job_done_def act_def job_acts_def job_world_def)
  then show ?case using hd_others [OF ot_begin [OF none starts]] by (simp add: r_into_rtranclp)
next
  case (Suc m)
  let ?H = "job_done ctl j m H" and ?w = "latest H" and ?st = "program j ! m"
  have now: "now ?H = Suc (now H + m)" by (simp add: job_done_def)
  have at: "latest ?H = job_world j ?w m" unfolding now by (rule world_at_job) simp
  then have run: "w_run (latest ?H) = Some (j, w_cell ?w, m)" using Suc.prems by (simp add: job_world_def)
  have cell: "exec ?st (w_cell (latest ?H)) = fold exec (take (Suc m) (program j)) (w_cell ?w)"
    using Suc.prems at by (simp add: job_world_def take_Suc_conv_app_nth)
  have "job_done ctl j (Suc m) H =
      act (Some (store_word ?st)) (job_view ctl (\<lambda>_. 0) ?st (now ?H)) (job_world j ?w (Suc m)) ?H"
    unfolding now by (simp add: job_done_def act_def job_acts_def)
  moreover have "others ctl i ?H \<dots>"
  proof (cases "Suc m < length (program j)")
    case True
    have "job_world j ?w (Suc m) =
        (latest ?H)\<lparr>w_cell := exec ?st (w_cell (latest ?H)), w_run := Some (j, w_cell ?w, Suc m)\<rparr>"
      unfolding cell using True by (simp add: at job_world_def)
    then show ?thesis using ot_store [OF run True refl] by metis
  next
    case False
    then have last: "Suc m = length (program j)" using Suc.prems by simp
    have "job_world j ?w (Suc m) =
        (latest ?H)\<lparr>w_cell := exec ?st (w_cell (latest ?H)), w_run := None,
          w_log := logged j (w_cell ?w) (w_log (latest ?H))\<rparr>"
      unfolding cell using last by (simp add: at job_world_def)
    then show ?thesis using ot_last [OF run last refl] by metis
  qed
  ultimately show ?case using Suc by (simp add: rtranclp.rtrancl_into_rtrancl hd_others)
qed

text \<open>All loads of a take at the newest store.\<close>

definition load_all :: "read list \<Rightarrow> history \<Rightarrow> history" where
  "load_all rs H = fold (\<lambda>(ord, x, h) H. load ord x (now H) H) rs H"

lemma load_all_acts [simp]: "hs_acts (load_all rs H) = hs_acts H" "world_at (load_all rs H) = world_at H"
  by (induction rs arbitrary: H) (auto simp: load_all_def)

lemma performs_latest:
  assumes "history_ok ctl i H" "\<forall>(ord, x, h)\<in>set rs. finds x h H (now H)"
  shows "performs ctl i rs H (load_all rs H)"
  using assms
proof (induction rs arbitrary: H)
  case (Cons rd rs)
  obtain ord x h where rd: "rd = (ord, x, h)" by (cases rd)
  have may: "may_load x (now H) H" using Cons.prems(1) by (simp add: may_load_def history_ok_def)
  have "performs ctl i rs (load ord x (now H) H) (load_all rs (load ord x (now H) H))"
    using Cons.prems history_ok_load [OF Cons.prems(1) may] by (intro Cons.IH) (auto simp: finds_def)
  then show ?case using pf_load [OF may] Cons.prems(2) by (simp add: rd load_all_def)
qed (simp add: load_all_def pf_done)

lemma load_all_view:
  assumes "\<forall>(ord, x, h)\<in>set rs. x \<noteq> y \<and> (ord = Acquire \<longrightarrow> learned x H (now H) y \<le> B)" "hs_view H y \<le> B"
  shows "hs_view (load_all rs H) y \<le> B"
  using assms
proof (induction rs arbitrary: H)
  case (Cons rd rs)
  obtain ord x h where rd: "rd = (ord, x, h)" by (cases rd)
  have "learned z (load ord x (now H) H) = learned z H" for z by (auto simp: learned_def Let_def fun_eq_iff)
  moreover have "hs_view (load ord x (now H) H) y \<le> B"
    using Cons.prems by (auto simp: rd load_def Let_def)
  ultimately have "hs_view (load_all rs (load ord x (now H) H)) y \<le> B"
    using Cons.prems(1) by (intro Cons.IH) auto
  then show ?case by (simp add: rd load_all_def)
qed (simp add: load_all_def)

lemma validated_loads_words:
  "(ord, x) \<in> set (validated_loads ctl) \<Longrightarrow> x \<noteq> WByte k \<and> (ord = Acquire \<longrightarrow> x \<in> {WState, WMask, WSequence})"
  by (auto simp: validated_loads_def)

lemma take_reads_still:
  assumes "(ord, x, h) \<in> set (take_reads ctl c n (\<lambda>_. still r) s)"
  shows "h = slots r ! s" "x \<noteq> WByte k" "ord = Acquire \<Longrightarrow> x \<in> {WState, WMask, WSequence}"
proof -
  have "(ord, x, h) \<in> set (scan_reads c (still r) s) \<Longrightarrow>
      h = slots r ! s \<and> x \<in> {WState, WMask, WSequence}"
    by (auto simp: scan_reads_def still_def split: if_splits)
  moreover have "h = slots r ! s \<and> x \<noteq> WByte k \<and> (ord = Acquire \<longrightarrow> x \<in> {WState, WMask, WSequence})"
    if valid: "(ord, x, h) \<in> set (validated_reads ctl (still r) s)"
  proof -
    obtain j where "j \<in> {0..<26}" "(ord, x, h) = (case validated_loads ctl ! j of (ord, x) \<Rightarrow> (ord, x, slots r ! s))"
      using valid unfolding validated_reads_def still_def set_map set_upt by (rule imageE)
    then have j: "j < 26" "validated_loads ctl ! j = (ord, x)" "h = slots r ! s" by (auto split: prod.splits)
    then have "(ord, x) \<in> set (validated_loads ctl)"
      using nth_mem [of j "validated_loads ctl"] by (simp add: validated_loads_nth(1))
    with j(3) validated_loads_words show ?thesis by blast
  qed
  ultimately show "h = slots r ! s" "x \<noteq> WByte k" "ord = Acquire \<Longrightarrow> x \<in> {WState, WMask, WSequence}"
    using assms by (auto simp: take_reads_def split: if_splits)
qed

lemma finds_head: "\<forall>k. x \<noteq> WByte k \<Longrightarrow> finds x (w_head (world_at H u)) H u"
  by (cases x) (simp_all add: finds_def)

subsection \<open>The positive control\<close>

text \<open>One publication: the slot of \<open>pending_slot\<close>, filled with a first byte 7.\<close>

definition unread_world :: slot_world where
  "unread_world =
     \<lparr>w_cell = \<lparr>ce_head = zero_slot\<lparr>s_magic := SLOT_MAGIC, s_state := STATE_FREE\<rparr>, ce_data = replicate 8 0\<rparr>,
      w_run = None, w_log = []\<rparr>"

definition fresh_history :: history where
  "fresh_history = \<lparr>hs_base = unread_world, hs_acts = [], hs_view = (\<lambda>_. 0)\<rparr>"

definition seven_job :: job where
  "seven_job = Publication pending_reservation [StByte 0 7]"

definition sent :: "bool \<Rightarrow> history" where
  "sent ctl = job_done ctl seven_job 29 fresh_history"

lemma seven_length: "length (program seven_job) = 29"
  by (simp add: seven_job_def header_stores_def field_stores_def MAX_NDIM_def upt_rec)

lemma unread_inv: "slot_inv unread_world"
  by (simp add: slot_inv_def unread_world_def log_ok_def dims_ok_def zero_slot_def MAX_NDIM_def)

lemma seven_starts: "starts 0 seven_job (w_head unread_world)"
  by (simp add: seven_job_def unread_world_def reclaimable_def unread_def pending_reservation_def zero_slot_def)

lemma fold_exec_data: "\<forall>st\<in>set ss. \<forall>k v. st \<noteq> StByte k v \<Longrightarrow> ce_data (fold exec ss c) = ce_data c"
proof (induction ss arbitrary: c)
  case (Cons st ss)
  then have "ce_data (exec st c) = ce_data c" by (cases st) (simp_all add: exec_def)
  with Cons show ?case by simp
qed simp

lemma header_no_bytes: "\<forall>st\<in>set (header_stores v). \<forall>k w. st \<noteq> StByte k w"
  by (auto simp: header_stores_def field_stores_def)

lemma header_length: "length (header_stores v) = 27"
  by (simp add: header_stores_def field_stores_def MAX_NDIM_def upt_rec)

lemma seven_before:
  assumes "k \<le> 27"
  shows "ce_data (fold exec (take k (program seven_job)) (w_cell unread_world)) = replicate 8 0"
proof -
  have "take k (program seven_job) = take k (header_stores pending_reservation)"
    using assms by (simp add: seven_job_def header_length)
  moreover have "\<forall>st\<in>set (take k (header_stores pending_reservation)). \<forall>k v. st \<noteq> StByte k v"
    using header_no_bytes by (blast dest: in_set_takeD)
  ultimately show ?thesis by (simp add: fold_exec_data) (simp add: unread_world_def)
qed

lemma seven_head: "ce_head (fold exec (program seven_job) (w_cell unread_world)) = pending_slot"
  by (simp add: seven_job_def unread_world_def zero_slot_def pending_slot_def
      pad_dims_def MAX_NDIM_def pending_reservation_def header_stores_def field_stores_def exec_def upt_rec)
    (simp add: numeral_eq_Suc count_ones_def)

lemma sent_now [simp]: "now (sent ctl) = 30"
  by (simp add: sent_def job_done_def fresh_history_def)

lemma fresh_world: "world_at fresh_history 0 = unread_world"
  by (simp add: fresh_history_def world_at_def)

lemma fresh_now: "now fresh_history = 0"
  by (simp add: fresh_history_def)

lemma sent_running: "(holding ctl 0)\<^sup>*\<^sup>* fresh_history (sent ctl)"
  unfolding sent_def using seven_starts
  by (intro job_runs) (simp_all add: fresh_world fresh_now seven_length, simp add: unread_world_def)

lemma fresh_ok: "history_ok ctl 0 fresh_history"
  by (rule history_start) (simp_all add: fresh_history_def unread_inv)

lemma sent_ok: "history_ok ctl 0 (sent ctl)"
  using history_held.run_inv [OF sent_running fresh_ok] .

lemma world_at_sent: "k \<le> 29 \<Longrightarrow> world_at (sent ctl) (Suc k) = job_world seven_job unread_world k"
  using world_at_job [of k 29 ctl seven_job fresh_history] by (simp add: sent_def fresh_world fresh_now)

lemma sent_latest: "w_head (latest (sent ctl)) = pending_slot"
    "w_log (latest (sent ctl)) = [(seven_job, w_cell unread_world)]"
  using world_at_sent [of 29 ctl] seven_head
  by (simp_all add: job_world_def seven_length) (simp_all add: seven_job_def unread_world_def)

lemma sent_before: "ce_data (w_cell (world_at (sent ctl) 27)) = replicate 8 0"
  using world_at_sent [of 26 ctl] seven_before [of 26] by (simp add: job_world_def seven_length)

lemma last_write_at:
  assumes "0 < w" "w \<le> u" "ac_word (as ! (w - 1)) = Some x" "\<And>t. w \<le> t \<Longrightarrow> t < u \<Longrightarrow> ac_word (as ! t) \<noteq> Some x"
  shows "last_write x as u = w"
  using assms(2,4)
proof (induction u)
  case (Suc u)
  then show ?case using assms(1,3) by (cases "w = Suc u") auto
qed (use assms(1) in simp)

lemma sent_acts:
  "k < 29 \<Longrightarrow> hs_acts (sent ctl) ! Suc k =
     \<lparr>ac_word = Some (store_word (program seven_job ! k)),
      ac_view = job_view ctl (\<lambda>_. 0) (program seven_job ! k) (Suc k), ac_world = job_world seven_job unread_world (Suc k)\<rparr>"
  by (simp add: sent_def job_done_def fresh_world fresh_now job_acts_def nth_append)

text \<open>The last stores of the program: the mask, its mirror, the byte and the commit.\<close>

lemma seven_tail:
  "program seven_job ! 25 = StMask 1" "program seven_job ! 26 = StReaders 1" "program seven_job ! 27 = StByte 0 7"
  "program seven_job ! 28 = StState STATE_COMMITTED"
  by (simp_all add: seven_job_def header_stores_def field_stores_def MAX_NDIM_def upt_rec pending_reservation_def
      count_ones_def nth_append)

lemma sent_first: "ac_word (hs_acts (sent ctl) ! 0) = None"
  by (simp add: sent_def job_done_def job_acts_def fresh_history_def)

lemma sent_mask: "job_word y \<Longrightarrow> learned WMask (sent ctl) 30 y = 27"
proof -
  assume y: "job_word y"
  have "last_write WMask (hs_acts (sent ctl)) 30 = 27"
  proof (rule last_write_at)
    show "ac_word (hs_acts (sent ctl) ! (27 - 1)) = Some WMask"
      using sent_acts [of 25 ctl] seven_tail(1) by simp
    fix t :: nat assume "27 \<le> t" "t < 30"
    then have "t = 27 \<or> t = 28 \<or> t = 29" by linarith
    then show "ac_word (hs_acts (sent ctl) ! t) \<noteq> Some WMask"
      using sent_acts [of 26 ctl] sent_acts [of 27 ctl] sent_acts [of 28 ctl] seven_tail by auto
  qed simp_all
  then show ?thesis using sent_acts [of 25 ctl] seven_tail(1) y by (simp add: learned_def job_view_def)
qed

lemma sent_state: "learned WState (sent True) 30 y = 0"
proof -
  have "last_write WState (hs_acts (sent True)) 30 = 30"
    by (rule last_write_at) (use sent_acts [of 28 True] seven_tail(4) in simp_all)
  then show ?thesis using sent_acts [of 28 True] seven_tail(4) by (simp add: learned_def job_view_def COMMIT_RELEASE_def)
qed

lemma sent_sequence: "learned WSequence (sent ctl) 30 y = 0"
proof (cases "last_write WSequence (hs_acts (sent ctl)) 30")
  case (Suc w)
  then have w: "ac_word (hs_acts (sent ctl) ! w) = Some WSequence" "w < 30"
    using last_write_word [of WSequence "hs_acts (sent ctl)" 30] last_write_le [of WSequence "hs_acts (sent ctl)" 30]
    by simp_all
  then obtain k where k: "w = Suc k" "k < 29" using sent_first [of ctl] by (cases w) auto
  then have "store_word (program seven_job ! k) = WSequence" using w(1) sent_acts [of k ctl] by simp
  then have "store_order ctl (program seven_job ! k) = Relaxed" by (cases "program seven_job ! k") simp_all
  then show ?thesis using sent_acts [of k ctl] k by (simp add: learned_def Suc job_view_def)
qed (simp add: learned_def)

definition sent_read :: "bool \<Rightarrow> history" where
  "sent_read ctl = load_all (take_reads ctl demo_consumer 2 (\<lambda>_. still pending_ring) 0) (sent ctl)"

lemma sent_take: "try_take 64 demo_consumer 2 (\<lambda>_. still pending_ring) = Some (meta_of 0 pending_slot U8)"
  using demo_take by (simp add: slots_pending_ring numeral_2_eq_2)

lemma sent_performs:
  "performs ctl 0 (take_reads ctl demo_consumer 2 (\<lambda>_. still pending_ring) 0) (sent ctl) (sent_read ctl)"
  unfolding sent_read_def
proof (rule performs_latest [OF sent_ok], clarify)
  fix ord x h assume "(ord, x, h) \<in> set (take_reads ctl demo_consumer 2 (\<lambda>_. still pending_ring) 0)"
  note read = take_reads_still [OF this]
  then have "h = w_head (latest (sent ctl))" by (simp add: slots_pending_ring sent_latest(1) [simplified])
  with read(2) show "finds x h (sent ctl) (now (sent ctl))" by (simp add: finds_head)
qed

lemma sent_stale: "may_load (WByte 0) 27 (sent_read True)"
proof -
  have "hs_view (sent_read True) (WByte 0) \<le> 27"
    unfolding sent_read_def
  proof (rule load_all_view, clarify)
    fix ord x h assume "(ord, x, h) \<in> set (take_reads True demo_consumer 2 (\<lambda>_. still pending_ring) 0)"
    note read = take_reads_still [OF this]
    show "x \<noteq> WByte 0 \<and> (ord = Acquire \<longrightarrow> learned x (sent True) (now (sent True)) (WByte 0) \<le> 27)"
      using read(2,3) sent_mask [of "WByte 0" True] sent_state sent_sequence by (auto simp: job_word_def)
  qed (simp add: sent_def job_done_def fresh_history_def)
  then show ?thesis by (simp add: may_load_def sent_read_def)
qed

theorem acquire_take_witness:
  "performs False 0 (take_reads False demo_consumer 2 (\<lambda>_. still pending_ring) 0) (sent False) (sent_read False) \<and>
   ce_data (w_cell (world_at (sent_read False) 27)) ! 0 = 0 \<and> \<not> may_load (WByte 0) 27 (sent_read False)"
proof (intro conjI sent_performs)
  show old: "ce_data (w_cell (world_at (sent_read False) 27)) ! 0 = 0"
    by (simp add: sent_read_def sent_before)
  show "\<not> may_load (WByte 0) 27 (sent_read False)"
  proof
    assume may: "may_load (WByte 0) 27 (sent_read False)"
    have "(running False (c_index demo_consumer))\<^sup>*\<^sup>* fresh_history (sent False)"
      using sent_running mono_rtranclp [of "holding False 0" "running False 0"] rn_holding
      by (auto simp: demo_consumer_def)
    from acquire_take [OF _ _ _ this sent_take, of "sent_read False" "sent_read False"] sent_performs [of False] unread_inv may old
    show False
      by (auto simp: demo_consumer_def meta_of_def fresh_history_def sent_read_def sent_latest [simplified] seven_job_def unread_world_def)
  qed
qed

text \<open>
  Claim C38. The acquire and release of the commit are needed: with both relaxed, as the feature
  \<^verbatim>\<open>tsan-positive-control\<close> builds the crate, a consumer can take a publication, every load of its header and
  its validation included, and still load a payload byte of before.
\<close>

theorem relaxed_take:
  "\<exists>H1. (running True 0)\<^sup>*\<^sup>* fresh_history (sent True) \<and>
     try_take 64 demo_consumer 2 (\<lambda>_. still pending_ring) = Some (meta_of 0 pending_slot U8) \<and>
     performs True 0 (take_reads True demo_consumer 2 (\<lambda>_. still pending_ring) 0) (sent True) H1 \<and>
     w_log (latest H1) = [(Publication pending_reservation [StByte 0 7], w_cell unread_world)] \<and>
     may_load (WByte 0) 27 H1 \<and> ce_data (w_cell (world_at H1 27)) ! 0 = 0"
proof (intro exI [of _ "sent_read True"] conjI sent_take sent_performs sent_stale)
  show "(running True 0)\<^sup>*\<^sup>* fresh_history (sent True)"
    using sent_running mono_rtranclp [of "holding True 0" "running True 0"] rn_holding by auto
qed (simp_all add: sent_read_def sent_before sent_latest [simplified] seven_job_def)

end
