(* ===== verification/TakeOrder.thy ===== *)
theory TakeOrder
  imports SlotSteps
begin

text \<open>
  All slots of a ring, store by store, under one publisher at a time, while a consumer runs \<^verbatim>\<open>try_take\<close> load
  by load: its passes over the slots, which see no single state of the ring, deliver what was the oldest
  publication waiting at one instant of the call.
\<close>

unbundle bit_operations_syntax

subsection \<open>A ring with one publisher at a time\<close>

text \<open>
  The sequence a job gives its slot, and the sequence of the reservation under way in a slot. The counter
  is the next sequence; a publication moves it when it commits, which is when a sequential publisher goes
  on to the next, and a publisher that dies after its reservation leaves it one further.
\<close>

fun job_sequence :: "job \<Rightarrow> u64 option" where
  "job_sequence (Publication v body) = Some (rv_sequence v)"
| "job_sequence (Aborted v body) = Some (rv_sequence v)"
| "job_sequence Recovery = None"

definition writer :: "slot_world \<Rightarrow> u64 option" where
  "writer w = (case w_run w of None \<Rightarrow> None | Some (j, b, k) \<Rightarrow> job_sequence j)"

type_synonym ring_world = "(nat \<Rightarrow> slot_world) \<times> nat"

inductive ring_step :: "nat \<Rightarrow> nat \<Rightarrow> ring_world \<Rightarrow> ring_world \<Rightarrow> bool" for i n where
  rg_slot:
    "s < n \<Longrightarrow> slot_step i (V s) w \<Longrightarrow>
     writer w \<in> {None, writer (V s)} \<or> writer w = Some (of_nat k) \<and> (\<forall>t<n. writer (V t) = None) \<Longrightarrow>
     ring_step i n (V, k) (V(s := w), k + (length (w_log w) - length (w_log (V s))))"
| rg_skip:
    "\<forall>t<n. writer (V t) = None \<Longrightarrow> ring_step i n (V, k) (V, Suc k)"

definition holds_for :: "nat \<Rightarrow> u64 \<Rightarrow> slot_world \<Rightarrow> bool" where
  "holds_for i q w \<longleftrightarrow>
     s_state (w_head w) = STATE_COMMITTED \<and> bit (s_readers_mask (w_head w)) i \<and> s_sequence (w_head w) = q"

definition ring_ok :: "nat \<Rightarrow> nat \<Rightarrow> ring_world \<Rightarrow> bool" where
  "ring_ok i n = (\<lambda>(V, k).
     (\<forall>s<n. slot_inv (V s) \<and> unat (s_sequence (w_head (V s))) \<le> k \<and> writer (V s) \<in> {None, Some (of_nat k)} \<and>
       (\<forall>q. holds_for i q (V s) \<longrightarrow> unat q < k)) \<and>
     (\<forall>s<n. \<forall>t<n. s \<noteq> t \<longrightarrow> writer (V s) = None \<or> writer (V t) = None))"

subsection \<open>What a step does to one slot\<close>

lemma program_sequence: "StSequence q \<in> set (program j) \<Longrightarrow> job_ok j b \<Longrightarrow> job_sequence j = Some q"
  by (cases j) (auto simp: header_stores_def field_stores_def recover_stores_def list_all_iff)

lemma exec_sequence:
  "s_sequence (ce_head (exec st c)) = s_sequence (ce_head c) \<or> st = StSequence (s_sequence (ce_head (exec st c)))"
  by (cases st) (simp_all add: exec_def)

text \<open>A sequence only changes to that of the reservation under way.\<close>

lemma step_sequence:
  assumes "slot_step i w w'" "slot_inv w"
  shows "s_sequence (w_head w') = s_sequence (w_head w) \<or> writer w = Some (s_sequence (w_head w'))"
  using assms
proof (induction rule: slot_step.induct)
  case (sl_store w j b k)
  have ok: "job_ok j b" using sl_store by (auto simp: slot_inv_def run_ok_def)
  have "program j ! k \<in> set (program j)" using sl_store(2) by simp
  then show ?case
    using exec_sequence [of "program j ! k" "w_cell w"] program_sequence [OF _ ok] sl_store(1)
    by (auto simp: writer_def)
next
  case (sl_last w j b k)
  have ok: "job_ok j b" using sl_last by (auto simp: slot_inv_def run_ok_def)
  then show ?case
    using exec_sequence [of "program j ! k" "w_cell w"] program_last [OF ok sl_last(2)] by auto
qed (simp_all add: exec_def)

text \<open>What is newly waiting for the consumer has just been committed.\<close>

lemma last_sequence:
  assumes run: "run_ok c (j, b, k)" and last: "Suc k = length (program j)" and com: "final_state j = STATE_COMMITTED"
  shows "job_sequence j = Some (s_sequence (ce_head (exec (program j ! k) c)))"
proof (cases j)
  case (Publication v body)
  have "core (exec (program j ! k) c) = core (published_cell v body b)"
    using run_ok_store(1) [OF run] last Publication by (simp add: published_cell_def)
  moreover have "dims_ok b" "list_all body_store body" using run Publication by (simp_all add: run_ok_def)
  ultimately show ?thesis
    using core_eqD(2) [of "exec (program j ! k) c" "published_cell v body b"] published_fields(2) [of b body v] Publication
    by simp
qed (use com in simp_all)

lemma step_holds:
  assumes "slot_step i w w'" "slot_inv w" "holds_for i q w'"
  shows "holds_for i q w \<or> writer w = Some q \<and> length (w_log w') = Suc (length (w_log w))"
  using assms
proof (induction rule: slot_step.induct)
  case (sl_store w j b k)
  have ok: "run_ok (w_cell w) (j, b, k)" using sl_store by (simp add: slot_inv_def)
  have "s_state (ce_head (exec (program j ! k) (w_cell w))) = STATE_WRITING"
    using core_eqD(1) [OF run_ok_store(1) [OF ok]] ok sl_store(2) state_during [of j b "Suc k"]
    by (simp add: run_ok_def)
  with sl_store show ?case by (simp add: holds_for_def)
next
  case (sl_last w j b k)
  have ok: "run_ok (w_cell w) (j, b, k)" using sl_last by (simp add: slot_inv_def)
  then have job: "job_ok j b" by (simp add: run_ok_def)
  have "s_state (ce_head (exec (program j ! k) (w_cell w))) = final_state j"
    using core_eqD(1) [OF run_ok_store(1) [OF ok]] state_at_end [OF job] sl_last(2) by simp
  then show ?case
    using last_sequence [OF ok sl_last(2)] sl_last by (cases j) (simp_all add: holds_for_def writer_def)
next
  case (sl_release j w)
  then show ?case by (auto simp: holds_for_def exec_def bit_and_not_one_bit)
next
  case (sl_mirror w n)
  then show ?case by (simp add: holds_for_def exec_def)
qed (simp_all add: holds_for_def)

text \<open>The reservation under way stays, ends or begins; the log only grows by the commit that ends it.\<close>

lemma step_log:
  assumes "slot_step i w w'"
  shows "length (w_log w') = length (w_log w) \<or> length (w_log w') = Suc (length (w_log w)) \<and> writer w \<noteq> None \<and> writer w' = None"
  using assms
proof (induction rule: slot_step.induct)
  case (sl_last w j b k)
  then show ?case by (cases j) (simp_all add: writer_def)
qed simp_all

subsection \<open>The invariant\<close>

lemma ring_step_mono: "ring_step i n (V, k) (V', k') \<Longrightarrow> k \<le> k'"
  by (auto elim: ring_step.cases)

lemma ring_step_ok:
  assumes step: "ring_step i n (V, k) (V', k')" and ok: "ring_ok i n (V, k)" and small: "k' < 2 ^ 63"
  shows "ring_ok i n (V', k')"
  using step
proof (cases rule: ring_step.cases)
  case (rg_slot s w)
  have at: "slot_inv (V s)" "unat (s_sequence (w_head (V s))) \<le> k" "writer (V s) \<in> {None, Some (of_nat k)}"
    using ok rg_slot(3) by (simp_all add: ring_ok_def)
  have inv: "slot_inv w" using slot_step_inv [OF rg_slot(4) at(1)] .
  have k: "k \<le> k'" "unat (of_nat k :: u64) = k"
    using ring_step_mono [OF step] small by (simp_all add: unat_of_nat_small)
  have seq: "unat (s_sequence (w_head w)) \<le> k'"
    using step_sequence [OF rg_slot(4) at(1)] at(2,3) k by auto
  have held: "unat q < k'" if "holds_for i q w" for q
  proof -
    have "unat q < k" if "holds_for i q (V s)" using ok rg_slot(3) that by (auto simp: ring_ok_def)
    then show ?thesis using step_holds [OF rg_slot(4) at(1) that] at(3) rg_slot(2) k by auto
  qed
  have others: "unat q < k'" if "t < n" "holds_for i q (V t)" for t q
    using ok k(1) that by (auto simp: ring_ok_def intro: order_less_le_trans)
  show ?thesis
  proof (cases "k' = k")
    case True
    have "writer w \<in> {None, Some (of_nat k)}" using rg_slot(5) at(3) by auto
    moreover have "writer w = None \<or> writer (V t) = None" if "t < n" "t \<noteq> s" for t
      using rg_slot(3,5) ok that by (auto simp: ring_ok_def)
    ultimately show ?thesis
      using ok inv seq held True rg_slot(1,2,3) by (auto simp: ring_ok_def)
  next
    case False
    then have ended: "writer (V s) \<noteq> None" "writer w = None"
      using step_log [OF rg_slot(4)] rg_slot(2) by auto
    then have none: "writer (V t) = None" if "t < n" "t \<noteq> s" for t
      using ok rg_slot(3) that by (auto simp: ring_ok_def)
    show ?thesis
      using ok inv seq held others ended none k(1) rg_slot(1) by (auto simp: ring_ok_def intro: order_trans)
  qed
next
  case rg_skip
  then show ?thesis using ok by (auto simp: ring_ok_def le_SucI less_SucI)
qed

lemma ring_run_mono: "(ring_step i n)\<^sup>*\<^sup>* x y \<Longrightarrow> snd x \<le> snd y"
proof (induction rule: rtranclp_induct)
  case (step y z)
  then show ?case using ring_step_mono [of i n "fst y" "snd y" "fst z" "snd z"] by simp
qed simp

lemma ring_run_ok: "(ring_step i n)\<^sup>*\<^sup>* x y \<Longrightarrow> ring_ok i n x \<Longrightarrow> snd y < 2 ^ 63 \<Longrightarrow> ring_ok i n y"
proof (induction rule: rtranclp_induct)
  case (step y z)
  have "snd y \<le> snd z" using step(2) ring_step_mono [of i n "fst y" "snd y" "fst z" "snd z"] by simp
  then show ?case using step ring_step_ok [of i n "fst y" "snd y" "fst z" "snd z"] by simp
qed simp

subsection \<open>Order\<close>

text \<open>The sequence of a slot never goes back.\<close>

lemma ring_step_sequence:
  assumes step: "ring_step i n x y" and ok: "ring_ok i n x" and small: "snd y < 2 ^ 63" and s: "s < n"
  shows "unat (s_sequence (w_head (fst x s))) \<le> unat (s_sequence (w_head (fst y s)))"
  using step
proof (cases rule: ring_step.cases)
  case (rg_slot t V w k)
  have k: "unat (of_nat k :: u64) = k"
    using small ring_step_mono [of i n "fst x" "snd x" "fst y" "snd y"] step rg_slot(1) by (simp add: unat_of_nat_small)
  have at: "slot_inv (V t)" "unat (s_sequence (w_head (V t))) \<le> k" "writer (V t) \<in> {None, Some (of_nat k)}"
    using ok rg_slot(1,3) by (simp_all add: ring_ok_def)
  show ?thesis
    using step_sequence [OF rg_slot(4) at(1)] at(2,3) k rg_slot(1,2) by auto
qed simp

lemma ring_run_sequence:
  "(ring_step i n)\<^sup>*\<^sup>* x y \<Longrightarrow> ring_ok i n x \<Longrightarrow> snd y < 2 ^ 63 \<Longrightarrow> s < n \<Longrightarrow>
   unat (s_sequence (w_head (fst x s))) \<le> unat (s_sequence (w_head (fst y s)))"
proof (induction rule: rtranclp_induct)
  case (step y z)
  have small: "snd y < 2 ^ 63" using step(2,5) ring_step_mono [of i n "fst y" "snd y" "fst z" "snd z"] by simp
  then show ?case
    using step ring_step_sequence [OF step(2) ring_run_ok [OF step(1,4) small] step(5,6)] by simp
qed simp

text \<open>What is waiting and older than the counter was at some instant, was waiting then.\<close>

lemma ring_step_holds:
  assumes step: "ring_step i n x y" and ok: "ring_ok i n x" and s: "s < n"
    and h: "holds_for i q (fst y s)" and old: "unat q < snd x" and small: "snd x < 2 ^ 63"
  shows "holds_for i q (fst x s)"
  using step
proof (cases rule: ring_step.cases)
  case (rg_slot t V w k)
  have at: "slot_inv (V t)" "writer (V t) \<in> {None, Some (of_nat k)}" "k < 2 ^ 63"
    using ok small rg_slot(1,3) by (simp_all add: ring_ok_def)
  then have "writer (V t) \<noteq> Some q" using old rg_slot(1) by (auto simp: unat_of_nat_small)
  then show ?thesis
    using step_holds [OF rg_slot(4) at(1), of q] h rg_slot(1,2) by (auto split: if_splits)
qed (use h in simp)

lemma ring_run_holds:
  "(ring_step i n)\<^sup>*\<^sup>* x y \<Longrightarrow> ring_ok i n x \<Longrightarrow> snd y < 2 ^ 63 \<Longrightarrow> s < n \<Longrightarrow>
   holds_for i q (fst y s) \<Longrightarrow> unat q < snd x \<Longrightarrow> holds_for i q (fst x s)"
proof (induction rule: rtranclp_induct)
  case (step y z)
  have small: "snd y < 2 ^ 63" using step(2,5) ring_step_mono [of i n "fst y" "snd y" "fst z" "snd z"] by simp
  have "unat q < snd y" using ring_run_mono [OF step(1)] step(8) by simp
  then have "holds_for i q (fst y s)"
    using ring_step_holds [OF step(2) ring_run_ok [OF step(1,4) small] step(6,7) _ small] by simp
  then show ?case using step(3-6,8) small by blast
qed simp

text \<open>And what waits goes on waiting, as the consumer does not release it.\<close>

lemma holds_frozen: "slot_inv w \<Longrightarrow> holds_for i q w \<Longrightarrow> frozen i (w_cell w) (w_log w) w"
  by (intro frozen_committed addressed_seen) (simp_all add: holds_for_def)

lemma frozen_holds: "frozen i c log w \<Longrightarrow> holds_for i (s_sequence (ce_head c)) w"
  using core_eqD(2) [of "w_cell w" c] by (simp add: frozen_def holds_for_def)

lemma holds_stays:
  assumes "slot_step i w w'" "slot_inv w" "holds_for i q w"
  shows "holds_for i q w'"
  using frozen_holds [OF slot_step_frozen [OF assms(1) holds_frozen [OF assms(2,3)]]] assms(3)
  by (simp add: holds_for_def)

lemma ring_run_slot:
  "(ring_step i n)\<^sup>*\<^sup>* x y \<Longrightarrow> (slot_step i)\<^sup>*\<^sup>* (fst x s) (fst y s)"
proof (induction rule: rtranclp_induct)
  case (step y z)
  have "(slot_step i)\<^sup>*\<^sup>* (fst y s) (fst z s)" using step(2)
    by (cases rule: ring_step.cases) auto
  with step show ?case by simp
qed simp

lemma ring_run_stays:
  assumes "(ring_step i n)\<^sup>*\<^sup>* x y" "slot_inv (fst x s)" "holds_for i q (fst x s)"
  shows "holds_for i q (fst y s)"
proof -
  have "frozen i (w_cell (fst x s)) (w_log (fst x s)) (fst y s)"
    using frozen_run.run_inv [OF ring_run_slot [OF assms(1)] holds_frozen [OF assms(2,3)]] .
  then show ?thesis using frozen_holds assms(3) by (simp add: holds_for_def)
qed

text \<open>The bit of the consumer appears in a slot only by a reservation, whose sequence is in the slot by then.\<close>

lemma fold_exec_sequence: "\<forall>q. StSequence q \<notin> set ss \<Longrightarrow> s_sequence (ce_head (fold exec ss c)) = s_sequence (ce_head c)"
proof (induction ss arbitrary: c)
  case (Cons st ss)
  then have "s_sequence (ce_head (exec st c)) = s_sequence (ce_head c)" by (cases st) (auto simp: exec_def)
  with Cons show ?case by simp
qed simp

lemma reservation_sequence:
  assumes p: "program j = header_stores v @ rest" and quiet: "\<forall>q. StSequence q \<notin> set rest" and k: "4 \<le> k"
  shows "s_sequence (ce_head (fold exec (take k (program j)) b)) = rv_sequence v"
proof -
  define tail where "tail = tl (tl (tl (tl (header_stores v)))) @ rest"
  have "program j = [StState STATE_WRITING, StPid (rv_pid v), StToken (rv_token v), StSequence (rv_sequence v)] @ tail"
    by (simp add: p tail_def header_stores_def field_stores_def)
  moreover obtain l where "k = Suc (Suc (Suc (Suc l)))"
    using k by (metis Suc_le_D Suc_le_mono eval_nat_numeral(2) numeral_3_eq_3 semiring_norm(26,27))
  moreover have "\<forall>q. StSequence q \<notin> set (take l tail)"
    using quiet by (auto simp: tail_def header_stores_def field_stores_def dest!: in_set_takeD)
  ultimately show ?thesis
    by (simp add: fold_exec_sequence) (simp add: exec_def)
qed

lemma mask_position:
  assumes ok: "job_ok j b" and k: "k < length (program j)" "program j ! k = StMask m" and b: "bit m i"
  shows "\<exists>v rest. job_sequence j = Some (rv_sequence v) \<and> program j = header_stores v @ rest \<and>
    (\<forall>q. StSequence q \<notin> set rest) \<and> 4 \<le> k"
proof -
  have early: "4 \<le> k" if "program j = header_stores v @ rest" for v rest
  proof (rule ccontr)
    assume "\<not> 4 \<le> k"
    then have "k = 0 \<or> k = 1 \<or> k = 2 \<or> k = 3" by linarith
    then show False using k(2) by (auto simp: that header_stores_def field_stores_def)
  qed
  show ?thesis
  proof (cases j)
    case (Publication v body)
    have p: "program j = header_stores v @ (body @ [StState STATE_COMMITTED])" by (simp add: Publication)
    moreover have "\<forall>q. StSequence q \<notin> set (body @ [StState STATE_COMMITTED])"
      using ok by (auto simp: Publication list_all_iff)
    ultimately show ?thesis using early [OF p] unfolding Publication job_sequence.simps by blast
  next
    case (Aborted v body)
    have p: "program j = header_stores v @ (body @ recover_stores)" by (simp add: Aborted)
    moreover have "\<forall>q. StSequence q \<notin> set (body @ recover_stores)"
      using ok by (auto simp: Aborted recover_stores_def list_all_iff)
    ultimately show ?thesis using early [OF p] unfolding Aborted job_sequence.simps by blast
  next
    case Recovery
    have "StMask m \<in> set recover_stores" using nth_mem [OF k(1)] k(2) by (simp add: Recovery)
    then show ?thesis using b by (simp add: recover_stores_def)
  qed
qed

lemma step_bit:
  assumes "slot_step i w w'" "slot_inv w" "bit (s_readers_mask (w_head w')) i" "\<not> bit (s_readers_mask (w_head w)) i"
  shows "writer w = Some (s_sequence (w_head w'))"
  using assms
proof (induction rule: slot_step.induct)
  case (sl_store w j b k)
  have run: "run_ok (w_cell w) (j, b, k)" using sl_store by (simp add: slot_inv_def)
  then have ok: "job_ok j b" by (simp add: run_ok_def)
  obtain m where m: "program j ! k = StMask m" "bit m i"
    using sl_store(4,5) by (auto simp: exec_mask split: store.splits)
  obtain v rest where v: "job_sequence j = Some (rv_sequence v)" "program j = header_stores v @ rest"
      "\<forall>q. StSequence q \<notin> set rest" "4 \<le> k"
    using mask_position [OF ok _ m] sl_store(2) by (metis Suc_lessD)
  have "s_sequence (ce_head (exec (program j ! k) (w_cell w))) = rv_sequence v"
    using core_eqD(2) [OF run_ok_store(1) [OF run]] reservation_sequence [OF v(2,3), of "Suc k" b] v(4) by simp
  then show ?case using sl_store(1) v(1) by (simp add: writer_def)
next
  case (sl_last w j b k)
  have "job_ok j b" using sl_last by (auto simp: slot_inv_def run_ok_def)
  then show ?case using sl_last by (simp add: program_last exec_mask)
next
  case (sl_release j w)
  then show ?case by (simp add: exec_mask bit_and_not_one_bit)
next
  case (sl_mirror w n)
  then show ?case by (simp add: exec_mask)
qed simp_all

lemma ring_step_bit:
  assumes step: "ring_step i n x y" and ok: "ring_ok i n x" and s: "s < n" and small: "snd x < 2 ^ 63"
    and b: "bit (s_readers_mask (w_head (fst y s))) i" "\<not> bit (s_readers_mask (w_head (fst x s))) i"
  shows "snd x \<le> unat (s_sequence (w_head (fst y s)))"
  using step
proof (cases rule: ring_step.cases)
  case (rg_slot t V w k)
  have at: "slot_inv (V t)" "writer (V t) \<in> {None, Some (of_nat k)}" "k < 2 ^ 63"
    using ok small rg_slot(1,3) by (simp_all add: ring_ok_def)
  have t: "t = s" using b rg_slot(1,2) by (auto split: if_splits)
  then have "writer (V t) = Some (s_sequence (w_head w))"
    using step_bit [OF rg_slot(4) at(1)] b rg_slot(1,2) by simp
  then have "s_sequence (w_head w) = of_nat k" using at(2) by simp
  then show ?thesis using at(3) t rg_slot(1,2) by (simp add: unat_of_nat_small)
qed (use b in simp)

lemma ring_run_bit:
  "(ring_step i n)\<^sup>*\<^sup>* x y \<Longrightarrow> ring_ok i n x \<Longrightarrow> snd y < 2 ^ 63 \<Longrightarrow> s < n \<Longrightarrow>
   \<not> bit (s_readers_mask (w_head (fst x s))) i \<Longrightarrow> bit (s_readers_mask (w_head (fst y s))) i \<Longrightarrow>
   snd x \<le> unat (s_sequence (w_head (fst y s)))"
proof (induction rule: rtranclp_induct)
  case (step y z)
  have small: "snd y < 2 ^ 63" using step(2,5) ring_step_mono [of i n "fst y" "snd y" "fst z" "snd z"] by simp
  have ok: "ring_ok i n y" using ring_run_ok [OF step(1,4) small] .
  show ?case
  proof (cases "bit (s_readers_mask (w_head (fst y s))) i")
    case True
    then have "snd x \<le> unat (s_sequence (w_head (fst y s)))" using step(3-7) small by blast
    then show ?thesis using ring_step_sequence [OF step(2) ok step(5,6)] by simp
  next
    case False
    then show ?thesis
      using ring_step_bit [OF step(2) ok step(6) small step(8)] ring_run_mono [OF step(1)] by simp
  qed
qed simp

subsection \<open>What the passes find\<close>

lemma seq_newer_small: "unat a < 2 ^ 63 \<Longrightarrow> unat b < 2 ^ 63 \<Longrightarrow> seq_newer a b \<longleftrightarrow> unat b < unat a"
  by (auto simp: seq_newer_unat unat_sub_if' split: if_splits)

text \<open>A candidate of a pass is a sequence the pass loaded, no newer than that of any slot it saw waiting.\<close>

definition loaded_seq :: "trace \<Rightarrow> nat \<Rightarrow> u64" where
  "loaded_seq tr s = s_sequence (slots (tr (3 * s + 2)) ! s)"

definition loads_small :: "nat \<Rightarrow> trace \<Rightarrow> bool" where
  "loads_small n tr \<longleftrightarrow> (\<forall>s<n. unat (loaded_seq tr s) < 2 ^ 63)"

definition saw_waiting :: "consumer \<Rightarrow> trace \<Rightarrow> nat \<Rightarrow> bool" where
  "saw_waiting c tr s \<longleftrightarrow>
     s_state (slots (tr (3 * s)) ! s) = STATE_COMMITTED \<and>
     s_readers_mask (slots (tr (3 * s + 1)) ! s) AND consumer_bit c \<noteq> 0 \<and>
     seq_newer (loaded_seq tr s) (c_last_sequence c)"

lemma scan_step_loaded:
  "scan_step c tr s best =
     (if \<not> saw_waiting c tr s then best
      else case best of
          Some (a, l) \<Rightarrow> if \<not> seq_newer a (loaded_seq tr s) then best else Some (loaded_seq tr s, s)
        | None \<Rightarrow> Some (loaded_seq tr s, s))"
  by (cases best) (auto simp: scan_step_def saw_waiting_def loaded_seq_def Let_def)

lemma pass_below:
  assumes small: "loads_small n tr" and j: "j \<le> n"
  shows "case fold (scan_step c tr) [0..<j] None of
      None \<Rightarrow> \<forall>s<j. \<not> saw_waiting c tr s
    | Some b \<Rightarrow> snd b < j \<and> fst b = loaded_seq tr (snd b) \<and> saw_waiting c tr (snd b) \<and>
        (\<forall>s<j. saw_waiting c tr s \<longrightarrow> unat (fst b) \<le> unat (loaded_seq tr s))"
  using j
proof (induction j)
  case (Suc j)
  have q: "unat (loaded_seq tr j) < 2 ^ 63" using small Suc.prems by (simp add: loads_small_def)
  show ?case
  proof (cases "fold (scan_step c tr) [0..<j] None")
    case None
    then show ?thesis using Suc by (auto simp: scan_step_loaded [of c tr j] less_Suc_eq)
  next
    case (Some b)
    obtain a l where b: "b = (a, l)" by (cases b)
    have IH: "l < j" "a = loaded_seq tr l" "saw_waiting c tr l" "\<forall>s<j. saw_waiting c tr s \<longrightarrow> unat a \<le> unat (loaded_seq tr s)"
      using Suc Some b by auto
    have "unat a < 2 ^ 63" using small IH(1,2) Suc.prems by (simp add: loads_small_def)
    then have "seq_newer a (loaded_seq tr j) \<longleftrightarrow> unat (loaded_seq tr j) < unat a" using q by (rule seq_newer_small)
    then show ?thesis using Some b IH by (fastforce simp: scan_step_loaded [of c tr j] less_Suc_eq)
  qed
qed simp

lemma scan_found:
  assumes "loads_small n tr" "scan_oldest c n tr = Some b"
  shows "snd b < n" "fst b = loaded_seq tr (snd b)" "saw_waiting c tr (snd b)"
    "s < n \<Longrightarrow> saw_waiting c tr s \<Longrightarrow> unat (fst b) \<le> unat (loaded_seq tr s)"
proof -
  have "snd b < n \<and> fst b = loaded_seq tr (snd b) \<and> saw_waiting c tr (snd b) \<and>
      (\<forall>s<n. saw_waiting c tr s \<longrightarrow> unat (fst b) \<le> unat (loaded_seq tr s))"
    using pass_below [OF assms(1) order_refl, of c] unfolding scan_oldest_def [symmetric] assms(2) option.case .
  then show "snd b < n" "fst b = loaded_seq tr (snd b)" "saw_waiting c tr (snd b)"
    "s < n \<Longrightarrow> saw_waiting c tr s \<Longrightarrow> unat (fst b) \<le> unat (loaded_seq tr s)" by blast+
qed

lemma scan_sees:
  assumes "loads_small n tr" "s < n" "saw_waiting c tr s"
  shows "\<exists>b. scan_oldest c n tr = Some b \<and> unat (fst b) \<le> unat (loaded_seq tr s)"
  using pass_below [OF assms(1) order_refl, of c] assms(2,3) by (auto simp: scan_oldest_def split: option.splits)

text \<open>
  The passes of \<^verbatim>\<open>try_take\<close>: each but the last finds something older than the one before, and the last
  does not, unless the passes run out.
\<close>

lemma rescan_chain:
  "\<exists>j f. j \<le> m \<and> f 0 = b \<and> rescan c n trs m k b = f j \<and>
     (\<forall>a<j. scan_oldest c n (trs (k + a)) = Some (f (Suc a)) \<and> seq_newer (fst (f a)) (fst (f (Suc a)))) \<and>
     (j = m \<or> (\<forall>nxt. scan_oldest c n (trs (k + j)) = Some nxt \<longrightarrow> \<not> seq_newer (fst (f j)) (fst nxt)))"
proof (induction c n trs m k b rule: rescan.induct)
  case (1 c n trs k b)
  show ?case by (intro exI [of _ 0] exI [of _ "\<lambda>_. b"]) simp
next
  case (2 c n trs m k b)
  show ?case
  proof (cases "\<exists>nxt. scan_oldest c n (trs k) = Some nxt \<and> seq_newer (fst b) (fst nxt)")
    case True
    then obtain nxt where nxt: "scan_oldest c n (trs k) = Some nxt" "seq_newer (fst b) (fst nxt)" by blast
    obtain j f where f: "j \<le> m" "f 0 = nxt" "rescan c n trs m (k + 1) nxt = f j"
        "\<forall>a<j. scan_oldest c n (trs (k + 1 + a)) = Some (f (Suc a)) \<and> seq_newer (fst (f a)) (fst (f (Suc a)))"
        "j = m \<or> (\<forall>nxt. scan_oldest c n (trs (k + 1 + j)) = Some nxt \<longrightarrow> \<not> seq_newer (fst (f j)) (fst nxt))"
      using 2 [OF nxt(1) nxt(2)] by blast
    have "scan_oldest c n (trs (k + a)) = Some (f a) \<and>
        seq_newer (fst (case_nat b f a)) (fst (f a))" if "a < Suc j" for a
      using that f(2,4) nxt by (cases a) auto
    then show ?thesis
      using f(1,3,5) nxt by (intro exI [of _ "Suc j"] exI [of _ "case_nat b f"]) simp
  next
    case False
    then show ?thesis
      by (intro exI [of _ 0] exI [of _ "\<lambda>_. b"]) (auto split: option.split)
  qed
qed

subsection \<open>The ring a take sees\<close>

text \<open>As \<open>on_timeline\<close>, for the ring as a whole: \<open>T t\<close> is the ring at instant \<open>t\<close>.\<close>

definition on_ring :: "nat \<Rightarrow> nat \<Rightarrow> (nat \<Rightarrow> ring_world) \<Rightarrow> (nat \<Rightarrow> nat \<Rightarrow> nat) \<Rightarrow> (nat \<Rightarrow> trace) \<Rightarrow> bool" where
  "on_ring i n T clk trs \<longleftrightarrow>
     ring_ok i n (T 0) \<and> (\<forall>t. (ring_step i n)\<^sup>*\<^sup>* (T t) (T (Suc t))) \<and> (\<forall>t. snd (T t) < 2 ^ 63) \<and>
     (\<forall>p k q l. k < 3 * n + 26 \<and> (p < q \<or> p = q \<and> k \<le> l) \<longrightarrow> clk p k \<le> clk q l) \<and>
     (\<forall>p k. \<forall>s<n. slots (trs p k) ! s = w_head (fst (T (clk p k)) s))"

lemma on_ring_run:
  assumes "on_ring i n T clk trs" "t \<le> u"
  shows "(ring_step i n)\<^sup>*\<^sup>* (T t) (T u)"
  using assms(2)
proof (induction rule: dec_induct)
  case (step u)
  moreover have "(ring_step i n)\<^sup>*\<^sup>* (T u) (T (Suc u))" using assms(1) by (simp add: on_ring_def)
  ultimately show ?case by simp
qed simp

lemma on_ring_ok: "on_ring i n T clk trs \<Longrightarrow> ring_ok i n (T t)"
  using ring_run_ok [OF on_ring_run [of i n T clk trs 0 t]] by (simp add: on_ring_def)

lemma on_ring_timeline: "on_ring i n T clk trs \<Longrightarrow> on_timeline i n (\<lambda>t. fst (T t)) clk trs"
  using ring_run_slot [of i n] unfolding on_ring_def on_timeline_def
  by (auto simp: ring_ok_def split: prod.splits)

lemma on_ring_facts:
  assumes "on_ring i n T clk trs"
  shows "s < n \<Longrightarrow> slot_inv (fst (T t) s)" "s < n \<Longrightarrow> unat (s_sequence (w_head (fst (T t) s))) \<le> snd (T t)"
    "snd (T t) < 2 ^ 63" "s < n \<Longrightarrow> slots (trs p k) ! s = w_head (fst (T (clk p k)) s)"
    "k < 3 * n + 26 \<Longrightarrow> p < q \<or> p = q \<and> k \<le> l \<Longrightarrow> clk p k \<le> clk q l"
  using on_ring_ok [OF assms, of t] assms by (auto simp: on_ring_def ring_ok_def split: prod.splits)

lemma on_ring_small: "on_ring i n T clk trs \<Longrightarrow> loads_small n (trs p)"
  unfolding loads_small_def loaded_seq_def
proof (intro allI impI)
  fix s assume tl: "on_ring i n T clk trs" and s: "s < n"
  show "unat (s_sequence (slots (trs p (3 * s + 2)) ! s)) < 2 ^ 63"
    unfolding on_ring_facts(4) [OF tl s]
    using on_ring_facts(2) [OF tl s] on_ring_facts(3) [OF tl] by (rule order_le_less_trans)
qed

text \<open>Passes over a slot see its sequence grow; what waits before a pass begins is seen waiting in it.\<close>

lemma on_ring_loaded:
  assumes tl: "on_ring i n T clk trs" and s: "s < n" and pq: "p < q"
  shows "unat (loaded_seq (trs p) s) \<le> unat (loaded_seq (trs q) s)"
proof -
  have "clk p (3 * s + 2) \<le> clk q (3 * s + 2)" using s pq by (intro on_ring_facts(5) [OF tl]) simp_all
  then show ?thesis
    using ring_run_sequence [OF on_ring_run [OF tl] on_ring_ok [OF tl] on_ring_facts(3) [OF tl] s]
    unfolding loaded_seq_def on_ring_facts(4) [OF tl s] by blast
qed

lemma on_ring_waits:
  assumes tl: "on_ring (c_index c) n T clk trs" and s: "s < n" and t: "t \<le> clk p 0"
    and h: "holds_for (c_index c) q (fst (T t) s)" and new: "seq_newer q (c_last_sequence c)"
  shows "saw_waiting c (trs p) s" "loaded_seq (trs p) s = q"
proof -
  have "holds_for (c_index c) q (w_head_at)" if "w_head_at = fst (T (clk p k)) s" for w_head_at k
  proof -
    have "clk p 0 \<le> clk p k" by (intro on_ring_facts(5) [OF tl]) simp_all
    then have "t \<le> clk p k" using t by simp
    from ring_run_stays [OF on_ring_run [OF tl this] on_ring_facts(1) [OF tl s] h] show ?thesis using that by simp
  qed
  then have at: "s_state (slots (trs p k) ! s) = STATE_COMMITTED" "bit (s_readers_mask (slots (trs p k) ! s)) (c_index c)"
    "s_sequence (slots (trs p k) ! s) = q" for k
    unfolding on_ring_facts(4) [OF tl s] holds_for_def by blast+
  then show "saw_waiting c (trs p) s" "loaded_seq (trs p) s = q"
    using new by (simp_all add: saw_waiting_def loaded_seq_def and_consumer_bit)
qed

text \<open>
  The candidate a take settles on: loaded in some pass, and confirmed by a later one to be no newer than
  anything that pass saw waiting. The passes never run out, because each new candidate is older and in
  another slot.
\<close>

lemma chain_descends:
  assumes "\<forall>a<j. unat (fst (f (Suc a))) < unat (fst (f a) :: u64)" "a < b" "b \<le> j"
  shows "unat (fst (f b)) < unat (fst (f a))"
  using assms(2,3)
proof (induction rule: less_Suc_induct [consumes 1, case_names Suc trans])
  case (Suc a)
  then show ?case using assms(1) by simp
next
  case (trans a b c)
  then show ?case by simp
qed

lemma passes_settle:
  assumes tl: "on_ring (c_index c) n T clk trs" and first: "scan_oldest c n (trs 0) = Some first"
    and best: "rescan c n trs n 1 first = (q, s)"
  shows "\<exists>p<n. scan_oldest c n (trs p) = Some (q, s) \<and>
    (\<forall>t<n. saw_waiting c (trs (Suc p)) t \<longrightarrow> unat q \<le> unat (loaded_seq (trs (Suc p)) t))"
proof -
  note small = on_ring_small [OF tl]
  obtain j f where f: "j \<le> n" "f 0 = first" "rescan c n trs n 1 first = f j"
    and found: "\<And>a. a < j \<Longrightarrow> scan_oldest c n (trs (Suc a)) = Some (f (Suc a)) \<and> seq_newer (fst (f a)) (fst (f (Suc a)))"
    and last: "j = n \<or> (\<forall>nxt. scan_oldest c n (trs (Suc j)) = Some nxt \<longrightarrow> \<not> seq_newer (fst (f j)) (fst nxt))"
    using rescan_chain [of n first c n trs 1] by auto
  have scan: "scan_oldest c n (trs a) = Some (f a)" if "a \<le> j" for a
    using that first f(2) found by (cases a) auto
  then have slot: "snd (f a) < n" "fst (f a) = loaded_seq (trs a) (snd (f a))" if "a \<le> j" for a
    using scan_found(1,2) [OF small] that by blast+
  have val: "unat (fst (f a)) < 2 ^ 63" if "a \<le> j" for a
    using small [of a] slot [OF that] by (simp add: loads_small_def)
  have "\<forall>a<j. unat (fst (f (Suc a))) < unat (fst (f a))"
    using found seq_newer_small val by (metis Suc_leI order_less_imp_le)
  then have down: "unat (fst (f b)) < unat (fst (f a))" if "a < b" "b \<le> j" for a b
    using chain_descends that by blast
  have "j \<noteq> n"
  proof
    assume j: "j = n"
    have "\<not> inj_on (\<lambda>a. snd (f a)) {..n}"
    proof (rule pigeonhole)
      have "(\<lambda>a. snd (f a)) ` {..n} \<subseteq> {..<n}" using slot(1) j by auto
      then have "card ((\<lambda>a. snd (f a)) ` {..n}) \<le> card {..<n}" by (intro card_mono) simp_all
      then show "card ((\<lambda>a. snd (f a)) ` {..n}) < card {..n}" by simp
    qed
    then obtain a b where ab: "a < b" "b \<le> n" "snd (f a) = snd (f b)"
      unfolding inj_on_def by (metis atMost_iff linorder_neqE_nat)
    have "unat (fst (f a)) \<le> unat (fst (f b))"
      using on_ring_loaded [OF tl slot(1) [of a] ab(1)] slot(2) [of a] slot(2) [of b] ab j by simp
    with down [OF ab(1)] ab(2) j show False by simp
  qed
  then have p: "j < n" and conf: "\<And>nxt. scan_oldest c n (trs (Suc j)) = Some nxt \<Longrightarrow> \<not> seq_newer (fst (f j)) (fst nxt)"
    using f(1) last by auto
  have fj: "f j = (q, s)" using best f(3) by simp
  have "unat q \<le> unat (loaded_seq (trs (Suc j)) t)" if t: "t < n" "saw_waiting c (trs (Suc j)) t" for t
  proof -
    obtain b where b: "scan_oldest c n (trs (Suc j)) = Some b" "unat (fst b) \<le> unat (loaded_seq (trs (Suc j)) t)"
      using scan_sees [OF small t] by blast
    have "unat (fst b) < 2 ^ 63"
      using scan_found(1,2) [OF small b(1)] small [of "Suc j"] by (simp add: loads_small_def)
    then have "\<not> unat (fst b) < unat q" using conf [OF b(1)] val [of j] fj by (simp add: seq_newer_small)
    with b(2) show ?thesis by simp
  qed
  then show ?thesis using p scan [of j] fj by (intro exI [of _ j]) simp
qed

text \<open>A slot seen waiting, with a sequence older than the counter when the pass began, waits.\<close>

lemma saw_holds:
  assumes tl: "on_ring (c_index c) n T clk trs" and s: "s < n" and saw: "saw_waiting c (trs p) s"
    and old: "unat (loaded_seq (trs p) s) < snd (T (clk p 0))" and t: "clk p (3 * s) \<le> t"
  shows "holds_for (c_index c) (loaded_seq (trs p) s) (fst (T t) s)"
proof -
  let ?i = "c_index c" and ?t0 = "clk p (3 * s)" and ?t1 = "clk p (3 * s + 1)" and ?t2 = "clk p (3 * s + 2)"
  have mono: "clk p 0 \<le> ?t0" "?t0 \<le> ?t1" "?t1 \<le> ?t2" "?t0 \<le> ?t2"
    using s by (intro on_ring_facts(5) [OF tl]; simp)+
  note at = saw [unfolded saw_waiting_def loaded_seq_def on_ring_facts(4) [OF tl s]]
  have "bit (s_readers_mask (w_head (fst (T ?t0) s))) ?i"
  proof (rule ccontr)
    assume "\<not> bit (s_readers_mask (w_head (fst (T ?t0) s))) ?i"
    then have "snd (T ?t0) \<le> unat (s_sequence (w_head (fst (T ?t1) s)))"
      using at by (intro ring_run_bit [OF on_ring_run [OF tl mono(2)] on_ring_ok [OF tl] on_ring_facts(3) [OF tl] s])
        (simp_all add: and_consumer_bit)
    also have "\<dots> \<le> unat (s_sequence (w_head (fst (T ?t2) s)))"
      by (rule ring_run_sequence [OF on_ring_run [OF tl mono(3)] on_ring_ok [OF tl] on_ring_facts(3) [OF tl] s])
    finally have "snd (T ?t0) \<le> unat (loaded_seq (trs p) s)"
      unfolding loaded_seq_def on_ring_facts(4) [OF tl s] .
    with old ring_run_mono [OF on_ring_run [OF tl mono(1)]] show False by simp
  qed
  then have h: "holds_for ?i (s_sequence (w_head (fst (T ?t0) s))) (fst (T ?t0) s)"
    using at by (simp add: holds_for_def)
  have stays: "holds_for ?i (s_sequence (w_head (fst (T ?t0) s))) (fst (T u) s)" if "?t0 \<le> u" for u
    by (rule ring_run_stays [OF on_ring_run [OF tl that] on_ring_facts(1) [OF tl s] h])
  have "loaded_seq (trs p) s = s_sequence (w_head (fst (T ?t0) s))"
    using stays [OF mono(4)] unfolding loaded_seq_def on_ring_facts(4) [OF tl s] by (simp add: holds_for_def)
  then show ?thesis using stays [OF t] by simp
qed

lemma validated_of_held:
  assumes at: "\<And>k. s_state (slots (tr k) ! s) = STATE_COMMITTED" "\<And>k. s_sequence (slots (tr k) ! s) = q"
      "\<And>k. bit (s_readers_mask (slots (tr k) ! s)) (c_index c)"
    and good: "\<And>k. unat (s_ndim (slots (tr k) ! s)) \<le> MAX_NDIM" "\<And>k. s_nbytes (slots (tr k) ! s) \<le> cap"
      "\<And>k. dtype_from_code (s_dtype (slots (tr k) ! s)) \<noteq> None"
  shows "read_validated cap c tr s q \<noteq> None"
proof -
  have "s_readers_mask (slots (tr k) ! s) AND consumer_bit c \<noteq> 0" for k
    using at(3) by (simp add: and_consumer_bit)
  moreover have "\<not> MAX_NDIM < unat (s_ndim (slots (tr k) ! s))" "\<not> cap < s_nbytes (slots (tr k) ! s)" for k
    using good(1,2) [of k] by simp_all
  ultimately show ?thesis
    using good(3) by (simp add: read_validated_def at(1,2) Let_def split: option.split)
qed

lemma eligible_holds:
  "eligible c (w_head w) \<longleftrightarrow> holds_for (c_index c) (s_sequence (w_head w)) w \<and> seq_newer (s_sequence (w_head w)) (c_last_sequence c)"
  by (auto simp: eligible_def holds_for_def and_consumer_bit)

text \<open>What a take returns was waiting when its validation began, and nothing older was.\<close>

lemma take_oldest:
  assumes tl: "on_ring (c_index c) n T clk trs" and take: "try_take cap c n trs = Some m"
  shows "m_slot_index m < n" "holds_for (c_index c) (m_sequence m) (fst (T (clk (n + 1) 0)) (m_slot_index m))"
    "seq_newer (m_sequence m) (c_last_sequence c)"
    "s < n \<Longrightarrow> eligible c (w_head (fst (T (clk (n + 1) 0)) s)) \<Longrightarrow>
     \<not> seq_newer (m_sequence m) (s_sequence (w_head (fst (T (clk (n + 1) 0)) s)))"
proof -
  let ?i = "c_index c" and ?sm = "m_slot_index m" and ?q = "m_sequence m" and ?t = "clk (n + 1) 0"
  show sm: "?sm < n" and new: "seq_newer ?q (c_last_sequence c)" using try_take_any [OF take] by simp_all
  have rv: "read_validated cap c (trs (n + 1)) ?sm ?q = Some m" using try_take_any [OF take] by simp
  have later: "?t \<le> clk (n + 1) 1" by (intro on_ring_facts(5) [OF tl]) simp_all
  have frozen: "frozen ?i (w_cell (fst (T ?t) ?sm)) (w_log (fst (T ?t) ?sm)) (fst (T u) ?sm)" if "?t \<le> u" for u
    using take_frozen [OF on_ring_timeline [OF tl] take that] by simp
  have "s_sequence (w_head (fst (T (clk (n + 1) 1)) ?sm)) = ?q"
    using read_validated_fields(2) [OF rv] unfolding on_ring_facts(4) [OF tl sm] .
  then have "s_sequence (w_head (fst (T ?t) ?sm)) = ?q"
    using frozen_holds [OF frozen [OF later]] by (simp add: holds_for_def)
  then show "holds_for ?i ?q (fst (T ?t) ?sm)" using frozen_holds [OF frozen [OF order_refl]] by simp
  obtain first where first: "scan_oldest c n (trs 0) = Some first"
    using take by (auto simp: try_take_def split: option.splits)
  have "rescan c n trs n 1 first = (?q, ?sm)"
    using take first by (auto simp: try_take_def read_validated_def Let_def split: prod.splits if_splits option.splits)
  then obtain p where p: "p < n" "scan_oldest c n (trs p) = Some (?q, ?sm)"
      "\<And>t. t < n \<Longrightarrow> saw_waiting c (trs (Suc p)) t \<Longrightarrow> unat ?q \<le> unat (loaded_seq (trs (Suc p)) t)"
    using passes_settle [OF tl first] by blast
  let ?u = "clk p (3 * ?sm + 2)"
  have q: "?q = s_sequence (w_head (fst (T ?u) ?sm))"
    using scan_found(2) [OF on_ring_small [OF tl] p(2)]
    unfolding fst_conv snd_conv loaded_seq_def on_ring_facts(4) [OF tl sm] .
  have qk: "unat ?q \<le> snd (T ?u)" "unat ?q < 2 ^ 63"
    using on_ring_facts(2) [OF tl sm, of ?u] on_ring_facts(3) [OF tl, of ?u] unfolding q by simp_all
  have times: "?u \<le> clk (Suc p) 0" "?u \<le> ?t" using sm p(1) by (intro on_ring_facts(5) [OF tl]; simp)+
  show "\<not> seq_newer ?q (s_sequence (w_head (fst (T ?t) s)))"
    if s: "s < n" and el: "eligible c (w_head (fst (T ?t) s))"
  proof
    let ?q' = "s_sequence (w_head (fst (T ?t) s))"
    assume "seq_newer ?q ?q'"
    moreover have "unat ?q' < 2 ^ 63" using on_ring_facts(2) [OF tl s, of ?t] on_ring_facts(3) [OF tl, of ?t] by simp
    ultimately have older: "unat ?q' < unat ?q" using qk(2) by (simp add: seq_newer_small)
    have at: "holds_for ?i ?q' (fst (T ?t) s)" "seq_newer ?q' (c_last_sequence c)" using el by (simp_all add: eligible_holds)
    have "holds_for ?i ?q' (fst (T ?u) s)"
      using older qk(1)
      by (intro ring_run_holds [OF on_ring_run [OF tl times(2)] on_ring_ok [OF tl] on_ring_facts(3) [OF tl] s at(1)]) simp
    from on_ring_waits [OF tl s times(1) this at(2)] p(3) [OF s] older show False by simp
  qed
qed

text \<open>And when it returns nothing, nothing was waiting when it began.\<close>

lemma take_none:
  assumes tl: "on_ring (c_index c) n T clk trs" and none: "try_take cap c n trs = None"
    and good: "\<And>t s. s < n \<Longrightarrow> s_state (w_head (fst (T t) s)) = STATE_COMMITTED \<Longrightarrow>
      unat (s_ndim (w_head (fst (T t) s))) \<le> MAX_NDIM \<and> s_nbytes (w_head (fst (T t) s)) \<le> cap \<and>
      dtype_from_code (s_dtype (w_head (fst (T t) s))) \<noteq> None"
    and s: "s < n"
  shows "\<not> eligible c (w_head (fst (T (clk 0 0)) s))"
proof
  let ?i = "c_index c" and ?q = "s_sequence (w_head (fst (T (clk 0 0)) s))"
  assume "eligible c (w_head (fst (T (clk 0 0)) s))"
  then have at: "holds_for ?i ?q (fst (T (clk 0 0)) s)" "seq_newer ?q (c_last_sequence c)"
    by (simp_all add: eligible_holds)
  have begins: "clk 0 0 \<le> clk p 0" for p by (cases p; intro on_ring_facts(5) [OF tl]; simp)
  note waits = on_ring_waits [OF tl s begins at]
  have old: "unat ?q < snd (T (clk 0 0))"
    using on_ring_ok [OF tl, of "clk 0 0"] at(1) s by (auto simp: ring_ok_def split: prod.splits)
  obtain first where first: "scan_oldest c n (trs 0) = Some first"
    using scan_sees [OF on_ring_small [OF tl] s waits(1)] by blast
  obtain q l where best: "rescan c n trs n 1 first = (q, l)" by force
  obtain p where p: "p < n" "scan_oldest c n (trs p) = Some (q, l)"
    using passes_settle [OF tl first best] by blast
  note found = scan_found [OF on_ring_small [OF tl] p(2), simplified]
  have "unat q \<le> unat ?q" using found(4) [OF s waits(1)] waits(2) by simp
  then have "unat (loaded_seq (trs p) l) < snd (T (clk p 0))"
    using old found(2) ring_run_mono [OF on_ring_run [OF tl begins [of p]]] by simp
  then have "holds_for ?i q (fst (T t) l)" if "clk p (3 * l) \<le> t" for t
    using saw_holds [OF tl found(1,3) _ that] found(2) by simp
  moreover have "clk p (3 * l) \<le> clk (n + 1) k" for k
    using found(1) p(1) by (intro on_ring_facts(5) [OF tl]) simp_all
  ultimately have h: "holds_for ?i q (fst (T (clk (n + 1) k)) l)" for k by blast
  have "read_validated cap c (trs (n + 1)) l q \<noteq> None"
    using h good [OF found(1)] unfolding holds_for_def
    by (intro validated_of_held) (simp_all add: on_ring_facts(4) [OF tl found(1)])
  with none first best show False by (simp add: try_take_def)
qed

text \<open>
  Claim C6. A take is atomic. Producers, sweepers and other consumers go on store by store between the
  loads of its passes, one publisher at a time; still there is an instant of the call at which it could
  have been done in one step: the publication it returns was waiting for the consumer in its slot when
  the validation began, and nothing older was; and when it returns nothing, nothing was waiting when it
  began.
\<close>

theorem take_linearizes:
  assumes tl: "on_ring (c_index c) n T clk trs"
    and good: "\<forall>t. \<forall>s<n. s_state (w_head (fst (T t) s)) = STATE_COMMITTED \<longrightarrow>
      unat (s_ndim (w_head (fst (T t) s))) \<le> MAX_NDIM \<and> s_nbytes (w_head (fst (T t) s)) \<le> cap \<and>
      dtype_from_code (s_dtype (w_head (fst (T t) s))) \<noteq> None"
  shows "case try_take cap c n trs of
      None \<Rightarrow> \<forall>s<n. \<not> eligible c (w_head (fst (T (clk 0 0)) s))
    | Some m \<Rightarrow>
        m_slot_index m < n \<and>
        eligible c (w_head (fst (T (clk (n + 1) 0)) (m_slot_index m))) \<and>
        s_sequence (w_head (fst (T (clk (n + 1) 0)) (m_slot_index m))) = m_sequence m \<and>
        (\<forall>s<n. eligible c (w_head (fst (T (clk (n + 1) 0)) s)) \<longrightarrow>
           \<not> seq_newer (m_sequence m) (s_sequence (w_head (fst (T (clk (n + 1) 0)) s))))"
proof (cases "try_take cap c n trs")
  case None
  then show ?thesis using take_none [OF tl None] good by simp
next
  case (Some m)
  note m = take_oldest [OF tl Some]
  have seq: "s_sequence (w_head (fst (T (clk (n + 1) 0)) (m_slot_index m))) = m_sequence m"
    using m(2) by (simp add: holds_for_def)
  then have "eligible c (w_head (fst (T (clk (n + 1) 0)) (m_slot_index m)))"
    using m(2,3) by (simp add: eligible_holds)
  with seq m(1,4) show ?thesis by (simp add: Some)
qed

text \<open>A witness: \<open>pending_ring\<close>, whose publication has sequence 1, at rest.\<close>

lemma still_ring: "on_ring 0 2 (\<lambda>_. (still_world, 2)) (\<lambda>_ _. 0) (\<lambda>_. still pending_ring)"
proof -
  have "ring_ok 0 2 (still_world, 2)"
    unfolding ring_ok_def
    by (simp add: still_world_inv)
      (auto simp: still_world_def Let_def less_2_cases_iff writer_def holds_for_def pending_slot_def zero_slot_def)
  then show ?thesis using still_timeline [of 0] by (simp add: on_ring_def on_timeline_def)
qed

theorem take_linearizes_witness:
  "eligible demo_consumer (w_head (still_world 0)) \<and>
   (\<exists>m. try_take 64 demo_consumer 2 (\<lambda>_. still pending_ring) = Some m \<and> m_slot_index m < 2 \<and>
      s_sequence (w_head (still_world (m_slot_index m))) = m_sequence m)"
proof -
  have el: "eligible demo_consumer (w_head (still_world 0))"
    using demo_eligible by (simp add: still_world_def Let_def)
  have good: "\<forall>t. \<forall>s<2. s_state (w_head (fst (still_world, 2 :: nat) s)) = STATE_COMMITTED \<longrightarrow>
      unat (s_ndim (w_head (fst (still_world, 2 :: nat) s))) \<le> MAX_NDIM \<and>
      s_nbytes (w_head (fst (still_world, 2 :: nat) s)) \<le> 64 \<and>
      dtype_from_code (s_dtype (w_head (fst (still_world, 2 :: nat) s))) \<noteq> None"
    by (auto simp: still_world_def Let_def less_2_cases_iff pending_slot_def zero_slot_def MAX_NDIM_def dtype_from_code_def)
  have "c_index demo_consumer = 0" by (simp add: demo_consumer_def)
  from take_linearizes [of demo_consumer 2 "\<lambda>_. (still_world, 2)", unfolded this, OF still_ring good] el
  show ?thesis by (force split: option.splits)
qed

end
