(* ===== verification/Bytes.thy ===== *)
theory Bytes
  imports RustStd
begin

text \<open>
  Memory as a list of bytes: reading and writing a range, and the little-endian form of the integers
  the program keeps in shared memory. The locale \<open>byte_codec\<close> is what a type of values promises to be
  kept in memory; the four widths the program uses are its instances.
\<close>

unbundle bit_operations_syntax

subsection \<open>Ranges\<close>

definition peek :: "nat \<Rightarrow> nat \<Rightarrow> u8 list \<Rightarrow> u8 list" where
  "peek p n m = take n (drop p m)"

definition poke :: "nat \<Rightarrow> u8 list \<Rightarrow> u8 list \<Rightarrow> u8 list" where
  "poke p bs m = take p m @ bs @ drop (p + length bs) m"

lemma length_peek: "length (peek p n m) = min n (length m - p)"
  by (simp add: peek_def)

lemma length_poke [simp]: "p + length bs \<le> length m \<Longrightarrow> length (poke p bs m) = length m"
  by (simp add: poke_def)

lemma nth_peek: "i < n \<Longrightarrow> p + i < length m \<Longrightarrow> peek p n m ! i = m ! (p + i)"
  by (simp add: peek_def)

lemma nth_poke:
  "p + length bs \<le> length m \<Longrightarrow> i < length m \<Longrightarrow>
   poke p bs m ! i = (if p \<le> i \<and> i < p + length bs then bs ! (i - p) else m ! i)"
  by (auto simp: poke_def nth_append min_def)

lemma peek_poke_other:
  assumes "q + length bs \<le> length m" "p + n \<le> q \<or> q + length bs \<le> p"
  shows "peek p n (poke q bs m) = peek p n m"
proof (rule nth_equalityI)
  show "length (peek p n (poke q bs m)) = length (peek p n m)"
    using assms(1) by (simp add: length_peek)
  fix i assume "i < length (peek p n (poke q bs m))"
  then have "i < n" "p + i < length m" using assms(1) by (auto simp: length_peek)
  then show "peek p n (poke q bs m) ! i = peek p n m ! i"
    using assms by (auto simp: nth_peek nth_poke)
qed

lemma peek_poke_inside:
  assumes "b + n \<le> length m" "k + length bs \<le> n"
  shows "peek b n (poke (b + k) bs m) = poke k bs (peek b n m)"
proof (rule nth_equalityI)
  show "length (peek b n (poke (b + k) bs m)) = length (poke k bs (peek b n m))"
    using assms by (simp add: length_peek)
  fix i assume "i < length (peek b n (poke (b + k) bs m))"
  then have "i < n" using assms by (simp add: length_peek)
  then show "peek b n (poke (b + k) bs m) ! i = poke k bs (peek b n m) ! i"
    using assms by (auto simp: nth_peek nth_poke length_peek)
qed

lemma poke_all: "length bs = length m \<Longrightarrow> poke 0 bs m = bs"
  by (simp add: poke_def)

lemma peek_poke_same: "q + length bs \<le> length m \<Longrightarrow> peek q (length bs) (poke q bs m) = bs"
  using peek_poke_inside [of q "length bs" m 0 bs] by (simp add: poke_all length_peek)

lemma poke_prefix: "poke 0 bs m = bs @ drop (length bs) m"
  by (simp add: poke_def)

lemma poke_byte: "p < length m \<Longrightarrow> poke p [v] m = m[p := v]"
  by (simp add: poke_def upd_conv_take_nth_drop)

lemma peek_zeros: "p + n \<le> k \<Longrightarrow> peek p n (replicate k 0) = replicate n 0"
  by (simp add: peek_def)

subsection \<open>Values in memory\<close>

locale byte_codec =
  fixes enc :: "'a \<Rightarrow> u8 list"
    and dec :: "u8 list \<Rightarrow> 'a"
    and width :: nat
  assumes length_enc: "length (enc v) = width"
    and dec_enc: "dec (enc v) = v"
begin

lemma load_store_same: "q + width \<le> length m \<Longrightarrow> dec (peek q width (poke q (enc v) m)) = v"
  using peek_poke_same [of q "enc v" m] by (simp add: length_enc dec_enc)

lemma load_store_other:
  "q + length bs \<le> length m \<Longrightarrow> p + width \<le> q \<or> q + length bs \<le> p \<Longrightarrow>
   dec (peek p width (poke q bs m)) = dec (peek p width m)"
  by (simp add: peek_poke_other)

lemma bytes_of_stored: "q + width \<le> length m \<Longrightarrow> peek q width (poke q (enc v) m) = enc v"
  using peek_poke_same [of q "enc v" m] by (simp add: length_enc)

lemma load_store_array:
  assumes "k < n" "a + n * width \<le> length m"
  shows "map (\<lambda>d. dec (peek (a + d * width) width (poke (a + k * width) (enc v) m))) [0..<n] =
    (map (\<lambda>d. dec (peek (a + d * width) width m)) [0..<n])[k := v]"
proof (rule nth_equalityI)
  fix i assume "i < length (map (\<lambda>d. dec (peek (a + d * width) width (poke (a + k * width) (enc v) m))) [0..<n])"
  then have i: "i < n" by simp
  have bound: "a + j * width + width \<le> length m" if "j < n" for j
    using mult_le_mono1 [of "Suc j" n width] that assms(2) by simp
  show "map (\<lambda>d. dec (peek (a + d * width) width (poke (a + k * width) (enc v) m))) [0..<n] ! i =
    (map (\<lambda>d. dec (peek (a + d * width) width m)) [0..<n])[k := v] ! i"
  proof (cases "i = k")
    case True
    then show ?thesis using i bound [OF assms(1)] by (simp add: load_store_same)
  next
    case False
    then have "i * width + width \<le> k * width \<or> k * width + width \<le> i * width"
      using mult_le_mono1 [of "Suc i" k width] mult_le_mono1 [of "Suc k" i width] by (cases "i < k") auto
    then show ?thesis using i False bound [OF assms(1)] by (auto simp: load_store_other length_enc)
  qed
qed simp

end

subsection \<open>Little-endian integers\<close>

definition word_bytes :: "'a::len word \<Rightarrow> u8 list" where
  "word_bytes x = map (\<lambda>k. ucast (drop_bit (8 * k) x)) [0..<LENGTH('a) div 8]"

definition word_of_bytes :: "u8 list \<Rightarrow> 'a::len word" where
  "word_of_bytes bs = foldr (\<lambda>b acc. ucast b OR push_bit 8 acc) bs 0"

lemma length_word_bytes [simp]: "length (word_bytes (x :: 'a::len word)) = LENGTH('a) div 8"
  by (simp add: word_bytes_def)

lemma bit_word_of_bytes:
  "bit (word_of_bytes bs :: 'a::len word) i \<longleftrightarrow>
     i < LENGTH('a) \<and> i div 8 < length bs \<and> bit (bs ! (i div 8)) (i mod 8)"
proof (induction bs arbitrary: i)
  case Nil
  then show ?case by (simp add: word_of_bytes_def)
next
  case (Cons b bs)
  have "bit (word_of_bytes (b # bs) :: 'a word) i \<longleftrightarrow>
      i < LENGTH('a) \<and> (bit b i \<or> (8 \<le> i \<and> bit (word_of_bytes bs :: 'a word) (i - 8)))"
    by (auto simp: word_of_bytes_def bit_simps)
  also have "\<dots> \<longleftrightarrow> i < LENGTH('a) \<and> i div 8 < length (b # bs) \<and> bit ((b # bs) ! (i div 8)) (i mod 8)"
  proof (cases "i < 8")
    case False
    then obtain j where "i = 8 + j" by (metis le_add_diff_inverse linorder_not_less)
    moreover have "(8 + j) div 8 = Suc (j div 8)" by (simp add: div_add_self1)
    ultimately show ?thesis using Cons.IH [of j] bit_imp_le_length [of b i] by auto
  qed auto
  finally show ?case .
qed

lemma word_of_bytes_roundtrip:
  assumes "8 dvd LENGTH('a)"
  shows "word_of_bytes (word_bytes x) = (x :: 'a::len word)"
proof (rule bit_word_eqI)
  fix i assume i: "i < LENGTH('a)"
  obtain c where c: "LENGTH('a) = 8 * c" using assms by (elim dvdE)
  with i have "i div 8 < LENGTH('a) div 8" by (simp add: less_mult_imp_div_less mult.commute)
  with i show "bit (word_of_bytes (word_bytes x) :: 'a word) i = bit x i"
    by (simp add: bit_word_of_bytes word_bytes_def bit_simps)
qed

lemma word_bytes_of:
  assumes "LENGTH('a::len) = 8 * length bs"
  shows "word_bytes (word_of_bytes bs :: 'a word) = bs"
proof (rule nth_equalityI)
  fix i assume "i < length (word_bytes (word_of_bytes bs :: 'a word))"
  then have i: "i < length bs" using assms by simp
  have "word_bytes (word_of_bytes bs :: 'a word) ! i = ucast (drop_bit (8 * i) (word_of_bytes bs :: 'a word))"
    using assms i by (simp add: word_bytes_def)
  also have "\<dots> = bs ! i"
    using assms i by (intro bit_word_eqI) (auto simp: bit_simps bit_word_of_bytes)
  finally show "word_bytes (word_of_bytes bs :: 'a word) ! i = bs ! i" .
qed (use assms in simp)

interpretation le16: byte_codec "word_bytes :: u16 \<Rightarrow> u8 list" word_of_bytes 2
  by unfold_locales (simp_all add: word_of_bytes_roundtrip)

interpretation le32: byte_codec "word_bytes :: u32 \<Rightarrow> u8 list" word_of_bytes 4
  by unfold_locales (simp_all add: word_of_bytes_roundtrip)

interpretation le64: byte_codec "word_bytes :: u64 \<Rightarrow> u8 list" word_of_bytes 8
  by unfold_locales (simp_all add: word_of_bytes_roundtrip)

interpretation byte: byte_codec "\<lambda>v :: u8. [v]" "\<lambda>bs. bs ! 0" 1
  by unfold_locales simp_all

lemma u32_bytes_word: "u32_bytes x = word_bytes x"
  by (simp add: u32_bytes_def word_bytes_def)

lemma word_of_zeros: "word_of_bytes (replicate n 0) = 0"
  by (rule bit_word_eqI) (simp add: bit_word_of_bytes)

end
