(* ===== verification/TypedWrite.thy ===== *)
theory TypedWrite
  imports Consumer Bytes
begin

text \<open>
  The typed faces of a payload: \<^verbatim>\<open>SlotWriter::payload_as\<close>, through which a producer writes numbers straight
  into its slot, and \<^verbatim>\<open>Lease::as_slice\<close>, through which a consumer reads them; and the poisoning of a
  reserved payload in debug builds. A type of elements is its encoding as bytes and its size, which is
  not 0 (a slice of a type without size panics).
\<close>

subsection \<open>Elements in a payload\<close>

text \<open>The elements of \<^verbatim>\<open>payload_as\<close>, as the places they start at.\<close>

definition payload_as :: "nat \<Rightarrow> slot_writer \<Rightarrow> nat list" where
  "payload_as sz w = map (\<lambda>i. i * sz) [0..<unat (sw_nbytes w) div sz]"

definition poke_payload :: "nat \<Rightarrow> nat \<Rightarrow> u8 list \<Rightarrow> ring \<Rightarrow> ring" where
  "poke_payload s p bs r = r\<lparr>payloads := (payloads r)[s := poke p bs (payloads r ! s)]\<rparr>"

text \<open>Element after element of \<open>xs\<close> is stored, as far as there are elements.\<close>

definition fill_as :: "('a \<Rightarrow> u8 list) \<Rightarrow> nat \<Rightarrow> slot_writer \<Rightarrow> 'a list \<Rightarrow> ring \<Rightarrow> ring" where
  "fill_as enc sz w xs r =
     fold (\<lambda>(p, x). poke_payload (sw_slot w) p (enc x)) (zip (payload_as sz w) xs) r"

definition as_slice :: "(u8 list \<Rightarrow> 'a) \<Rightarrow> nat \<Rightarrow> u8 list \<Rightarrow> 'a list" where
  "as_slice decode sz data = map (\<lambda>i. decode (peek (i * sz) sz data)) [0..<length data div sz]"

context byte_codec
begin

lemma length_concat_enc [simp]: "length (concat (map enc xs)) = length xs * width"
  by (induction xs) (simp_all add: length_enc)

lemma poke_chunks:
  assumes "n \<le> length xs"
  shows "fold (\<lambda>i. poke (i * width) (enc (xs ! i))) [0..<n] m = concat (map enc (take n xs)) @ drop (n * width) m"
  using assms
proof (induction n)
  case (Suc n)
  then have "fold (\<lambda>i. poke (i * width) (enc (xs ! i))) [0..<Suc n] m =
      poke (n * width) (enc (xs ! n)) (concat (map enc (take n xs)) @ drop (n * width) m)"
    by simp
  also have "\<dots> = concat (map enc (take n xs)) @ enc (xs ! n) @ drop (width + n * width) m"
    using Suc.prems by (simp add: poke_def length_enc min_def add.commute)
  finally show ?case using Suc.prems by (simp add: take_Suc_conv_app_nth)
qed simp

lemma slice_chunks:
  assumes "0 < width"
  shows "as_slice dec width (concat (map enc xs)) = xs"
proof (rule nth_equalityI)
  show "length (as_slice dec width (concat (map enc xs))) = length xs"
    using assms by (simp add: as_slice_def)
  fix i assume "i < length (as_slice dec width (concat (map enc xs)))"
  then have i: "i < length xs" using assms by (simp add: as_slice_def)
  have "xs = take i xs @ xs ! i # drop (Suc i) xs" using i by (rule id_take_nth_drop)
  then have "concat (map enc xs) = concat (map enc (take i xs)) @ enc (xs ! i) @ concat (map enc (drop (Suc i) xs))"
    by (metis concat.simps(2) concat_append list.simps(9) map_append)
  then have "peek (i * width) width (concat (map enc xs)) = enc (xs ! i)"
    using i by (simp add: peek_def length_enc min_def)
  then show "as_slice dec width (concat (map enc xs)) ! i = xs ! i"
    using i assms by (simp add: as_slice_def dec_enc)
qed

end

lemma fold_poke_payload:
  "fold (\<lambda>(p, x). poke_payload s p (enc x)) ps r =
   r\<lparr>payloads := (payloads r)[s := fold (\<lambda>(p, x). poke p (enc x)) ps (payloads r ! s)]\<rparr>"
proof (cases "s < length (payloads r)")
  case True
  then show ?thesis
  proof (induction ps arbitrary: r)
    case (Cons px ps)
    then show ?case by (cases px) (simp add: poke_payload_def)
  qed simp
next
  case False
  then show ?thesis
  proof (induction ps arbitrary: r)
    case (Cons px ps)
    then show ?case by (cases px) (simp add: poke_payload_def list_update_beyond)
  qed (simp add: list_update_beyond)
qed

text \<open>Filling every element is filling the bytes.\<close>

lemma fill_as_fill:
  assumes codec: "byte_codec enc decode sz" and pos: "0 < sz"
    and len: "unat (sw_nbytes w) = length xs * sz"
  shows "fill_as enc sz w xs r = writer_fill w (concat (map enc xs)) r"
proof -
  let ?data = "concat (map enc xs)" and ?m = "payloads r ! sw_slot w"
  have data: "length ?data = length xs * sz" by (rule byte_codec.length_concat_enc [OF codec])
  have "zip (payload_as sz w) xs = map (\<lambda>i. (i * sz, xs ! i)) [0..<length xs]"
    using pos by (intro nth_equalityI) (simp_all add: payload_as_def len)
  then have "fold (\<lambda>(p, x). poke p (enc x)) (zip (payload_as sz w) xs) ?m =
      fold (\<lambda>i. poke (i * sz) (enc (xs ! i))) [0..<length xs] ?m"
    by (simp add: fold_map comp_def)
  also have "\<dots> = ?data @ drop (length ?data) ?m"
    using byte_codec.poke_chunks [OF codec, of "length xs" xs ?m] by (simp add: data)
  finally show ?thesis
    by (simp add: fill_as_def fold_poke_payload writer_fill_def copy_payload_def len data)
qed

lemma word_codec: "8 dvd LENGTH('a::len) \<Longrightarrow> byte_codec (word_bytes :: 'a word \<Rightarrow> u8 list) word_of_bytes (LENGTH('a) div 8)"
  by unfold_locales (simp_all add: word_of_bytes_roundtrip)

subsection \<open>Alignment\<close>

lemma unat_mult_64: "unat (x * 64 :: usize) mod 64 = 0"
  by (simp add: unat_word_ariths mod_mod_cancel)

lemma unat_plus_64: "unat (x :: usize) mod 64 = 0 \<Longrightarrow> unat y mod 64 = 0 \<Longrightarrow> unat (x + y) mod 64 = 0"
  by (simp add: unat_word_ariths mod_mod_cancel) presburger

lemma payload_base_aligned: "unat (payload_base i cap) mod 64 = 0"
proof -
  have "i * slot_stride cap = (i * div_ceil (SLOT_HEADER_SIZE + cap) 64) * 64"
    by (simp add: slot_stride_def align_up_def mult.assoc)
  then have "unat (i * slot_stride cap) mod 64 = 0" by (simp only: unat_mult_64)
  then show ?thesis
    unfolding payload_base_def slot_base_def
    by (intro unat_plus_64) (simp_all add: GLOBAL_HEADER_SIZE_def SLOT_HEADER_SIZE_def)
qed

subsection \<open>Properties\<close>

lemma direct_write_publishes:
  assumes view: "tensor_view_contiguous dt shape data = Inr v" and len: "length data < 2 ^ 64"
    and pub: "publish W cap v policy timeout r = Some (Inr (Some p), q')"
  shows "\<exists>w q. reserve W cap dt shape policy timeout r = Some (Inr (Some w), q) \<and>
    sw_nbytes w = usize_len data \<and> sw_slot w = p_slot_index p \<and>
    (\<exists>w'. writer_commit w (writer_fill w data q) = (p, w', q'))"
proof -
  have v: "length shape \<le> MAX_NDIM" "tensor_bytes dt shape = usize_len data"
      "v = \<lparr>v_dtype = dt, v_ndim = length shape, v_shape = pad_dims shape,
            v_strides = pad_dims (contiguous_strides dt shape), v_data = data, v_timestamp_ns = None\<rparr>"
    using view by (auto simp: tensor_view_contiguous_def tensor_view_new_def split: if_splits)
  have "take (unat (usize_len data)) data = data"
    using len by (simp add: usize_len_def unat_of_nat_small)
  then show ?thesis
    using pub v(1) by (auto simp: publish_def reserve_def v(2,3) reserve_for_copy_def writer_commit_def writer_fill_def
        writer_readers_def Let_def split: option.splits sum.splits if_splits)
qed



subsection \<open>A payload that is not filled\<close>

text \<open>A debug build poisons the payload it reserves.\<close>

definition poison :: "slot_writer \<Rightarrow> ring \<Rightarrow> ring" where
  "poison w r = copy_payload (sw_slot w) (replicate (unat (sw_nbytes w)) 0xA5) r"

definition reserve_build ::
  "bool \<Rightarrow> waits \<Rightarrow> usize \<Rightarrow> dtype \<Rightarrow> u32 list \<Rightarrow> backpressure \<Rightarrow> nat \<Rightarrow> ring \<Rightarrow>
   ((error + slot_writer option) \<times> ring) option" where
  "reserve_build debug_assertions W cap dt shape policy timeout r =
     (case reserve W cap dt shape policy timeout r of
        Some (Inr (Some w), q) \<Rightarrow> Some (Inr (Some w), if debug_assertions then poison w q else q)
      | other \<Rightarrow> other)"

text \<open>
  What a producer does not write is delivered all the same: the bytes the slot held before, whoever
  published them, or the poison.
\<close>

theorem unfilled_commit:
  assumes wf: "wf_ring cap r" and sq: "seqs_within d r" "d < 2 ^ 63 - 1" and free: "lock_free r"
    and dims: "length shape \<le> MAX_NDIM" "tensor_bytes dt shape \<le> cap"
    and some: "\<exists>h\<in>set (slots (swept (w_env W 0) r)). reclaimable h"
    and c: "c_index c < MAX_CONSUMERS" "r_state (registry r ! c_index c) = REGISTRY_ACTIVE"
      "\<not> dead_entry (w_env W 0) (registry r ! c_index c)"
    and idle: "\<forall>h\<in>set (slots r). \<not> eligible c h" and new: "seq_newer (g_next_seq r) (c_last_sequence c)"
  shows "\<exists>w q p w' q1 m c' q2.
    reserve_build debug W cap dt shape policy timeout r = Some (Inr (Some w), q) \<and>
    writer_commit w q = (p, w', q1) \<and> next_raw W' cap c timeout' q1 = Some (Inr m, c', q2) \<and>
    m_sequence m = p_sequence p \<and>
    lease_data m q2 = (if debug then replicate (unat (tensor_bytes dt shape)) 0xA5
      else take (unat (tensor_bytes dt shape)) (payloads r ! m_slot_index m))"
proof -
  let ?n = "unat (tensor_bytes dt shape)"
  obtain s where pick: "pick_slot (swept (w_env W 0) r) = Some s"
    using pick_slot_exists [OF sq(1) _ some] sq(2) by auto
  then have s: "s < length (slots r)" "s < length (payloads r)"
    using pick_slot_reclaimable [OF pick] wf_ringD(4) [OF wf] by simp_all
  have cap: "?n \<le> length (payloads r ! s)"
    using wf_ringD(5) [OF wf s(1)] dims(2) by (simp add: word_le_nat_alt)
  define D where "D = (if debug then replicate ?n 0xA5 else take ?n (payloads r ! s))"
  have D: "length D = ?n" "usize_len D = tensor_bytes dt shape" "length D < 2 ^ 64"
    using cap unat_u64_less [of "tensor_bytes dt shape"] by (auto simp: D_def usize_len_def)
  obtain v where v: "tensor_view_contiguous dt shape D = Inr v" "v_data v = D"
    using dims(1) D(2) by (simp add: tensor_view_contiguous_def tensor_view_new_def length_contiguous_strides)
  have ok: "view_ok v" "usize_len (v_data v) \<le> cap"
    using tensor_view_new_ok v(1) D dims(2) by (auto simp: tensor_view_contiguous_def v(2))
  obtain p q1 m c' q2 where pub: "publish W cap v policy timeout r = Some (Inr (Some p), q1)"
    and take: "next_raw W' cap c timeout' q1 = Some (Inr m, c', q2)" "m_sequence m = p_sequence p"
      "m_slot_index m = p_slot_index p" "lease_data m q2 = D"
    using published_arrives [OF wf sq free ok some c idle new, of policy timeout W' timeout'] unfolding v(2) by blast
  obtain w q w' where w: "reserve W cap dt shape policy timeout r = Some (Inr (Some w), q)"
      "sw_nbytes w = tensor_bytes dt shape" "sw_slot w = p_slot_index p" "writer_commit w (writer_fill w D q) = (p, w', q1)"
    using direct_write_publishes [OF v(1) D(3) pub] unfolding D(2) by blast
  have slot: "p_slot_index p = s" using publish_take [OF wf free ok pick, of policy timeout] pub by auto
  have "\<not> cap < tensor_bytes dt shape" using dims(2) by simp
  then have q: "payloads q = payloads r"
    using w(1) reserve_loop_take [OF wf free _ _ pick, of "pad_dims shape" "pad_dims (contiguous_strides dt shape)"
        dt "length shape" "tensor_bytes dt shape" None policy "w_start W + timeout"] dims(1)
    by (auto simp: reserve_def Let_def length_pad_dims length_contiguous_strides reserved_ring_def)
  have "writer_fill w D q = (if debug then poison w q else q)"
    using D(1) s by (auto simp: writer_fill_def poison_def w(2,3) slot D_def copy_payload_def q)
  then show ?thesis
    using w take slot by (auto simp: reserve_build_def D_def)
qed

end
