(* ===== verification/Lifecycle.thy ===== *)
theory Lifecycle
  imports Consumer
begin

text \<open>
  What the definitions of \<^verbatim>\<open>RingState\<close> promise: ring names, contiguous views and their byte counts,
  attaching to a created ring; and where the 64-bit arithmetic of sizes wraps.
\<close>

subsection \<open>Names and views\<close>

lemma shape_elements_foldr: "shape_elements shape = foldr (\<lambda>d acc. acc * ucast d) shape 1"
proof -
  have "fold (\<lambda>d acc. acc * ucast d) shape a = a * foldr (\<lambda>d acc. acc * ucast d) shape (1 :: u64)" for a :: u64
    by (induction shape arbitrary: a) (simp_all add: ac_simps)
  then show ?thesis by (simp add: shape_elements_def)
qed

lemma shape_elements_Cons: "shape_elements (d # ds) = shape_elements ds * ucast d"
  by (simp add: shape_elements_foldr)

lemma contiguous_fold:
  "foldr (\<lambda>d (strides, acc). (ucast acc # strides, acc * ucast d)) shape ([], itemsize dt) =
     (map (\<lambda>i. ucast (tensor_bytes dt (drop (Suc i) shape))) [0..<length shape], tensor_bytes dt shape)"
proof (induction shape)
  case Nil
  show ?case by (simp add: tensor_bytes_def shape_elements_foldr)
next
  case (Cons d ds)
  have strides: "map (\<lambda>i. ucast (tensor_bytes dt (drop (Suc i) (d # ds)))) [0..<length (d # ds)] =
      ucast (tensor_bytes dt ds) # map (\<lambda>i. ucast (tensor_bytes dt (drop (Suc i) ds))) [0..<length ds]"
    by (simp add: upt_conv_Cons map_Suc_upt [symmetric] comp_def del: upt_Suc)
  have "tensor_bytes dt (d # ds) = tensor_bytes dt ds * ucast d"
    by (simp add: tensor_bytes_def shape_elements_Cons ac_simps)
  with Cons show ?case by (simp only: foldr.simps comp_apply prod.case strides)
qed

lemma unat_shape_elements:
  "prod_list (map unat shape) < 2 ^ 64 \<Longrightarrow> 0 \<notin> set shape \<Longrightarrow>
   unat (shape_elements shape) = prod_list (map unat shape)"
proof (induction shape)
  case Nil
  show ?case by (simp add: shape_elements_def)
next
  case (Cons d ds)
  have "0 < unat d" using Cons.prems(2) by (simp add: unat_gt_0)
  then have "prod_list (map unat ds) \<le> prod_list (map unat (d # ds))" by simp
  also have "\<dots> < 2 ^ 64" by (rule Cons.prems(1))
  finally have "unat (shape_elements ds) = prod_list (map unat ds)"
    using Cons.prems(2) by (intro Cons.IH) simp_all
  moreover have "unat (ucast d :: u64) = unat d"
    using unat_u32_less [of d] by (simp add: unsigned_ucast_eq take_bit_nat_eq_self)
  ultimately show ?case
    using Cons.prems(1) by (simp add: shape_elements_Cons unat_word_ariths mult.commute)
qed


lemma clean_char_safe: "is_ascii_alphanumeric (clean_char c) \<or> clean_char c \<in> {95, 46, 45}"
  by (simp add: clean_char_def)

lemma trim_id:
  assumes "\<forall>c\<in>set s. \<not> is_whitespace c"
  shows "trim s = s"
proof -
  have "dropWhile is_whitespace xs = xs" if "\<forall>c\<in>set xs. \<not> is_whitespace c" for xs
    using that by (cases xs) simp_all
  from this [of s] this [of "rev s"] assms show ?thesis by (simp add: trim_def)
qed

text \<open>
  A ring name is refused exactly when trimming leaves nothing of it. Otherwise its safe
  form has between 1 and 64 characters, all of them ASCII letters, digits, \<^verbatim>\<open>_\<close>, \<^verbatim>\<open>.\<close> or \<^verbatim>\<open>-\<close> (so no
  slash and no NUL), and making it safe again does not change it.
\<close>

theorem safe_name_spec:
  "case safe_name name of
     Inl err \<Rightarrow> trim name = [] \<and> err = Invalid ''ring name must contain at least one safe character''
   | Inr n \<Rightarrow> trim name \<noteq> [] \<and> n \<noteq> [] \<and> length n \<le> 64 \<and>
       (\<forall>c\<in>set n. is_ascii_alphanumeric c \<or> c \<in> {95, 46, 45}) \<and> 0 \<notin> set n \<and> 47 \<notin> set n \<and>
       safe_name n = Inr n"
proof (cases "trim name = []")
  case True
  then show ?thesis by (simp add: safe_name_def)
next
  case False
  let ?n = "take 64 (map clean_char (trim name))"
  have safe: "is_ascii_alphanumeric c \<or> c \<in> {95, 46, 45}" if "c \<in> set ?n" for c
  proof -
    have "c \<in> set (map clean_char (trim name))" using that by (rule in_set_takeD)
    then show ?thesis using clean_char_safe by auto
  qed
  then have "\<not> is_whitespace c" "clean_char c = c" "c \<noteq> 0" "c \<noteq> 47" if "c \<in> set ?n" for c
    using that by (fastforce simp: is_whitespace_def is_ascii_alphanumeric_def clean_char_def)+
  then have "trim ?n = ?n" "map clean_char ?n = ?n" "0 \<notin> set ?n" "47 \<notin> set ?n"
    by (auto intro!: trim_id map_idI)
  moreover have "?n \<noteq> []" using False by simp
  moreover have "safe_name name = Inr ?n" using False by (simp add: safe_name_def Let_def)
  ultimately show ?thesis
    using False safe by (simp add: safe_name_def Let_def del: take_map)
qed

theorem safe_name_spec_witness:
  "case safe_name (ascii '' my ring/0 '') of
     Inl err \<Rightarrow> False
   | Inr n \<Rightarrow> length n \<le> 64 \<and> 47 \<notin> set n \<and> safe_name n = Inr n"
proof -
  have "trim (ascii '' my ring/0 '') \<noteq> []"
    by (simp add: trim_def ascii_def is_whitespace_def)
  then show ?thesis
    using safe_name_spec [of "ascii '' my ring/0 ''"] by (auto split: sum.splits)
qed

text \<open>
  A view of contiguous data is accepted exactly when the rank is at most 8 and the wrapped
  64-bit byte count of the shape is the length of the data; its stride of dimension \<open>i\<close> is then the
  byte count of the dimensions after \<open>i\<close>. While no product overflows, that byte count is the true
  number of bytes.
\<close>

theorem contiguous_view_spec:
  "(\<exists>v. tensor_view_contiguous dt shape data = Inr v) = (length shape \<le> MAX_NDIM \<and> tensor_bytes dt shape = usize_len data) \<and>
   (\<forall>v. tensor_view_contiguous dt shape data = Inr v \<longrightarrow>
      v_data v = data \<and> take (v_ndim v) (v_shape v) = shape \<and>
      (\<forall>i<v_ndim v. v_strides v ! i = ucast (tensor_bytes dt (drop (Suc i) shape)))) \<and>
   (unat (itemsize dt) * prod_list (map unat shape) < 2 ^ 64 \<and> 0 \<notin> set shape \<longrightarrow>
      unat (tensor_bytes dt shape) = unat (itemsize dt) * prod_list (map unat shape))"
proof (intro conjI allI impI)
  note len = length_contiguous_strides [of dt shape]
  show "(\<exists>v. tensor_view_contiguous dt shape data = Inr v) = (length shape \<le> MAX_NDIM \<and> tensor_bytes dt shape = usize_len data)"
    by (auto simp: tensor_view_contiguous_def tensor_view_new_def len)
  fix v assume v: "tensor_view_contiguous dt shape data = Inr v"
  then show "v_data v = data" "take (v_ndim v) (v_shape v) = shape"
    by (auto simp: tensor_view_contiguous_def tensor_view_new_def pad_dims_def split: if_splits)
  fix i assume "i < v_ndim v"
  with v show "v_strides v ! i = ucast (tensor_bytes dt (drop (Suc i) shape))"
    by (auto simp: tensor_view_contiguous_def tensor_view_new_def pad_dims_def nth_append len
        contiguous_strides_def contiguous_fold split: if_splits)
next
  assume fits: "unat (itemsize dt) * prod_list (map unat shape) < 2 ^ 64 \<and> 0 \<notin> set shape"
  have "0 < unat (itemsize dt)" by (cases dt) simp_all
  then have "prod_list (map unat shape) \<le> unat (itemsize dt) * prod_list (map unat shape)" by simp
  with fits have "unat (shape_elements shape) = prod_list (map unat shape)"
    by (intro unat_shape_elements) linarith+
  with fits show "unat (tensor_bytes dt shape) = unat (itemsize dt) * prod_list (map unat shape)"
    by (simp add: tensor_bytes_def unat_word_ariths mult.commute)
qed

theorem contiguous_view_spec_witness:
  "(\<exists>v. tensor_view_contiguous F32 [2, 3] (replicate 24 7) = Inr v) \<and> unat (tensor_bytes F32 [2, 3]) = 24"
proof -
  have "tensor_bytes F32 [2, 3] = usize_len (replicate 24 (7 :: u8))"
    by (simp add: tensor_bytes_def shape_elements_def usize_len_def)
  then show ?thesis
    using contiguous_view_spec [of F32 "[2, 3]" "replicate 24 7"] by (simp add: MAX_NDIM_def)
qed

text \<open>
  The byte count wraps: a shape of \<open>2^64\<close> elements is accepted with no data at all.
\<close>

theorem wrapped_shape_accepted:
  "\<exists>v. tensor_view_contiguous F32 [2147483648, 2147483648, 4] [] = Inr v \<and>
     meta_shape (meta_of 0 (reserved_header e r (v_dtype v) (v_ndim v) (v_shape v) (v_strides v) (usize_len (v_data v)) ts h) F32) =
       [2147483648, 2147483648, 4]"
  by (simp add: tensor_view_contiguous_def tensor_view_new_def contiguous_strides_def tensor_bytes_def
      shape_elements_def usize_len_def MAX_NDIM_def meta_shape_def meta_of_def reserved_header_def pad_dims_def)

subsection \<open>Attaching\<close>

text \<open>
  Attaching to a ring that \<^verbatim>\<open>create\<close> has just formatted succeeds and learns its geometry: the
  slot count, the capacity and the stride of the creator, if the count fits the 32 bits the header
  has for it and the mapping is as long as the layout says.
\<close>

theorem attach_to_created:
  assumes "ring_layout_new n cap = Inr layout" and "unat n < 2 ^ 32"
    and "i_slot_count h = n" and "i_slot_capacity h = cap" and "total_bytes n cap \<le> len"
  shows "attach_header (format_ring h) len = Inr (n, cap, slot_stride cap)"
proof -
  have "ucast (ucast n :: u32) = n"
    using assms(2) unat_u64_less [of n]
    by (simp add: word_unat_eq_iff unsigned_ucast_eq unsigned_take_bit_eq take_bit_nat_eq_self)
  with assms show ?thesis
    by (auto simp: attach_header_def format_ring_eq zero_ring_def ring_layout_new_def Let_def split: if_splits)
qed

theorem attach_to_created_witness:
  "attach_header (format_ring demo_inner) (total_bytes 2 64) = Inr (2, 64, slot_stride 64)"
  by (rule attach_to_created [of 2 64 "\<lparr>rl_slot_count = 2, rl_slot_capacity = 64\<rparr>"])
    (simp_all add: ring_layout_new_def demo_inner_def)

text \<open>
  The length check of \<^verbatim>\<open>attach\<close> wraps: a header that claims two slots of \<open>2^64 - 128\<close> bytes
  is accepted on a mapping of one page, with a stride of 0, so that both slots lie on top of each
  other and their payloads past the end of the mapping.
\<close>

theorem attach_accepts_wrapped_geometry:
  "attach_header ((format_ring demo_inner)\<lparr>g_slot_capacity := - 128\<rparr>) 4096 = Inr (2, - 128, 0)"
  by (simp add: attach_header_def format_ring_eq zero_ring_def demo_inner_def total_bytes_def slot_stride_def
      align_up_def div_ceil_def SLOT_HEADER_SIZE_def GLOBAL_HEADER_SIZE_def)

end
