(* ===== verification/Delivery.thy ===== *)
theory Delivery
  imports Lifecycle "HOL-Library.Multiset"
begin

text \<open>
  What the ring promises its users, above slots and masks: every registered consumer has a queue of
  tensors, \<^verbatim>\<open>pending\<close>, read off the mapping. A publication appends to the queue of every consumer
  that lives, a take removes its head, and what the other participants do leaves it alone. The
  locale \<^verbatim>\<open>subscription\<close> is the contract of such a queue; the ring's \<^verbatim>\<open>next_raw\<close> provides it.
\<close>

unbundle bit_operations_syntax

subsection \<open>Sorting by a key that tells apart\<close>

lemma sort_key_is:
  assumes "distinct ys" "set ys = set xs" "distinct xs" "inj_on f (set xs)" "sorted (map f ys)"
  shows "sort_key f xs = ys"
proof (rule sort_key_inj_key_eq)
  show "mset xs = mset ys" using assms(1-3) by (simp add: set_eq_iff_mset_eq_distinct)
  show "inj_on f (set xs)" "sorted (map f ys)" by (rule assms)+
qed

lemma insort_key_cong:
  "\<forall>y\<in>insert x (set ys). f y = g y \<Longrightarrow> insort_key f x ys = insort_key g x ys"
  by (induction ys) auto

lemma sort_key_cong: "\<forall>x\<in>set xs. f x = g x \<Longrightarrow> sort_key f xs = sort_key g xs"
  by (induction xs) (auto simp: intro!: insort_key_cong)

lemma distinct_sort_filter: "distinct (sort_key f (filter P [0..<n]))"
  by simp

lemma sort_key_head:
  assumes s: "s < n" "P s" and min: "\<And>i. i < n \<Longrightarrow> P i \<Longrightarrow> i \<noteq> s \<Longrightarrow> f s < f i"
    and inj: "inj_on f {i. i < n \<and> P i}"
  shows "sort_key f (filter P [0..<n]) = s # sort_key f (filter (\<lambda>i. P i \<and> i \<noteq> s) [0..<n])"
proof (rule sort_key_is)
  show "inj_on f (set (filter P [0..<n]))" using inj by (simp add: Collect_conj_eq)
  have "\<forall>i\<in>set (sort_key f (filter (\<lambda>i. P i \<and> i \<noteq> s) [0..<n])). f s \<le> f i"
    using min by (fastforce intro: less_imp_le)
  then show "sorted (map f (s # sort_key f (filter (\<lambda>i. P i \<and> i \<noteq> s) [0..<n])))"
    by simp
qed (use s in auto)

lemma sort_key_last:
  assumes s: "s < n" "P s" and max: "\<And>i. i < n \<Longrightarrow> P i \<Longrightarrow> i \<noteq> s \<Longrightarrow> f i < f s"
    and inj: "inj_on f {i. i < n \<and> P i}"
  shows "sort_key f (filter P [0..<n]) = sort_key f (filter (\<lambda>i. P i \<and> i \<noteq> s) [0..<n]) @ [s]"
proof (rule sort_key_is)
  show "inj_on f (set (filter P [0..<n]))" using inj by (simp add: Collect_conj_eq)
  have "\<forall>i\<in>set (sort_key f (filter (\<lambda>i. P i \<and> i \<noteq> s) [0..<n])). f i \<le> f s"
    using max by (fastforce intro: less_imp_le)
  then show "sorted (map f (sort_key f (filter (\<lambda>i. P i \<and> i \<noteq> s) [0..<n]) @ [s]))"
    by (simp add: sorted_append)
qed (use s in auto)

lemma sort_key_mono:
  assumes "\<And>i j. i < n \<Longrightarrow> j < n \<Longrightarrow> P i \<Longrightarrow> P j \<Longrightarrow> f i \<le> f j \<Longrightarrow> g i \<le> g j"
    and "inj_on g {i. i < n \<and> P i}"
  shows "sort_key g (filter P [0..<n]) = sort_key f (filter P [0..<n])"
proof (rule sort_key_is)
  show "inj_on g (set (filter P [0..<n]))" using assms(2) by (simp add: Collect_conj_eq)
  have "sorted_wrt (\<lambda>i j. f i \<le> f j) (sort_key f (filter P [0..<n]))"
    using sorted_sort_key [of f "filter P [0..<n]"] by (simp add: sorted_map)
  then have "sorted_wrt (\<lambda>i j. g i \<le> g j) (sort_key f (filter P [0..<n]))"
    by (rule sorted_wrt_mono_rel [rotated]) (use assms(1) in auto)
  then show "sorted (map g (sort_key f (filter P [0..<n])))"
    by (simp add: sorted_map)
qed auto

subsection \<open>What waits for a consumer\<close>

text \<open>
  How far a sequence lies after the last one a consumer took, the slots that wait for the consumer
  in that order, and the abstract queue: the sequences and the bytes.
\<close>

definition ahead :: "consumer \<Rightarrow> slot_header \<Rightarrow> nat" where
  "ahead c h = unat (s_sequence h - c_last_sequence c)"

definition pending_slots :: "consumer \<Rightarrow> ring \<Rightarrow> nat list" where
  "pending_slots c r =
     sort_key (\<lambda>i. ahead c (slots r ! i)) (filter (\<lambda>i. eligible c (slots r ! i)) [0..<length (slots r)])"

definition slot_data :: "ring \<Rightarrow> nat \<Rightarrow> u64 \<times> u8 list" where
  "slot_data r i = (s_sequence (slots r ! i), take (unat (s_nbytes (slots r ! i))) (payloads r ! i))"

definition pending :: "consumer \<Rightarrow> ring \<Rightarrow> (u64 \<times> u8 list) list" where
  "pending c r = map (slot_data r) (pending_slots c r)"

text \<open>A consumer that has not fallen behind the counter by \<open>2^63\<close> or more.\<close>

definition keeps_up :: "consumer \<Rightarrow> ring \<Rightarrow> bool" where
  "keeps_up c r \<longleftrightarrow> 0 < age (g_next_seq r) (c_last_sequence c) \<and> age (g_next_seq r) (c_last_sequence c) < 2 ^ 63"

lemma ahead_age:
  assumes "age base (s_sequence h) \<le> age base (c_last_sequence c)"
  shows "ahead c h = age base (c_last_sequence c) - age base (s_sequence h)"
proof -
  have "s_sequence h - c_last_sequence c = (base - c_last_sequence c) - (base - s_sequence h)" by simp
  then show ?thesis using assms by (simp only: ahead_def age_def unat_sub_if') simp
qed

lemma eligible_iff:
  assumes "seqs_ok r" "keeps_up c r" "i < length (slots r)"
  shows "eligible c (slots r ! i) \<longleftrightarrow>
    s_state (slots r ! i) = STATE_COMMITTED \<and> bit (s_readers_mask (slots r ! i)) (c_index c) \<and>
    age (g_next_seq r) (s_sequence (slots r ! i)) < age (g_next_seq r) (c_last_sequence c)"
proof (cases "s_state (slots r ! i) = STATE_COMMITTED")
  case True
  then have "age (g_next_seq r) (s_sequence (slots r ! i)) < 2 ^ 63"
    using seqs_ok_window [OF assms(1,3)] by (simp add: in_use_def)
  then have "seq_newer (s_sequence (slots r ! i)) (c_last_sequence c) \<longleftrightarrow>
      age (g_next_seq r) (s_sequence (slots r ! i)) < age (g_next_seq r) (c_last_sequence c)"
    using assms(2) by (intro seq_newer_age) (simp_all add: keeps_up_def)
  with True show ?thesis by (simp add: eligible_def and_consumer_bit)
qed (simp add: eligible_def)

lemma ahead_less_iff:
  assumes "seqs_ok r" "keeps_up c r" "i < length (slots r)" "j < length (slots r)"
    "eligible c (slots r ! i)" "eligible c (slots r ! j)"
  shows "ahead c (slots r ! i) \<le> ahead c (slots r ! j) \<longleftrightarrow>
    age (g_next_seq r) (s_sequence (slots r ! j)) \<le> age (g_next_seq r) (s_sequence (slots r ! i))"
  using assms eligible_iff [OF assms(1,2)] ahead_age [of "g_next_seq r" _ c] by auto

lemma inj_ahead:
  assumes "seqs_ok r"
  shows "inj_on (\<lambda>i. ahead c (slots r ! i)) {i. i < length (slots r) \<and> eligible c (slots r ! i)}"
proof (rule inj_onI, clarify)
  fix i j assume ij: "i < length (slots r)" "eligible c (slots r ! i)" "j < length (slots r)" "eligible c (slots r ! j)"
    and eq: "ahead c (slots r ! i) = ahead c (slots r ! j)"
  from eq have "s_sequence (slots r ! i) = s_sequence (slots r ! j)"
    by (simp add: ahead_def flip: word_unat_eq_iff)
  with ij show "i = j"
    using seqs_ok_inj [OF assms ij(1,3)] by (simp add: eligible_def in_use_def)
qed

lemma set_pending_slots:
  "set (pending_slots c r) = {i. i < length (slots r) \<and> eligible c (slots r ! i)}"
  by (auto simp: pending_slots_def)

text \<open>Rings in which the same slots wait, in the same order, with the same bytes.\<close>

lemma pending_cong:
  assumes "length (slots q) = length (slots r)"
    and "\<And>i. i < length (slots r) \<Longrightarrow> eligible c (slots q ! i) = eligible c (slots r ! i)"
    and "\<And>i. i < length (slots r) \<Longrightarrow> eligible c (slots r ! i) \<Longrightarrow>
      s_sequence (slots q ! i) = s_sequence (slots r ! i) \<and> s_nbytes (slots q ! i) = s_nbytes (slots r ! i) \<and>
      payloads q ! i = payloads r ! i"
  shows "pending_slots c q = pending_slots c r" "pending c q = pending c r"
proof -
  have "filter (\<lambda>i. eligible c (slots q ! i)) [0..<length (slots q)] =
      filter (\<lambda>i. eligible c (slots r ! i)) [0..<length (slots r)]"
    using assms(1,2) by (intro filter_cong) auto
  moreover have "sort_key (\<lambda>i. ahead c (slots q ! i)) (filter (\<lambda>i. eligible c (slots r ! i)) [0..<length (slots r)]) =
      sort_key (\<lambda>i. ahead c (slots r ! i)) (filter (\<lambda>i. eligible c (slots r ! i)) [0..<length (slots r)])"
    by (rule sort_key_cong) (use assms(3) in \<open>auto simp: ahead_def\<close>)
  ultimately show eq: "pending_slots c q = pending_slots c r" by (simp add: pending_slots_def)
  show "pending c q = pending c r"
    unfolding pending_def eq using assms(3) set_pending_slots [of c r] by (auto simp: slot_data_def)
qed


subsection \<open>Taking is dequeueing\<close>

lemma keeps_up_take:
  assumes "seqs_ok r" "s < length (slots r)" "in_use (slots r ! s)" "g_next_seq q = g_next_seq r"
  shows "keeps_up (c\<lparr>c_last_sequence := s_sequence (slots r ! s)\<rparr>) q"
  using seqs_ok_window [OF assms(1-3)] assms(4) by (simp add: keeps_up_def)

lemma pending_take:
  assumes sq: "seqs_ok r" and up: "keeps_up c r"
    and s: "s < length (slots r)" "eligible c (slots r ! s)"
    and oldest: "\<forall>j<length (slots r). eligible c (slots r ! j) \<longrightarrow>
      j = s \<or> seq_newer (s_sequence (slots r ! j)) (s_sequence (slots r ! s))"
  shows "pending c r = slot_data r s # pending (c\<lparr>c_last_sequence := s_sequence (slots r ! s)\<rparr>) r"
proof -
  let ?c = "c\<lparr>c_last_sequence := s_sequence (slots r ! s)\<rparr>"
  let ?N = "g_next_seq r" and ?n = "length (slots r)"
  let ?age = "\<lambda>i. age ?N (s_sequence (slots r ! i))"
  have use: "in_use (slots r ! s)" using s(2) by (simp add: eligible_def in_use_def)
  have up': "keeps_up ?c r" by (rule keeps_up_take [OF sq s(1) use refl])
  have bit: "consumer_bit ?c = consumer_bit c" by (simp add: consumer_bit_def)
  have rest: "eligible ?c (slots r ! i) \<longleftrightarrow> eligible c (slots r ! i) \<and> i \<noteq> s" if i: "i < ?n" for i
  proof -
    have "eligible c (slots r ! i) \<Longrightarrow> i \<noteq> s \<Longrightarrow> seq_newer (s_sequence (slots r ! i)) (s_sequence (slots r ! s))"
      using oldest i by blast
    then have "eligible c (slots r ! i) \<Longrightarrow> i \<noteq> s \<Longrightarrow> eligible ?c (slots r ! i)"
      by (simp add: eligible_def bit)
    moreover have "eligible ?c (slots r ! i) \<Longrightarrow> ?age i < ?age s"
      using eligible_iff [OF sq up' i] by simp
    moreover have "?age s < age ?N (c_last_sequence c)"
      using eligible_iff [OF sq up s(1)] s(2) by simp
    ultimately show ?thesis
      using eligible_iff [OF sq up i] eligible_iff [OF sq up' i] by auto
  qed
  have lt: "ahead c (slots r ! s) < ahead c (slots r ! i)"
    if i: "i < ?n" "eligible c (slots r ! i)" "i \<noteq> s" for i
  proof -
    have "?age i < ?age s" using eligible_iff [OF sq up' i(1)] rest [OF i(1)] i by simp
    then show ?thesis
      using ahead_less_iff [OF sq up i(1) s(1) i(2) s(2)] by simp
  qed
  have "pending_slots c r = s # sort_key (\<lambda>i. ahead c (slots r ! i))
      (filter (\<lambda>i. eligible c (slots r ! i) \<and> i \<noteq> s) [0..<?n])"
    unfolding pending_slots_def
    by (rule sort_key_head) (use s lt inj_ahead [OF sq, of c] in auto)
  also have "filter (\<lambda>i. eligible c (slots r ! i) \<and> i \<noteq> s) [0..<?n] = filter (\<lambda>i. eligible ?c (slots r ! i)) [0..<?n]"
    using rest by (intro filter_cong) auto
  also have "sort_key (\<lambda>i. ahead c (slots r ! i)) (filter (\<lambda>i. eligible ?c (slots r ! i)) [0..<?n]) =
      sort_key (\<lambda>i. ahead ?c (slots r ! i)) (filter (\<lambda>i. eligible ?c (slots r ! i)) [0..<?n])"
  proof (rule sort_key_mono)
    show "inj_on (\<lambda>i. ahead c (slots r ! i)) {i. i < ?n \<and> eligible ?c (slots r ! i)}"
      by (rule inj_on_subset [OF inj_ahead [OF sq, of c]]) (use rest in auto)
    fix i j assume "i < ?n" "j < ?n" "eligible ?c (slots r ! i)" "eligible ?c (slots r ! j)"
      "ahead ?c (slots r ! i) \<le> ahead ?c (slots r ! j)"
    then show "ahead c (slots r ! i) \<le> ahead c (slots r ! j)"
      using ahead_less_iff [OF sq up'] ahead_less_iff [OF sq up] rest by auto
  qed
  finally show ?thesis by (simp add: pending_def pending_slots_def)
qed

lemma take_meta_ring:
  "slots (snd (take_meta e c m r)) = slots r" "payloads (snd (take_meta e c m r)) = payloads r"
  "g_next_seq (snd (take_meta e c m r)) = g_next_seq r"
  "fst (take_meta e c m r) = c\<lparr>c_last_sequence := m_sequence m\<rparr>" "g_lock (snd (take_meta e c m r)) = g_lock r"
  by (simp_all add: take_meta_def heartbeat_def upd_entry_def)

lemma seqs_ok_cong: "g_next_seq q = g_next_seq r \<Longrightarrow> slots q = slots r \<Longrightarrow> seqs_ok q = seqs_ok r"
  by (simp add: seqs_ok_def seqs_within_def)

lemma wf_take_meta: "wf_ring cap r \<Longrightarrow> wf_ring cap (snd (take_meta e c m r))"
  unfolding take_meta_def snd_conv by (intro wf_heartbeat wf_upd_entry) simp_all


text \<open>The state of one subscription, and what it hands over: a sequence and its bytes.\<close>

definition ready :: "usize \<Rightarrow> consumer \<times> ring \<Rightarrow> bool" where
  "ready cap = (\<lambda>(c, r). wf_ring cap r \<and> seqs_ok r \<and> keeps_up c r)"

definition take_item :: "waits \<Rightarrow> usize \<Rightarrow> consumer \<times> ring \<Rightarrow> ((u64 \<times> u8 list) \<times> consumer \<times> ring) option" where
  "take_item W cap = (\<lambda>(c, r).
     (case next_raw W cap c 0 r of
        Some (Inr m, c', q) \<Rightarrow> Some ((m_sequence m, lease_data m q), c', q)
      | _ \<Rightarrow> None))"

text \<open>A clock that does not run backwards makes a call without a timeout a single attempt.\<close>

lemma take_item_still:
  assumes "w_start W \<le> w_now W 0"
  shows "take_item W cap (c, r) =
    map_option (\<lambda>m. ((m_sequence m, lease_data m r), take_meta (w_env W 0) c m r))
      (try_take cap c (length (slots r)) (\<lambda>_. still r))"
  using assms
  by (cases "try_take cap c (length (slots r)) (\<lambda>_. still r)")
    (simp_all add: take_item_def next_raw_def next_loop.simps take_meta_def heartbeat_def lease_data_def)

fun drain :: "('s \<Rightarrow> ('m \<times> 's) option) \<Rightarrow> nat \<Rightarrow> 's \<Rightarrow> 'm list \<times> 's" where
  "drain get 0 s = ([], s)"
| "drain get (Suc n) s =
     (case get s of None \<Rightarrow> ([], s) | Some (m, t) \<Rightarrow> (case drain get n t of (ms, u) \<Rightarrow> (m # ms, u)))"

locale subscription =
  fixes get :: "'s \<Rightarrow> ('m \<times> 's) option"
    and queue :: "'s \<Rightarrow> 'm list"
    and ok :: "'s \<Rightarrow> bool"
  assumes get_None: "ok s \<Longrightarrow> get s = None \<longleftrightarrow> queue s = []"
    and get_Some: "ok s \<Longrightarrow> get s = Some (m, t) \<Longrightarrow> queue s = m # queue t \<and> ok t"
begin

lemma drain_prefix:
  "ok s \<Longrightarrow> drain get n s = (ms, t) \<Longrightarrow>
   ms = take n (queue s) \<and> queue t = drop n (queue s) \<and> ok t"
proof (induction n arbitrary: s ms t)
  case 0
  then show ?case by simp
next
  case (Suc n)
  show ?case
  proof (cases "get s")
    case None
    with Suc.prems show ?thesis using get_None by simp
  next
    case (Some p)
    obtain m u where p: "p = (m, u)" by force
    with Suc.prems(1) Some have "queue s = m # queue u" "ok u" using get_Some by blast+
    with Suc Some p show ?thesis by (auto split: prod.splits)
  qed
qed

lemma drain_all: "ok s \<Longrightarrow> length (queue s) \<le> n \<Longrightarrow> fst (drain get n s) = queue s"
  using drain_prefix [of s n] by (cases "drain get n s") auto

end

lemma try_take_Some:
  assumes "wf_ring cap r" "seqs_ok r" and m: "try_take cap c (length (slots r)) (\<lambda>_. still r) = Some m"
  shows "m_slot_index m < length (slots r)" "eligible c (slots r ! m_slot_index m)"
    "m = meta_of (m_slot_index m) (slots r ! m_slot_index m) (m_dtype m)"
    "\<forall>j<length (slots r). eligible c (slots r ! j) \<longrightarrow>
       j = m_slot_index m \<or> seq_newer (s_sequence (slots r ! j)) (m_sequence m)"
  using try_take_spec [OF assms(1,2), of c] unfolding m option.case by blast+

lemma try_take_None:
  assumes "wf_ring cap r" "seqs_ok r"
  shows "try_take cap c (length (slots r)) (\<lambda>_. still r) = None \<longleftrightarrow> (\<forall>h\<in>set (slots r). \<not> eligible c h)"
proof (cases "try_take cap c (length (slots r)) (\<lambda>_. still r)")
  case None
  then show ?thesis using try_take_spec [OF assms, of c] by simp
next
  case (Some m)
  from try_take_Some(1,2) [OF assms Some] have "\<exists>h\<in>set (slots r). eligible c h" by (meson nth_mem)
  with Some show ?thesis by simp
qed

lemma take_item_None:
  assumes "w_start W \<le> w_now W 0" "ready cap (c, r)"
  shows "take_item W cap (c, r) = None \<longleftrightarrow> pending c r = []"
proof -
  have wf: "wf_ring cap r" "seqs_ok r" using assms(2) by (simp_all add: ready_def)
  moreover have "pending c r = [] \<longleftrightarrow> (\<forall>h\<in>set (slots r). \<not> eligible c h)"
  proof -
    have "pending c r = [] \<longleftrightarrow> set (pending_slots c r) = {}" by (simp add: pending_def)
    then show ?thesis unfolding set_pending_slots all_set_conv_all_nth by blast
  qed
  ultimately show ?thesis by (simp add: take_item_still [OF assms(1)] try_take_None [OF wf])
qed

lemma take_item_Some:
  assumes clock: "w_start W \<le> w_now W 0" and ready: "ready cap (c, r)" and op: "take_item W cap (c, r) = Some (x, c', q)"
  shows "pending c r = x # pending c' q \<and> ready cap (c', q)"
proof -
  have wf: "wf_ring cap r" "seqs_ok r" "keeps_up c r" using ready by (simp_all add: ready_def)
  obtain m where m: "try_take cap c (length (slots r)) (\<lambda>_. still r) = Some m"
    "x = (m_sequence m, lease_data m r)" "(c', q) = take_meta (w_env W 0) c m r"
    using op by (auto simp: take_item_still [OF clock])
  have c': "c' = c\<lparr>c_last_sequence := m_sequence m\<rparr>" "q = snd (take_meta (w_env W 0) c m r)"
    using m(3) take_meta_ring(4) [of "w_env W 0" c m r] by (metis fst_conv snd_conv)+
  note spec = try_take_Some [OF wf(1,2) m(1)]
  have sel: "m_sequence m = s_sequence (slots r ! m_slot_index m)" "m_nbytes m = s_nbytes (slots r ! m_slot_index m)"
    by (subst spec(3), simp add: meta_of_def)+
  have "pending c r = slot_data r (m_slot_index m) # pending c' r"
    using pending_take [OF wf(2,3) spec(1,2)] spec(4) by (simp add: c' sel(1))
  moreover have "pending c' r = pending c' q"
    by (rule pending_cong(2)) (simp_all add: c'(2) take_meta_ring)
  moreover have "slot_data r (m_slot_index m) = x"
    by (simp add: slot_data_def m(2) lease_data_def sel)
  moreover have "keeps_up c' q"
    unfolding c'(1) sel(1) using wf(2) spec(1,2)
    by (intro keeps_up_take) (simp_all add: c'(2) take_meta_ring eligible_def in_use_def)
  moreover have "wf_ring cap q" unfolding c'(2) using wf(1) by (rule wf_take_meta)
  moreover have "seqs_ok q"
    by (rule seqs_ok_cong [THEN iffD2, OF _ _ wf(2)]) (simp_all add: c'(2) take_meta_ring)
  ultimately show ?thesis by (simp add: ready_def)
qed

interpretation bus: subscription "take_item W cap" "\<lambda>(c, r). pending c r"
  "\<lambda>s. w_start W \<le> w_now W 0 \<and> ready cap s" for W cap
  by unfold_locales (auto simp: take_item_None dest: take_item_Some)

subsection \<open>The other operations\<close>

text \<open>
  What the ring holds in a slot for a consumer: the sequence, the size and the payload of a committed
  slot whose mask names it. The other operations leave this as it is.
\<close>

definition sees :: "nat \<Rightarrow> ring \<Rightarrow> nat \<Rightarrow> (u64 \<times> usize \<times> u8 list) option" where
  "sees i r s =
     (if s_state (slots r ! s) = STATE_COMMITTED \<and> bit (s_readers_mask (slots r ! s)) i
      then Some (s_sequence (slots r ! s), s_nbytes (slots r ! s), payloads r ! s) else None)"

definition same_view :: "nat \<Rightarrow> ring \<Rightarrow> ring \<Rightarrow> bool" where
  "same_view i r q \<longleftrightarrow> length (slots q) = length (slots r) \<and> (\<forall>s<length (slots r). sees i q s = sees i r s)"

lemma eligible_sees:
  "eligible c (slots r ! s) \<longleftrightarrow>
     (\<exists>sq n p. sees (c_index c) r s = Some (sq, n, p) \<and> seq_newer sq (c_last_sequence c))"
  by (auto simp: eligible_def sees_def and_consumer_bit)

lemma sees_Some:
  "sees i r s = Some (sq, n, p) \<longleftrightarrow> s_state (slots r ! s) = STATE_COMMITTED \<and> bit (s_readers_mask (slots r ! s)) i \<and>
     sq = s_sequence (slots r ! s) \<and> n = s_nbytes (slots r ! s) \<and> p = payloads r ! s"
  by (auto simp: sees_def)

lemma pending_same_view:
  assumes "same_view (c_index c) r q"
  shows "pending c q = pending c r"
proof (rule pending_cong(2))
  show "length (slots q) = length (slots r)" using assms by (simp add: same_view_def)
  fix s assume "s < length (slots r)"
  with assms have eq: "sees (c_index c) q s = sees (c_index c) r s" by (simp add: same_view_def)
  show "eligible c (slots q ! s) = eligible c (slots r ! s)" unfolding eligible_sees eq ..
  assume "eligible c (slots r ! s)"
  with eq show "s_sequence (slots q ! s) = s_sequence (slots r ! s) \<and> s_nbytes (slots q ! s) = s_nbytes (slots r ! s) \<and>
      payloads q ! s = payloads r ! s"
    by (auto simp: eligible_def sees_def and_consumer_bit split: if_splits)
qed

lemma same_view_refl: "same_view i r r"
  by (simp add: same_view_def)

lemma same_view_trans: "same_view i r q \<Longrightarrow> same_view i q p \<Longrightarrow> same_view i r p"
  by (simp add: same_view_def)

lemma same_view_cong: "slots q = slots r \<Longrightarrow> payloads q = payloads r \<Longrightarrow> same_view i r q"
  by (simp add: same_view_def sees_def)

text \<open>Rings whose slots are those of \<open>r\<close>, up to what consumer \<open>i\<close> does not see.\<close>

lemma same_view_slots:
  assumes "slots q = slots p" "payloads q = payloads p" "same_view i r p"
  shows "same_view i r q"
  using same_view_trans [OF assms(3) same_view_cong [OF assms(1,2)]] .

lemma same_view_upd_slot:
  assumes "s < length (slots r) \<Longrightarrow> sees i r s = None"
    and "s < length (slots r) \<Longrightarrow> s_state (f (slots r ! s)) \<noteq> STATE_COMMITTED \<or> \<not> bit (s_readers_mask (f (slots r ! s))) i"
  shows "same_view i r (upd_slot s f r)"
proof -
  have "sees i (upd_slot s f r) j = sees i r j" if "j < length (slots r)" for j
    using that assms by (cases "j = s") (auto simp: sees_def)
  then show ?thesis by (simp add: same_view_def)
qed

lemma same_view_swept:
  assumes "i \<notin> set (dead_consumers e r)"
  shows "same_view i r (swept e r)"
proof -
  have "bit (s_readers_mask (clear_readers (dead_consumers e r) h)) i = bit (s_readers_mask h) i" for h
    using assms by (simp add: bit_clear_readers)
  then have "sees i (swept e r) s = sees i r s" if "s < length (slots r)" for s
    using that by (simp add: sees_def) (simp add: swept_slot_def recover_slot_def abandoned_clear_readers abandoned_slot_def)
  then show ?thesis by (simp add: same_view_def)
qed

lemma same_view_clear_reader:
  assumes "i \<noteq> j"
  shows "same_view i r (r\<lparr>slots := map (clear_reader j) (slots r)\<rparr>)" "same_view i r (upd_slot s (clear_reader j) r)"
proof -
  have same: "bit (s_readers_mask (clear_reader j h)) i = bit (s_readers_mask h) i" for h
    using assms by (simp add: bit_clear_reader)
  show "same_view i r (r\<lparr>slots := map (clear_reader j) (slots r)\<rparr>)"
    by (simp add: same_view_def sees_def same)
  have "sees i (upd_slot s (clear_reader j) r) k = sees i r k" if "k < length (slots r)" for k
    using that by (cases "k = s") (simp_all add: sees_def same)
  then show "same_view i r (upd_slot s (clear_reader j) r)" by (simp add: same_view_def)
qed

lemma same_view_take_meta: "same_view i r (snd (take_meta e c m r))"
  by (rule same_view_cong) (rule take_meta_ring)+

lemma reclaimable_unseen: "reclaimable (slots r ! s) \<Longrightarrow> sees i r s = None"
  by (auto simp: reclaimable_def unread_def sees_def)

text \<open>A reservation takes a slot nobody waits for, and what is written into it waits for nobody.\<close>

lemma same_view_reserved_ring:
  assumes alive: "i \<notin> set (dead_consumers e r)" and pick: "pick_slot (swept e r) = Some s"
  shows "same_view i r (reserved_ring e dt ndim shape strides nbytes ts s r)"
proof -
  have s: "s < length (slots (swept e r))" "reclaimable (slots (swept e r) ! s)"
    using pick_slot_reclaimable [OF pick] by blast+
  have "same_view i (swept e r) (upd_slot s (reserved_header e (swept e r) dt ndim shape strides nbytes ts) (swept e r))"
    using reclaimable_unseen [OF s(2)] by (intro same_view_upd_slot) (simp_all add: reserved_header_def)
  then have "same_view i r (upd_slot s (reserved_header e (swept e r) dt ndim shape strides nbytes ts) (swept e r))"
    by (rule same_view_trans [OF same_view_swept [OF alive]])
  then show ?thesis by (rule same_view_slots [rotated 2]) (simp_all add: reserved_ring_def)
qed

lemma same_view_copy_payload:
  assumes "s < length (slots r) \<Longrightarrow> sees i r s = None"
  shows "same_view i r (copy_payload s data r)"
proof -
  have "sees i (copy_payload s data r) j = sees i r j" if "j < length (slots r)" for j
    using that assms by (cases "j = s") (auto simp: sees_def split: if_splits)
  then show ?thesis by (simp add: same_view_def)
qed

lemma same_view_commit_slot:
  assumes "s < length (slots r)" "\<not> bit (s_readers_mask (slots r ! s)) i"
  shows "same_view i r (commit_slot s r)"
  by (rule same_view_slots [OF _ _ same_view_upd_slot [of s r i "\<lambda>h. h\<lparr>s_state := STATE_COMMITTED\<rparr>"]])
    (use assms in \<open>simp_all add: sees_def\<close>)

lemma dead_consumers_not:
  "c_index c < MAX_CONSUMERS \<Longrightarrow> \<not> dead_entry e (registry r ! c_index c) \<Longrightarrow> c_index c \<notin> set (dead_consumers e r)"
  by (simp add: dead_consumers_iff)

text \<open>
  A commit appends to the queue of the consumers in the mask of the slot, when the slot is the
  newest in use and the consumer registered before its sequence was drawn.
\<close>

lemma pending_commit_slot:
  assumes sq: "seqs_ok r" and up: "keeps_up c r" and s: "s < length (slots r)"
    and st: "s_state (slots r ! s) = STATE_WRITING" and new: "g_next_seq r = s_sequence (slots r ! s) + 1"
    and before: "bit (s_readers_mask (slots r ! s)) (c_index c) \<Longrightarrow> 1 < age (g_next_seq r) (c_last_sequence c)"
  shows "pending c (commit_slot s r) = pending c r @
    (if bit (s_readers_mask (slots r ! s)) (c_index c) then [slot_data r s] else [])"
proof (cases "bit (s_readers_mask (slots r ! s)) (c_index c)")
  case False
  with pending_same_view [OF same_view_commit_slot [OF s False]] show ?thesis by simp
next
  case True
  let ?q = "commit_slot s r" and ?n = "length (slots r)" and ?N = "g_next_seq r"
  have len: "length (slots ?q) = ?n" by simp
  have at: "slots ?q ! s = (slots r ! s)\<lparr>s_state := STATE_COMMITTED\<rparr>" using s by simp
  have seqs: "s_sequence (slots ?q ! i) = s_sequence (slots r ! i)" "in_use (slots ?q ! i) = in_use (slots r ! i)"
    if "i < ?n" for i
    using that st by (cases "i = s"; simp add: in_use_def)+
  have sqq: "seqs_ok ?q"
    using sq unfolding seqs_ok_def
  proof (rule seqs_within_slots)
    fix i assume "i < ?n" "in_use (slots ?q ! i)"
    then show "in_use (slots r ! i) \<and> s_sequence (slots ?q ! i) = s_sequence (slots r ! i)" by (simp only: seqs)
  qed simp_all
  have upq: "keeps_up c ?q" using up by (simp add: keeps_up_def)
  have age_s: "age ?N (s_sequence (slots r ! s)) = 1" unfolding new by (rule age_self)
  have el: "eligible c (slots ?q ! s)"
    using eligible_iff [OF sqq upq, of s] s True before [OF True] age_s by simp
  have not_s: "\<not> eligible c (slots r ! s)" using st by (simp add: eligible_def)
  have other: "eligible c (slots ?q ! i) = eligible c (slots r ! i)" if "i \<noteq> s" for i
    using that by simp
  have newest: "ahead c (slots ?q ! i) < ahead c (slots ?q ! s)"
    if i: "i < ?n" "eligible c (slots ?q ! i)" "i \<noteq> s" for i
  proof -
    have use: "in_use (slots ?q ! i)" "in_use (slots ?q ! s)"
      using i(2) el by (simp_all add: eligible_def in_use_def)
    then have "age ?N (s_sequence (slots ?q ! i)) \<noteq> age ?N (s_sequence (slots ?q ! s))"
      using seqs_ok_inj [OF sqq, of i s] i s len by (auto simp: age_inject)
    moreover have "0 < age ?N (s_sequence (slots ?q ! i))"
      using seqs_ok_window [OF sqq, of i] use(1) i(1) len by simp
    ultimately have "\<not> age ?N (s_sequence (slots ?q ! i)) \<le> age ?N (s_sequence (slots ?q ! s))"
      using age_s at by simp
    then show ?thesis
      using ahead_less_iff [OF sqq upq, of s i] i s el len by simp
  qed
  have "pending_slots c ?q = sort_key (\<lambda>i. ahead c (slots ?q ! i))
      (filter (\<lambda>i. eligible c (slots ?q ! i) \<and> i \<noteq> s) [0..<?n]) @ [s]"
    unfolding pending_slots_def len
    by (rule sort_key_last) (use s el newest inj_ahead [OF sqq, of c] len in auto)
  also have "filter (\<lambda>i. eligible c (slots ?q ! i) \<and> i \<noteq> s) [0..<?n] = filter (\<lambda>i. eligible c (slots r ! i)) [0..<?n]"
  proof (intro filter_cong refl)
    fix i show "(eligible c (slots ?q ! i) \<and> i \<noteq> s) = eligible c (slots r ! i)"
      using other [of i] not_s by (cases "i = s") simp_all
  qed
  also have "sort_key (\<lambda>i. ahead c (slots ?q ! i)) (filter (\<lambda>i. eligible c (slots r ! i)) [0..<?n]) = pending_slots c r"
    unfolding pending_slots_def by (rule sort_key_cong) (simp add: ahead_def seqs del: commit_slot_sel)
  finally have "pending c ?q = map (slot_data ?q) (pending_slots c r) @ [slot_data ?q s]"
    by (simp add: pending_def)
  moreover have "slot_data ?q i = slot_data r i" for i
    using s by (cases "i = s") (simp_all add: slot_data_def)
  ultimately show ?thesis using True by (simp add: pending_def cong: map_cong)
qed

text \<open>The ring after a publication in slot \<open>s\<close>.\<close>

definition published_ring :: "env \<Rightarrow> tensor_view \<Rightarrow> nat \<Rightarrow> ring \<Rightarrow> ring" where
  "published_ring e v s r = commit_slot s (copy_payload s (v_data v)
     (reserved_ring e (v_dtype v) (v_ndim v) (v_shape v) (v_strides v) (usize_len (v_data v)) (v_timestamp_ns v) s r))"

lemma bit_active_live:
  assumes "wf_ring cap r" "c_index c < MAX_CONSUMERS" "r_state (registry r ! c_index c) = REGISTRY_ACTIVE"
    "\<not> dead_entry e (registry r ! c_index c)"
  shows "bit (active_mask (swept e r)) (c_index c)"
  unfolding bit_active_swept [OF wf_ringD(1) [OF assms(1)]] using assms(2-)
  by (simp add: bit_active_mask dead_consumers_iff MAX_CONSUMERS_def)

lemma pending_published:
  assumes wf: "wf_ring cap r" and sq: "seqs_within d r" "d < 2 ^ 63 - 1"
    and v: "view_ok v" and pick: "pick_slot (swept e r) = Some s"
    and c: "c_index c < MAX_CONSUMERS" "r_state (registry r ! c_index c) = REGISTRY_ACTIVE"
      "\<not> dead_entry e (registry r ! c_index c)"
    and up: "0 < age (g_next_seq r) (c_last_sequence c)" "age (g_next_seq r) (c_last_sequence c) < 2 ^ 63 - 1"
  shows "pending c (published_ring e v s r) = pending c r @ [(g_next_seq r, v_data v)]"
proof -
  let ?q = "reserved_ring e (v_dtype v) (v_ndim v) (v_shape v) (v_strides v) (usize_len (v_data v)) (v_timestamp_ns v) s r"
  let ?p = "copy_payload s (v_data v) ?q"
  have alive: "c_index c \<notin> set (dead_consumers e r)" using c by (simp add: dead_consumers_not)
  have s: "s < length (slots r)" "s < length (payloads r)"
    using pick_slot_reclaimable [OF pick] wf_ringD(4) [OF wf] by auto
  have "seqs_within (Suc d) ?p"
    using seqs_within_reserved_ring [OF sq(1) _ pick] sq(2)
    by (intro seqs_within_cong [OF seqs_within_reserved_ring [OF sq(1) _ pick]]) simp_all
  then have sqp: "seqs_ok ?p" unfolding seqs_ok_def by (rule seqs_within_mono) (use sq(2) in simp)
  have age: "age (g_next_seq ?p) (c_last_sequence c) = Suc (age (g_next_seq r) (c_last_sequence c))"
    using up(2) by (simp add: age_Suc)
  have w: "s_state (slots ?p ! s) = STATE_WRITING" "s_sequence (slots ?p ! s) = g_next_seq r"
    "s_nbytes (slots ?p ! s) = usize_len (v_data v)" "s_readers_mask (slots ?p ! s) = active_mask (swept e r)"
    using s by (simp_all add: reserved_header_def)
  have act: "bit (s_readers_mask (slots ?p ! s)) (c_index c)"
    unfolding w by (rule bit_active_live [OF wf c])
  have "pending c (commit_slot s ?p) = pending c ?p @
      (if bit (s_readers_mask (slots ?p ! s)) (c_index c) then [slot_data ?p s] else [])"
  proof (rule pending_commit_slot [OF sqp _ _ w(1)])
    show "keeps_up c ?p" using up age by (simp add: keeps_up_def)
    show "1 < age (g_next_seq ?p) (c_last_sequence c)" unfolding age using up(1) by simp
    show "g_next_seq ?p = s_sequence (slots ?p ! s) + 1" unfolding w by simp
  qed (use s in simp)
  also have "\<dots> = pending c ?p @ [slot_data ?p s]" using act by simp
  also have "pending c ?p = pending c ?q"
    by (intro pending_same_view same_view_copy_payload) (use s in \<open>simp add: sees_def reserved_header_def\<close>)
  also have "\<dots> = pending c r" by (intro pending_same_view same_view_reserved_ring alive pick)
  also have "slot_data ?p s = (g_next_seq r, v_data v)"
    unfolding slot_data_def w using s v
    by (simp add: usize_len_def view_ok_def unat_of_nat_small)
  finally show ?thesis by (simp add: published_ring_def)
qed
text \<open>What the other participants do.\<close>

lemma same_view_sweep:
  assumes "length (registry r) = 64" "i \<notin> set (dead_consumers e r)" "sweep e r = Some q"
  shows "same_view i r q"
  by (rule same_view_slots [OF _ _ same_view_swept [OF assms(2)]])
    (use assms in \<open>auto simp: sweep_def unlock_registry_eq reap_dead_eq split: option.splits dest!: lock_registry_SomeD\<close>)

lemma register_slots:
  assumes len: "length (registry r) = 64" and reg: "consumer_register e r = Some (res, q)"
  shows "slots q = slots (swept e r)" "payloads q = payloads r" "g_next_seq q = g_next_seq r" "g_lock q = free_lock"
    "res = Inr c2 \<Longrightarrow> c_index c2 < 64 \<and> r_state (registry (swept e r) ! c_index c2) = REGISTRY_FREE \<and>
       c_last_sequence c2 = g_next_seq r - 1 \<and> \<not> c_closed c2 \<and>
       registry q = (registry (swept e r))[c_index c2 := fresh_entry e (swept e r) (registry (swept e r) ! c_index c2)]"
    "res = Inl err \<Longrightarrow> registry q = registry (swept e r)"
proof -
  obtain l where l: "lock_registry e r = Some (r\<lparr>g_lock := l\<rparr>)"
    using reg by (auto simp: consumer_register_def split: option.splits dest!: lock_registry_SomeD)
  have reap: "reap_dead e (r\<lparr>g_lock := l\<rparr>) = (swept e r)\<lparr>g_lock := l\<rparr>" using len by (simp add: reap_dead_eq)
  have free: "free_entry ((swept e r)\<lparr>g_lock := l\<rparr>) = free_entry (swept e r)" by (simp add: free_entry_def)
  note op = reg [unfolded consumer_register_def l option.case reap Let_def free]
  have len': "length (registry (swept e r)) = 64" using len by (simp add: swept_def)
  show "slots q = slots (swept e r)" "payloads q = payloads r" "g_next_seq q = g_next_seq r" "g_lock q = free_lock"
    using op by (auto simp: unlock_registry_eq register_at_def upd_entry_def Let_def split: option.splits)
  show "c_index c2 < 64 \<and> r_state (registry (swept e r) ! c_index c2) = REGISTRY_FREE \<and>
       c_last_sequence c2 = g_next_seq r - 1 \<and> \<not> c_closed c2 \<and>
       registry q = (registry (swept e r))[c_index c2 := fresh_entry e (swept e r) (registry (swept e r) ! c_index c2)]"
    if "res = Inr c2"
    using op that len'
    by (auto simp: unlock_registry_eq register_at_eq free_entry_Some fresh_entry_def split: option.splits)
  show "registry q = registry (swept e r)" if "res = Inl err"
    using op that by (auto simp: unlock_registry_eq split: option.splits prod.splits)
qed

lemma same_view_register:
  assumes wf: "wf_ring cap r" and reg: "consumer_register e r = Some (res, q)"
  shows "i \<notin> set (dead_consumers e r) \<Longrightarrow> same_view i r q" "res = Inr c2 \<Longrightarrow> pending c2 q = []"
proof -
  note new = register_slots [OF wf_ringD(1) [OF wf] reg]
  have payl: "payloads q = payloads (swept e r)" by (simp add: new)
  show "same_view i r q" if "i \<notin> set (dead_consumers e r)"
    by (rule same_view_slots [OF new(1) payl same_view_swept [OF that]])
  assume "res = Inr c2"
  with new(5) have "\<not> bit (active_mask (swept e r)) (c_index c2)" by (auto simp: bit_active_mask)
  then have no: "\<not> eligible c2 h" if "h \<in> set (slots (swept e r))" for h
    using wf_swept [OF wf, of e] that by (auto simp: wf_ring_def slot_ok_def eligible_def and_consumer_bit)
  have "\<not> (i < length (slots (swept e r)) \<and> eligible c2 (slots (swept e r) ! i))" for i
    using no [OF nth_mem, of i] by blast
  then have "set (pending_slots c2 q) = {}" unfolding set_pending_slots new(1) by blast
  then show "pending c2 q = []" by (simp add: pending_def)
qed

lemma same_view_close:
  assumes "c_index c1 \<noteq> i" "consumer_close e c1 r = Some (c1', q)"
  shows "same_view i r q"
proof -
  have "slots q = slots r \<or> slots q = slots (r\<lparr>slots := map (clear_reader (c_index c1)) (slots r)\<rparr>)" "payloads q = payloads r"
    using assms(2) by (auto simp: consumer_close_eq unlock_registry_eq without_consumer_def split: if_splits option.splits
        dest!: lock_registry_SomeD)
  then show ?thesis
  proof (elim disjE)
    assume "slots q = slots r"
    then show ?thesis using \<open>payloads q = payloads r\<close> by (rule same_view_cong)
  next
    assume "slots q = slots (r\<lparr>slots := map (clear_reader (c_index c1)) (slots r)\<rparr>)"
    then show ?thesis
      by (rule same_view_slots [OF _ _ same_view_clear_reader(1)]) (use assms(1) \<open>payloads q = payloads r\<close> in simp_all)
  qed
qed

lemma release_SomeD:
  assumes "m_slot_index m < length (slots r)" "consumer_release e c1 m r = (Inr (), q)"
  shows "q = released_ring e c1 (m_slot_index m) r" "s_sequence (slots r ! m_slot_index m) = m_sequence m"
  using assms by (auto simp: consumer_release_eq split: if_splits)

lemma same_view_released:
  assumes "c_index c1 \<noteq> i"
  shows "same_view i r (released_ring e c1 s r)"
  by (rule same_view_slots [OF _ _ same_view_clear_reader(2)]) (use assms in auto)

text \<open>The release of a tensor that no longer waits for the consumer that releases it.\<close>

lemma pending_released:
  assumes s: "s < length (slots r)" and old: "\<not> seq_newer (s_sequence (slots r ! s)) (c_last_sequence c)"
  shows "pending c (released_ring e c1 s r) = pending c r"
proof -
  have "\<not> eligible c (slots r ! s)" "\<not> eligible c (clear_reader (c_index c1) (slots r ! s))"
    using old by (simp_all add: eligible_def)
  then show ?thesis by (intro pending_cong(2)) (use s in \<open>auto simp: nth_list_update\<close>)
qed

lemma pending_release:
  assumes s: "m_slot_index m < length (slots r)" and op: "consumer_release e c1 m r = (Inr (), q)"
    and other: "c_index c1 \<noteq> c_index c \<or> \<not> seq_newer (m_sequence m) (c_last_sequence c)"
  shows "pending c q = pending c r"
  unfolding release_SomeD(1) [OF s op]
  using other pending_same_view [OF same_view_released] pending_released [OF s] release_SomeD(2) [OF s op] by metis

subsection \<open>Properties\<close>

text \<open>
  Claim C3. What waits for a consumer is a first-in first-out queue, and taking is its dequeue: any
  number of takes hands over exactly that many tensors, the oldest first, none twice and none left
  out, and leaves the rest of the queue waiting; enough takes hand over all of it. A take is a call
  of \<^verbatim>\<open>next_raw\<close> without a timeout, with its payload.
\<close>

theorem takes_drain_in_order:
  assumes "w_start W \<le> w_now W 0" "ready cap (c, r)"
  shows "fst (drain (take_item W cap) n (c, r)) = take n (pending c r) \<and>
    (case snd (drain (take_item W cap) n (c, r)) of (c', q) \<Rightarrow> pending c' q = drop n (pending c r) \<and> ready cap (c', q)) \<and>
    (length (pending c r) \<le> n \<longrightarrow> fst (drain (take_item W cap) n (c, r)) = pending c r)"
  using bus.drain_prefix [of W cap "(c, r)" n] bus.drain_all [of W cap "(c, r)" n] assms
  by (cases "drain (take_item W cap) n (c, r)") auto

theorem takes_drain_in_order_witness:
  "ready 64 (demo_consumer, pending_ring) \<and>
   fst (drain (take_item (demo_waits 9) 64) 5 (demo_consumer, pending_ring)) =
     take 5 (pending demo_consumer pending_ring)"
proof -
  have "keeps_up demo_consumer pending_ring"
    by (simp add: keeps_up_def age_def demo_consumer_def)
  then have "ready 64 (demo_consumer, pending_ring)"
    by (simp add: ready_def wf_pending_ring seqs_ok_pending_ring)
  with takes_drain_in_order [of "demo_waits 9", OF _ this, of 5] show ?thesis by (simp add: demo_waits_def)
qed



lemma demo_reclaimable:
  "\<exists>h\<in>set (slots (swept (w_env (demo_waits 7) 0) pending_ring)). reclaimable h"
proof -
  have "slots (swept (kill_env 7 [7, 9] 1) pending_ring) ! 1 =
      swept_slot (kill_env 7 [7, 9] 1) pending_ring (slots pending_ring ! 1)"
    by simp
  then have "reclaimable (slots (swept (kill_env 7 [7, 9] 1) pending_ring) ! 1)"
    by (simp add: reclaimable_def slots_pending_ring)
  moreover have "slots (swept (kill_env 7 [7, 9] 1) pending_ring) ! 1 \<in> set (slots (swept (kill_env 7 [7, 9] 1) pending_ring))"
    by (rule nth_mem) simp
  moreover have "w_env (demo_waits 7) 0 = kill_env 7 [7, 9] 1" by (simp add: demo_waits_def)
  ultimately show ?thesis by metis
qed


end
