(* ===== verification/System.thy ===== *)
theory System
  imports Delivery
begin

text \<open>
  Everybody at once: any number of consumers, a producer that publishes or writes directly, and
  sweeps by any process, interleaved operation by operation. \<^verbatim>\<open>sys_step\<close> is the step relation; a
  step that takes the registry lock is atomic because of the lock, the others touch one slot. The
  verdicts on who is alive are true for the participants of the run (\<^verbatim>\<open>truthful\<close>); a call that waits
  is a sequence of attempts, so every step is a single attempt (a timeout of 0). There is one
  producer, with at most one \<^verbatim>\<open>SlotWriter\<close> open at a time (\<^verbatim>\<open>Overtake\<close> shows why). \<^verbatim>\<open>y_count\<close> counts reservations, and a run
  has fewer than \<^verbatim>\<open>2^63 - 3\<close> of them. \<^verbatim>\<open>y_sent\<close> and \<^verbatim>\<open>y_got\<close> record, for each registered consumer, what
  has been published since it registered and what it has taken.
\<close>

unbundle bit_operations_syntax

record sys =
  y_ring :: ring
  y_count :: nat
  y_cons :: "nat \<Rightarrow> consumer option"
  y_leases :: "(nat \<times> tensor_meta \<times> u8 list) set"
  y_writer :: "slot_writer option"
  y_due :: "nat set"
  y_sent :: "nat \<Rightarrow> (u64 \<times> u8 list) list"
  y_got :: "nat \<Rightarrow> (u64 \<times> u8 list) list"

definition truthful :: "env \<Rightarrow> sys \<Rightarrow> bool" where
  "truthful e y \<longleftrightarrow>
     (\<forall>i. y_cons y i \<noteq> None \<longrightarrow> \<not> dead_entry e (registry (y_ring y) ! i)) \<and>
     (\<forall>w. y_writer y = Some w \<longrightarrow> \<not> abandoned_slot e (slots (y_ring y) ! sw_slot w))"

inductive sys_step :: "usize \<Rightarrow> sys \<Rightarrow> sys \<Rightarrow> bool" for cap where
  s_register:
    "truthful e y \<Longrightarrow> consumer_register e (y_ring y) = Some (Inr c, q) \<Longrightarrow>
     sys_step cap y (y\<lparr>y_ring := q, y_cons := (y_cons y)(c_index c := Some c), y_due := y_due y - {c_index c},
       y_sent := (y_sent y)(c_index c := []), y_got := (y_got y)(c_index c := [])\<rparr>)"
| s_refused:
    "truthful e y \<Longrightarrow> consumer_register e (y_ring y) = Some (Inl err, q) \<Longrightarrow>
     sys_step cap y (y\<lparr>y_ring := q\<rparr>)"
| s_take:
    "y_cons y i = Some c \<Longrightarrow> w_start W \<le> w_now W 0 \<Longrightarrow> next_raw W cap c 0 (y_ring y) = Some (Inr m, c', q) \<Longrightarrow>
     sys_step cap y (y\<lparr>y_ring := q, y_cons := (y_cons y)(i := Some c'),
       y_leases := insert (i, m, lease_data m q) (y_leases y),
       y_got := (y_got y)(i := y_got y i @ [(m_sequence m, lease_data m q)])\<rparr>)"
| s_release:
    "(i, m, b) \<in> y_leases y \<Longrightarrow> y_cons y i = Some c \<Longrightarrow> consumer_release e c m (y_ring y) = (res, q) \<Longrightarrow>
     sys_step cap y (y\<lparr>y_ring := q, y_leases := y_leases y - {(i, m, b)}\<rparr>)"
| s_close:
    "y_cons y i = Some c \<Longrightarrow> \<forall>m b. (i, m, b) \<notin> y_leases y \<Longrightarrow> consumer_close e c (y_ring y) = Some (c', q) \<Longrightarrow>
     sys_step cap y (y\<lparr>y_ring := q, y_cons := (y_cons y)(i := None)\<rparr>)"
| s_die:
    "sys_step cap y (y\<lparr>y_cons := (y_cons y)(i := None), y_leases := {l \<in> y_leases y. fst l \<noteq> i}\<rparr>)"
| s_sweep:
    "truthful e y \<Longrightarrow> sweep e (y_ring y) = Some q \<Longrightarrow> sys_step cap y (y\<lparr>y_ring := q\<rparr>)"
| s_publish:
    "y_writer y = None \<Longrightarrow> y_count y < 2 ^ 63 - 3 \<Longrightarrow> truthful (w_env W 0) y \<Longrightarrow> w_start W \<le> w_now W 0 \<Longrightarrow>
     view_ok v \<Longrightarrow> publish W cap v policy 0 (y_ring y) = Some (Inr (Some p), q) \<Longrightarrow>
     sys_step cap y (y\<lparr>y_ring := q, y_count := y_count y + 1,
       y_sent := (\<lambda>i. if y_cons y i = None then y_sent y i else y_sent y i @ [(p_sequence p, v_data v)])\<rparr>)"
| s_not_published:
    "y_writer y = None \<Longrightarrow> truthful (w_env W 0) y \<Longrightarrow> w_start W \<le> w_now W 0 \<Longrightarrow> view_ok v \<Longrightarrow>
     publish W cap v policy 0 (y_ring y) = Some (res, q) \<Longrightarrow> \<forall>p. res \<noteq> Inr (Some p) \<Longrightarrow>
     sys_step cap y (y\<lparr>y_ring := q\<rparr>)"
| s_reserve:
    "y_writer y = None \<Longrightarrow> y_count y < 2 ^ 63 - 3 \<Longrightarrow> truthful (w_env W 0) y \<Longrightarrow> w_start W \<le> w_now W 0 \<Longrightarrow>
     reserve W cap dt shape policy 0 (y_ring y) = Some (Inr (Some w), q) \<Longrightarrow>
     sys_step cap y (y\<lparr>y_ring := q, y_count := y_count y + 1, y_writer := Some w, y_due := dom (y_cons y)\<rparr>)"
| s_not_reserved:
    "y_writer y = None \<Longrightarrow> truthful (w_env W 0) y \<Longrightarrow> w_start W \<le> w_now W 0 \<Longrightarrow>
     reserve W cap dt shape policy 0 (y_ring y) = Some (res, q) \<Longrightarrow> \<forall>w. res \<noteq> Inr (Some w) \<Longrightarrow>
     sys_step cap y (y\<lparr>y_ring := q\<rparr>)"
| s_fill:
    "y_writer y = Some w \<Longrightarrow> sys_step cap y (y\<lparr>y_ring := writer_fill w data (y_ring y)\<rparr>)"
| s_stamp:
    "y_writer y = Some w \<Longrightarrow> sys_step cap y (y\<lparr>y_ring := set_timestamp_ns w ts (y_ring y)\<rparr>)"
| s_commit:
    "y_writer y = Some w \<Longrightarrow> writer_commit w (y_ring y) = (p, w', q) \<Longrightarrow>
     sys_step cap y (y\<lparr>y_ring := q, y_writer := None,
       y_sent := (\<lambda>i. if i \<in> y_due y \<and> y_cons y i \<noteq> None
                      then y_sent y i @ [(p_sequence p, writer_payload w (y_ring y))] else y_sent y i)\<rparr>)"
| s_abort:
    "y_writer y = Some w \<Longrightarrow> dom (y_cons y) \<subseteq> y_due y \<Longrightarrow> writer_abort e w (y_ring y) = Some (w', q) \<Longrightarrow>
     sys_step cap y (y\<lparr>y_ring := q, y_writer := None\<rparr>)"
| s_crash:
    "sys_step cap y (y\<lparr>y_writer := None\<rparr>)"

subsection \<open>The invariant\<close>

definition holder_inv :: "nat \<Rightarrow> ring \<Rightarrow> nat \<Rightarrow> consumer \<Rightarrow> bool" where
  "holder_inv d r i c \<longleftrightarrow>
     c_index c = i \<and> i < MAX_CONSUMERS \<and> \<not> c_closed c \<and> r_state (registry r ! i) = REGISTRY_ACTIVE \<and>
     0 < age (g_next_seq r) (c_last_sequence c) \<and> age (g_next_seq r) (c_last_sequence c) \<le> d + 1"

definition lease_inv :: "ring \<Rightarrow> consumer \<Rightarrow> tensor_meta \<Rightarrow> u8 list \<Rightarrow> bool" where
  "lease_inv r c m b \<longleftrightarrow>
     m_slot_index m < length (slots r) \<and> lease_data m r = b \<and> \<not> seq_newer (m_sequence m) (c_last_sequence c) \<and>
     (\<exists>p. sees (c_index c) r (m_slot_index m) = Some (m_sequence m, m_nbytes m, p))"

definition writer_inv :: "ring \<Rightarrow> slot_writer \<Rightarrow> bool" where
  "writer_inv r w \<longleftrightarrow>
     sw_slot w < length (slots r) \<and> s_state (slots r ! sw_slot w) = STATE_WRITING \<and>
     s_sequence (slots r ! sw_slot w) = sw_sequence w \<and> g_next_seq r = sw_sequence w + 1 \<and>
     s_nbytes (slots r ! sw_slot w) = sw_nbytes w"

definition queues_inv :: "sys \<Rightarrow> bool" where
  "queues_inv y \<longleftrightarrow>
     (\<forall>i c. y_cons y i = Some c \<longrightarrow>
        holder_inv (y_count y) (y_ring y) i c \<and> y_sent y i = y_got y i @ pending c (y_ring y))"

definition leases_inv :: "sys \<Rightarrow> bool" where
  "leases_inv y \<longleftrightarrow>
     (\<forall>i m b. (i, m, b) \<in> y_leases y \<longrightarrow> (\<exists>c. y_cons y i = Some c \<and> lease_inv (y_ring y) c m b)) \<and>
     (\<forall>i m b m' b'. (i, m, b) \<in> y_leases y \<longrightarrow> (i, m', b') \<in> y_leases y \<longrightarrow>
        m_slot_index m = m_slot_index m' \<longrightarrow> m = m' \<and> b = b')"

definition open_inv :: "sys \<Rightarrow> bool" where
  "open_inv y \<longleftrightarrow>
     (\<forall>w. y_writer y = Some w \<longrightarrow> writer_inv (y_ring y) w \<and>
        (\<forall>i c. y_cons y i = Some c \<longrightarrow>
           (bit (s_readers_mask (slots (y_ring y) ! sw_slot w)) i \<longleftrightarrow> i \<in> y_due y) \<and>
           (i \<in> y_due y \<longrightarrow> 1 < age (g_next_seq (y_ring y)) (c_last_sequence c))))"

definition sys_inv :: "usize \<Rightarrow> sys \<Rightarrow> bool" where
  "sys_inv cap y \<longleftrightarrow>
     wf_ring cap (y_ring y) \<and> lock_free (y_ring y) \<and>
     seqs_within (y_count y) (y_ring y) \<and> y_count y < 2 ^ 63 - 2 \<and> queues_inv y \<and> leases_inv y \<and> open_inv y"

lemma sys_inv_cong:
  assumes "sys_inv cap y" "y_ring z = y_ring y" "y_count z = y_count y" "y_cons z = y_cons y"
    "y_leases z = y_leases y" "y_writer z = y_writer y" "y_writer y \<noteq> None \<Longrightarrow> y_due z = y_due y"
    "y_sent z = y_sent y" "y_got z = y_got y"
  shows "sys_inv cap z"
  using assms by (simp add: sys_inv_def queues_inv_def leases_inv_def open_inv_def)

lemma holderD:
  assumes "queues_inv y" "y_cons y i = Some c"
  shows "holder_inv (y_count y) (y_ring y) i c" "y_sent y i = y_got y i @ pending c (y_ring y)" "c_index c = i"
    "i < MAX_CONSUMERS" "r_state (registry (y_ring y) ! i) = REGISTRY_ACTIVE"
  using assms by (simp_all add: queues_inv_def holder_inv_def)

lemma leaseE:
  assumes "leases_inv y" "(i, m, b) \<in> y_leases y"
  obtains c where "y_cons y i = Some c" "lease_inv (y_ring y) c m b"
  using assms unfolding leases_inv_def by blast

lemma leases_uniq:
  assumes "leases_inv y" "(i, m, b) \<in> y_leases y" "(i, m', b') \<in> y_leases y" "m_slot_index m = m_slot_index m'"
  shows "m = m' \<and> b = b'"
  using assms unfolding leases_inv_def by blast

lemma leases_invI:
  assumes "\<And>i m b. (i, m, b) \<in> y_leases y \<Longrightarrow> \<exists>c. y_cons y i = Some c \<and> lease_inv (y_ring y) c m b"
    and "\<And>i m b m' b'. (i, m, b) \<in> y_leases y \<Longrightarrow> (i, m', b') \<in> y_leases y \<Longrightarrow>
      m_slot_index m = m_slot_index m' \<Longrightarrow> m = m' \<and> b = b'"
  shows "leases_inv y"
  using assms unfolding leases_inv_def by blast

lemma openD:
  assumes "open_inv y" "y_writer y = Some w"
  shows "writer_inv (y_ring y) w"
    "y_cons y i = Some c \<Longrightarrow> bit (s_readers_mask (slots (y_ring y) ! sw_slot w)) i \<longleftrightarrow> i \<in> y_due y"
    "y_cons y i = Some c \<Longrightarrow> i \<in> y_due y \<Longrightarrow> 1 < age (g_next_seq (y_ring y)) (c_last_sequence c)"
  using assms unfolding open_inv_def by blast+

subsection \<open>Steps that only move the ring\<close>

text \<open>
  A change of the ring that living consumers and an open writer do not notice.
\<close>

definition quiet :: "usize \<Rightarrow> sys \<Rightarrow> ring \<Rightarrow> bool" where
  "quiet cap y q \<longleftrightarrow>
     wf_ring cap q \<and> lock_free q \<and> g_next_seq q = g_next_seq (y_ring y) \<and> seqs_within (y_count y) q \<and>
     (\<forall>i. y_cons y i \<noteq> None \<longrightarrow> same_view i (y_ring y) q \<and> r_state (registry q ! i) = r_state (registry (y_ring y) ! i)) \<and>
     length (slots q) = length (slots (y_ring y)) \<and>
     (\<forall>w. y_writer y = Some w \<longrightarrow>
        s_state (slots q ! sw_slot w) = s_state (slots (y_ring y) ! sw_slot w) \<and>
        s_sequence (slots q ! sw_slot w) = s_sequence (slots (y_ring y) ! sw_slot w) \<and>
        s_nbytes (slots q ! sw_slot w) = s_nbytes (slots (y_ring y) ! sw_slot w) \<and>
        (\<forall>i. y_cons y i \<noteq> None \<longrightarrow>
           bit (s_readers_mask (slots q ! sw_slot w)) i = bit (s_readers_mask (slots (y_ring y) ! sw_slot w)) i))"

lemma lease_same_view:
  assumes "same_view (c_index c) r q" "lease_inv r c m b"
  shows "lease_inv q c m b"
proof -
  let ?s = "m_slot_index m"
  obtain p where p: "?s < length (slots r)" "sees (c_index c) r ?s = Some (m_sequence m, m_nbytes m, p)"
    using assms(2) by (auto simp: lease_inv_def)
  with assms(1) have q: "?s < length (slots q)" "sees (c_index c) q ?s = Some (m_sequence m, m_nbytes m, p)"
    by (simp_all add: same_view_def)
  have "payloads q ! ?s = payloads r ! ?s" using p q by (auto simp: sees_def split: if_splits)
  with q assms(2) show ?thesis by (simp add: lease_inv_def lease_data_def)
qed

lemma quiet_queues:
  assumes inv: "queues_inv y" and q: "quiet cap y q"
  shows "queues_inv (y\<lparr>y_ring := q\<rparr>)"
  unfolding queues_inv_def
proof (intro allI impI)
  fix i c assume "y_cons (y\<lparr>y_ring := q\<rparr>) i = Some c"
  then have c: "y_cons y i = Some c" by simp
  note h = holderD [OF inv c]
  have "same_view i (y_ring y) q" "r_state (registry q ! i) = r_state (registry (y_ring y) ! i)"
    using q c by (simp_all add: quiet_def)
  then show "holder_inv (y_count (y\<lparr>y_ring := q\<rparr>)) (y_ring (y\<lparr>y_ring := q\<rparr>)) i c \<and>
      y_sent (y\<lparr>y_ring := q\<rparr>) i = y_got (y\<lparr>y_ring := q\<rparr>) i @ pending c (y_ring (y\<lparr>y_ring := q\<rparr>))"
    using h pending_same_view [of c "y_ring y" q] q by (simp add: holder_inv_def quiet_def)
qed

lemma quiet_leases:
  assumes inv: "queues_inv y" "leases_inv y" and q: "quiet cap y q"
  shows "leases_inv (y\<lparr>y_ring := q\<rparr>)"
proof -
  have "\<exists>c. y_cons y i = Some c \<and> lease_inv q c m b" if l: "(i, m, b) \<in> y_leases y" for i m b
  proof -
    obtain c where c: "y_cons y i = Some c" "lease_inv (y_ring y) c m b" by (rule leaseE [OF inv(2) l])
    moreover have "same_view (c_index c) (y_ring y) q"
      using q holderD(3) [OF inv(1) c(1)] c(1) by (simp add: quiet_def)
    ultimately show ?thesis using lease_same_view by blast
  qed
  then show ?thesis using inv(2) by (simp add: leases_inv_def)
qed

lemma quiet_open:
  assumes inv: "open_inv y" and q: "quiet cap y q"
  shows "open_inv (y\<lparr>y_ring := q\<rparr>)"
proof -
  have "writer_inv q w \<and> (\<forall>i c. y_cons y i = Some c \<longrightarrow>
      (bit (s_readers_mask (slots q ! sw_slot w)) i \<longleftrightarrow> i \<in> y_due y) \<and>
      (i \<in> y_due y \<longrightarrow> 1 < age (g_next_seq q) (c_last_sequence c)))" if w: "y_writer y = Some w" for w
    using openD [OF inv w] q w by (auto simp: quiet_def writer_inv_def)
  then show ?thesis by (simp add: open_inv_def)
qed

lemma quiet_inv:
  assumes inv: "sys_inv cap y" and q: "quiet cap y q"
  shows "sys_inv cap (y\<lparr>y_ring := q\<rparr>)"
  using inv q quiet_queues [OF _ q] quiet_leases [OF _ _ q] quiet_open [OF _ q]
  by (simp add: sys_inv_def quiet_def)

lemma live_not_dead:
  assumes "truthful e y" "y_cons y i \<noteq> None"
  shows "i \<notin> set (dead_consumers e (y_ring y))"
  using assms by (simp add: truthful_def dead_consumers_iff)

lemma swept_entry_live:
  assumes "wf_ring cap r" "i \<notin> set (dead_consumers e r)" "i < 64"
  shows "registry (swept e r) ! i = registry r ! i"
  using assms by (simp add: swept_def dead_consumers_iff reclaim_entry_def wf_ringD(1))

lemma live_state:
  assumes "sys_inv cap y" "truthful e y" "y_cons y i \<noteq> None"
  shows "r_state (registry (swept e (y_ring y)) ! i) = REGISTRY_ACTIVE" "r_state (registry (y_ring y) ! i) = REGISTRY_ACTIVE"
proof -
  obtain c where c: "y_cons y i = Some c" using assms(3) by blast
  have inv: "queues_inv y" "wf_ring cap (y_ring y)" using assms(1) by (simp_all add: sys_inv_def)
  show "r_state (registry (y_ring y) ! i) = REGISTRY_ACTIVE" by (rule holderD(5) [OF inv(1) c])
  then show "r_state (registry (swept e (y_ring y)) ! i) = REGISTRY_ACTIVE"
    using swept_entry_live [OF inv(2) live_not_dead [OF assms(2,3)]] holderD(4) [OF inv(1) c]
    by (simp add: MAX_CONSUMERS_def)
qed

text \<open>A sweep with verdicts that are true, and what differs from it in nothing that matters.\<close>

lemma quiet_swept:
  assumes inv: "sys_inv cap y" and true: "truthful e y"
    and wf: "wf_ring cap q" and q: "slots q = slots (swept e (y_ring y))"
      "payloads q = payloads (y_ring y)" "g_next_seq q = g_next_seq (y_ring y)" "lock_free q"
    and st: "\<And>i. y_cons y i \<noteq> None \<Longrightarrow> r_state (registry q ! i) = REGISTRY_ACTIVE"
  shows "quiet cap y q"
proof -
  let ?r = "y_ring y"
  have r: "seqs_within (y_count y) ?r" "open_inv y" using inv by (simp_all add: sys_inv_def)
  have "seqs_within (y_count y) q"
    by (rule seqs_within_cong [OF seqs_within_swept [OF r(1)]]) (simp_all add: q)
  moreover have "payloads q = payloads (swept e ?r)" by (simp add: q)
  then have "same_view i ?r q" if live: "y_cons y i \<noteq> None" for i
    by (rule same_view_slots [OF q(1) _ same_view_swept [OF live_not_dead [OF true live]]])
  moreover have "slots q ! sw_slot w = clear_readers (dead_consumers e ?r) (slots ?r ! sw_slot w)" if "y_writer y = Some w" for w
    using that true openD(1) [OF r(2) that]
    by (simp add: q(1) truthful_def writer_inv_def swept_slot_def recover_slot_def abandoned_clear_readers)
  ultimately show ?thesis
    using live_not_dead [OF true] q wf st live_state(2) [OF inv true] by (simp add: quiet_def bit_clear_readers)
qed

lemma swept_inv:
  assumes inv: "sys_inv cap y" and true: "truthful e y"
    and q: "registry q = registry (swept e (y_ring y))" "slots q = slots (swept e (y_ring y))"
      "payloads q = payloads (y_ring y)" "g_next_seq q = g_next_seq (y_ring y)"
      "g_consumers q = g_consumers (swept e (y_ring y))" "lock_free q"
  shows "sys_inv cap (y\<lparr>y_ring := q\<rparr>)"
proof (rule quiet_inv [OF inv quiet_swept [OF inv true _ q(2-4,6)]])
  have "payloads q = payloads (swept e (y_ring y))" by (simp add: q)
  from wf_ring_cong [OF q(1,5) this q(2)] show "wf_ring cap q"
    using inv by (simp add: sys_inv_def wf_swept)
  show "r_state (registry q ! i) = REGISTRY_ACTIVE" if "y_cons y i \<noteq> None" for i
    unfolding q(1) by (rule live_state(1) [OF inv true that])
qed

lemma sys_len: "sys_inv cap y \<Longrightarrow> length (registry (y_ring y)) = 64"
  by (auto simp: sys_inv_def dest: wf_ringD(1))

lemma sweep_inv:
  assumes inv: "sys_inv cap y" and "truthful e y" and op: "sweep e (y_ring y) = Some q"
  shows "sys_inv cap (y\<lparr>y_ring := q\<rparr>)"
proof (rule swept_inv [OF inv assms(2)])
  have "q = (swept e (y_ring y))\<lparr>g_lock := free_lock\<rparr>"
    using op sys_len [OF inv]
    by (auto simp: sweep_def unlock_registry_eq reap_dead_eq split: option.splits dest!: lock_registry_SomeD)
  then show "registry q = registry (swept e (y_ring y))" "slots q = slots (swept e (y_ring y))"
      "payloads q = payloads (y_ring y)" "g_next_seq q = g_next_seq (y_ring y)"
      "g_consumers q = g_consumers (swept e (y_ring y))" "lock_free q"
    by simp_all
qed

lemma failed_inv:
  assumes "sys_inv cap y" "truthful e y"
  shows "sys_inv cap (y\<lparr>y_ring := failed_ring e (y_ring y)\<rparr>)"
    "sys_inv cap (y\<lparr>y_ring := (failed_ring e (y_ring y))\<lparr>g_drop_count := n\<rparr>\<rparr>)"
  by (rule swept_inv [OF assms]; simp add: failed_ring_def lock_free_def free_lock_def)+

subsection \<open>Coming and going\<close>

lemma register_quiet:
  assumes inv: "sys_inv cap y" and true: "truthful e y" and op: "consumer_register e (y_ring y) = Some (res, q)"
  shows "quiet cap y q"
proof -
  have wf: "wf_ring cap (y_ring y)" using inv by (simp add: sys_inv_def)
  note reg = register_slots [OF sys_len [OF inv] op]
  show ?thesis
  proof (rule quiet_swept [OF inv true wf_consumer_register [OF wf op] reg(1-3)])
    show "lock_free q" using reg(4) by (simp add: lock_free_def free_lock_def)
    fix i assume live: "y_cons y i \<noteq> None"
    note st = live_state(1) [OF inv true this]
    show "r_state (registry q ! i) = REGISTRY_ACTIVE"
    proof (cases res)
      case (Inl err)
      with reg(6) st show ?thesis by simp
    next
      case (Inr c)
      note new = reg(5) [OF Inr]
      have "c_index c \<noteq> i"
      proof
        assume "c_index c = i"
        with new st show False by (simp add: REGISTRY_ACTIVE_def REGISTRY_FREE_def)
      qed
      with new st show ?thesis by simp
    qed
  qed
qed

lemma add_consumer:
  assumes inv: "sys_inv cap y" and none: "y_cons y i = None"
    and c: "holder_inv (y_count y) (y_ring y) i c" "pending c (y_ring y) = []"
    and mask: "\<And>w. y_writer y = Some w \<Longrightarrow> \<not> bit (s_readers_mask (slots (y_ring y) ! sw_slot w)) i"
  shows "sys_inv cap (y\<lparr>y_cons := (y_cons y)(i := Some c), y_due := y_due y - {i},
    y_sent := (y_sent y)(i := []), y_got := (y_got y)(i := [])\<rparr>)"
proof -
  let ?y = "y\<lparr>y_cons := (y_cons y)(i := Some c), y_due := y_due y - {i}, y_sent := (y_sent y)(i := []), y_got := (y_got y)(i := [])\<rparr>"
  have y: "queues_inv y" "leases_inv y" "open_inv y" using inv by (simp_all add: sys_inv_def)
  have "queues_inv ?y" using y(1) c by (simp add: queues_inv_def)
  moreover have "leases_inv ?y"
    using y(2) none unfolding leases_inv_def by (simp, metis option.distinct(1))
  moreover have "open_inv ?y" using y(3) mask by (auto simp: open_inv_def)
  ultimately show ?thesis using inv by (simp add: sys_inv_def)
qed

lemma register_inv:
  assumes inv: "sys_inv cap y" and true: "truthful e y" and op: "consumer_register e (y_ring y) = Some (Inr c, q)"
  shows "sys_inv cap (y\<lparr>y_ring := q, y_cons := (y_cons y)(c_index c := Some c), y_due := y_due y - {c_index c},
       y_sent := (y_sent y)(c_index c := []), y_got := (y_got y)(c_index c := [])\<rparr>)"
proof -
  let ?i = "c_index c"
  have wf: "wf_ring cap (y_ring y)" using inv by (simp add: sys_inv_def)
  note new = register_slots(5) [OF sys_len [OF inv] op refl] and reg = register_slots(1-3) [OF sys_len [OF inv] op]
  have len: "length (registry (swept e (y_ring y))) = 64" using wf_ringD(1) [OF wf_swept [OF wf]] .
  have none: "y_cons y ?i = None"
  proof (rule ccontr)
    assume "y_cons y ?i \<noteq> None"
    from live_state(1) [OF inv true this] new show False by (simp add: REGISTRY_ACTIVE_def REGISTRY_FREE_def)
  qed
  have y1: "sys_inv cap (y\<lparr>y_ring := q\<rparr>)" by (rule quiet_inv [OF inv register_quiet [OF inv true op]])
  have "\<not> bit (active_mask (swept e (y_ring y))) ?i" using new by (auto simp: bit_active_mask REGISTRY_ACTIVE_def REGISTRY_FREE_def)
  then have mask: "\<not> bit (s_readers_mask (slots q ! s)) ?i" if "s < length (slots q)" for s
    using wf_ringD(6) [OF wf_swept [OF wf, of e], of s] that reg(1) by (auto simp: slot_ok_def)
  have "age (g_next_seq q) (g_next_seq q - 1) = 1" by (simp add: age_def)
  then have "holder_inv (y_count y) q ?i c"
    using new reg(3) len by (simp add: holder_inv_def MAX_CONSUMERS_def fresh_entry_def)
  moreover have "pending c q = []" by (rule same_view_register(2) [OF wf op refl])
  moreover have "\<not> bit (s_readers_mask (slots q ! sw_slot w)) ?i" if "y_writer y = Some w" for w
    using mask openD(1) [of "y\<lparr>y_ring := q\<rparr>" w] y1 that by (simp add: sys_inv_def writer_inv_def)
  ultimately show ?thesis
    using add_consumer [OF y1, of ?i c] none by simp
qed

lemma remove_consumer:
  assumes inv: "sys_inv cap y"
  shows "sys_inv cap (y\<lparr>y_cons := (y_cons y)(i := None), y_leases := {l \<in> y_leases y. fst l \<noteq> i}\<rparr>)"
proof -
  let ?y = "y\<lparr>y_cons := (y_cons y)(i := None), y_leases := {l \<in> y_leases y. fst l \<noteq> i}\<rparr>"
  have y: "queues_inv y" "leases_inv y" "open_inv y" using inv by (simp_all add: sys_inv_def)
  have "queues_inv ?y" "open_inv ?y" using y by (simp_all add: queues_inv_def open_inv_def)
  moreover have "leases_inv ?y" using y(2) unfolding leases_inv_def by auto
  ultimately show ?thesis using inv by (simp add: sys_inv_def)
qed

lemma close_inv:
  assumes inv: "sys_inv cap y" and c: "y_cons y i = Some c" and free: "\<forall>m b. (i, m, b) \<notin> y_leases y"
    and op: "consumer_close e c (y_ring y) = Some (c', q)"
  shows "sys_inv cap (y\<lparr>y_ring := q, y_cons := (y_cons y)(i := None)\<rparr>)"
proof -
  let ?r = "y_ring y"
  let ?y = "y\<lparr>y_cons := (y_cons y)(i := None), y_leases := {l \<in> y_leases y. fst l \<noteq> i}\<rparr>"
  have y: "wf_ring cap ?r" "seqs_within (y_count y) ?r" "queues_inv y" "open_inv y" using inv by (simp_all add: sys_inv_def)
  note h = holderD [OF y(3) c]
  have same: "{l \<in> y_leases y. fst l \<noteq> i} = y_leases y" using free by auto
  have open_c: "\<not> c_closed c" using h(1) by (simp add: holder_inv_def)
  obtain l where "q = unlock_registry (without_consumer i (?r\<lparr>g_lock := l\<rparr>))"
    using op open_c h(3) by (auto simp: consumer_close_eq split: option.splits dest!: lock_registry_SomeD)
  then have q: "slots q = map (clear_reader i) (slots ?r)" "g_next_seq q = g_next_seq ?r" "lock_free q"
      "registry q = (registry ?r)[i := (registry ?r ! i)\<lparr>r_state := REGISTRY_FREE\<rparr>]"
    by (simp_all add: without_consumer_def unlock_registry_eq)
  have wf: "wf_ring cap q" using wf_consumer_close [OF y(1) op] h by (simp add: MAX_CONSUMERS_def)
  have sq: "seqs_within (y_count y) q"
    by (rule seqs_within_slots [OF y(2)]) (simp_all add: q in_use_def)
  have "quiet cap ?y q"
    using wf q sq same_view_close [OF _ op] h(3) openD(1) [OF y(4)]
    by (auto simp: quiet_def bit_clear_reader writer_inv_def)
  from quiet_inv [OF remove_consumer [OF inv] this] have "sys_inv cap (y\<lparr>y_cons := (y_cons y)(i := None), y_ring := q\<rparr>)"
    by (simp add: same)
  moreover have "y\<lparr>y_cons := (y_cons y)(i := None), y_ring := q\<rparr> = y\<lparr>y_ring := q, y_cons := (y_cons y)(i := None)\<rparr>"
    by (rule sys.equality) simp_all
  ultimately show ?thesis by simp
qed

subsection \<open>Taking and releasing\<close>

lemma next_raw_still:
  assumes "w_start W \<le> w_now W 0" "next_raw W cap c 0 r = Some (Inr m, c', q)"
  shows "try_take cap c (length (slots r)) (\<lambda>_. still r) = Some m" "(c', q) = take_meta (w_env W 0) c m r"
    "take_item W cap (c, r) = Some ((m_sequence m, lease_data m q), c', q)"
  using assms
  by (auto simp: next_raw_def next_loop.simps take_item_def split: option.splits if_splits)

lemma lease_older:
  assumes sq: "seqs_ok r" and up: "keeps_up c r" and l: "lease_inv r c m b"
    and s: "s < length (slots r)" "eligible c (slots r ! s)"
  shows "s \<noteq> m_slot_index m" "\<not> seq_newer (m_sequence m) (s_sequence (slots r ! s))"
proof -
  let ?age = "\<lambda>i. age (g_next_seq r) (s_sequence (slots r ! i))"
  have m: "m_slot_index m < length (slots r)" "in_use (slots r ! m_slot_index m)"
      "m_sequence m = s_sequence (slots r ! m_slot_index m)" "\<not> seq_newer (m_sequence m) (c_last_sequence c)"
    using l by (auto simp: lease_inv_def sees_Some in_use_def)
  then have old: "age (g_next_seq r) (c_last_sequence c) \<le> ?age (m_slot_index m)"
    using seqs_ok_window [OF sq m(1,2)] up seq_newer_age [of "g_next_seq r" "m_sequence m" "c_last_sequence c"]
    by (simp add: keeps_up_def)
  have "?age s < age (g_next_seq r) (c_last_sequence c)" using eligible_iff [OF sq up s(1)] s(2) by simp
  with old have lt: "?age s < ?age (m_slot_index m)" by simp
  then show "s \<noteq> m_slot_index m" by auto
  have "in_use (slots r ! s)" using s(2) by (simp add: eligible_def in_use_def)
  then show "\<not> seq_newer (m_sequence m) (s_sequence (slots r ! s))"
    using seqs_ok_window [OF sq m(1,2)] seqs_ok_window [OF sq s(1)] lt m(3)
      seq_newer_age [of "g_next_seq r" "m_sequence m" "s_sequence (slots r ! s)"]
    by simp
qed

lemma sys_seqs_ok: "sys_inv cap y \<Longrightarrow> seqs_ok (y_ring y)"
  unfolding sys_inv_def seqs_ok_def by (elim conjE, erule seqs_within_mono) simp

lemma holder_keeps_up: "sys_inv cap y \<Longrightarrow> y_cons y i = Some c \<Longrightarrow> keeps_up c (y_ring y)"
  by (auto simp: sys_inv_def keeps_up_def holder_inv_def dest!: holderD(1))

lemma take_quiet:
  assumes inv: "sys_inv cap y"
  shows "quiet cap y (snd (take_meta e c m (y_ring y)))"
proof -
  let ?q = "snd (take_meta e c m (y_ring y))"
  have y: "wf_ring cap (y_ring y)" "lock_free (y_ring y)" "seqs_within (y_count y) (y_ring y)"
    using inv by (simp_all add: sys_inv_def)
  have st: "r_state (registry ?q ! i) = r_state (registry (y_ring y) ! i)" for i
    by (cases "c_index c < length (registry (y_ring y))"; cases "c_index c = i")
      (simp_all add: take_meta_def heartbeat_def list_update_beyond)
  have "seqs_within (y_count y) ?q" by (rule seqs_within_cong [OF y(3)]) (simp_all add: take_meta_ring)
  then show ?thesis
    using y wf_take_meta [OF y(1)] same_view_take_meta st
    by (simp add: quiet_def take_meta_ring lock_free_def)
qed

text \<open>A consumer that moves on to the sequence of a tensor it just took.\<close>

lemma advance_consumer:
  assumes inv: "sys_inv cap y" and c: "y_cons y i = Some c"
    and s: "s < length (slots (y_ring y))" "eligible c (slots (y_ring y) ! s)"
    and m: "m_slot_index m = s" "m_sequence m = s_sequence (slots (y_ring y) ! s)"
      "m_nbytes m = s_nbytes (slots (y_ring y) ! s)"
    and c': "c' = c\<lparr>c_last_sequence := m_sequence m\<rparr>"
    and queue: "pending c (y_ring y) = (m_sequence m, lease_data m (y_ring y)) # pending c' (y_ring y)"
  shows "sys_inv cap (y\<lparr>y_cons := (y_cons y)(i := Some c'),
       y_leases := insert (i, m, lease_data m (y_ring y)) (y_leases y),
       y_got := (y_got y)(i := y_got y i @ [(m_sequence m, lease_data m (y_ring y))])\<rparr>)" (is "sys_inv cap ?y")
proof -
  let ?r = "y_ring y"
  have y: "queues_inv y" "leases_inv y" "open_inv y" "seqs_within (y_count y) ?r" using inv by (simp_all add: sys_inv_def)
  note sq = sys_seqs_ok [OF inv] and up = holder_keeps_up [OF inv c] and h = holderD [OF y(1) c]
  have use: "in_use (slots ?r ! s)" using s(2) by (simp add: eligible_def in_use_def)
  have age: "0 < age (g_next_seq ?r) (m_sequence m) \<and> age (g_next_seq ?r) (m_sequence m) \<le> y_count y"
    using y(4) s(1) use by (simp add: seqs_within_def m(2))
  have seen: "sees i ?r s = Some (m_sequence m, m_nbytes m, payloads ?r ! s)"
    using s(2) h(3) by (simp add: sees_Some eligible_def and_consumer_bit m)
  have "queues_inv ?y"
    using y(1) h age queue by (simp add: queues_inv_def holder_inv_def c')
  moreover have "leases_inv ?y"
  proof -
    have new: "lease_inv ?r c' m (lease_data m ?r)"
      using s(1) h(3) seen by (simp add: lease_inv_def m(1) c' seq_newer_def)
    have old: "\<exists>d. y_cons ?y j = Some d \<and> lease_inv ?r d m' b" if l: "(j, m', b) \<in> y_leases y" for j m' b
    proof -
      obtain d where d: "y_cons y j = Some d" "lease_inv ?r d m' b" by (rule leaseE [OF y(2) l])
      show ?thesis
      proof (cases "j = i")
        case True
        with d c lease_older(2) [OF sq up _ s, of m' b] m(2) have "lease_inv ?r c' m' b"
          by (simp add: lease_inv_def c')
        with True show ?thesis by simp
      next
        case False
        with d show ?thesis by simp
      qed
    qed
    have other: "m_slot_index m' \<noteq> s" if l: "(i, m', b) \<in> y_leases y" for m' b
    proof -
      obtain d where "y_cons y i = Some d" "lease_inv ?r d m' b" by (rule leaseE [OF y(2) l])
      with c lease_older(1) [OF sq up _ s, of m' b] show ?thesis by auto
    qed
    have uniq: "m1 = m2 \<and> b1 = b2" if "(j, m1, b1) \<in> y_leases y" "(j, m2, b2) \<in> y_leases y"
      "m_slot_index m1 = m_slot_index m2" for j m1 b1 m2 b2
      using y(2) that unfolding leases_inv_def by blast
    show ?thesis
      unfolding leases_inv_def using new old uniq m(1) by (auto 0 3 dest: other)
  qed
  moreover have "open_inv ?y"
  proof -
    have "1 < age (g_next_seq ?r) (m_sequence m)" if w: "y_writer y = Some w" for w
    proof -
      have wi: "writer_inv ?r w" by (rule openD [OF y(3) w])
      then have "in_use (slots ?r ! sw_slot w)" by (simp add: writer_inv_def in_use_def)
      moreover have "s \<noteq> sw_slot w" using s(2) wi by (auto simp: writer_inv_def eligible_def)
      ultimately have "m_sequence m \<noteq> sw_sequence w"
        using seqs_ok_inj [OF sq s(1) _ use, of "sw_slot w"] wi by (auto simp: writer_inv_def m(2))
      moreover have "age (g_next_seq ?r) (sw_sequence w) = 1"
        using wi age_self by (simp add: writer_inv_def)
      ultimately have "age (g_next_seq ?r) (m_sequence m) \<noteq> 1" by (metis age_inject)
      with age show ?thesis by simp
    qed
    then show ?thesis using y(3) c by (auto simp: open_inv_def c')
  qed
  ultimately show ?thesis using inv by (simp add: sys_inv_def)
qed

lemma take_inv:
  assumes inv: "sys_inv cap y" and c: "y_cons y i = Some c" and clock: "w_start W \<le> w_now W 0"
    and op: "next_raw W cap c 0 (y_ring y) = Some (Inr m, c', q)"
  shows "sys_inv cap (y\<lparr>y_ring := q, y_cons := (y_cons y)(i := Some c'),
       y_leases := insert (i, m, lease_data m q) (y_leases y),
       y_got := (y_got y)(i := y_got y i @ [(m_sequence m, lease_data m q)])\<rparr>)"
proof -
  let ?r = "y_ring y"
  have wf: "wf_ring cap ?r" using inv by (simp add: sys_inv_def)
  note still = next_raw_still [OF clock op] and sq = sys_seqs_ok [OF inv]
  have q: "q = snd (take_meta (w_env W 0) c m ?r)" "c' = c\<lparr>c_last_sequence := m_sequence m\<rparr>"
    using still(2) take_meta_ring(4) by (metis snd_conv, metis fst_conv)
  note sel = take_meta_ring(1-3) [of "w_env W 0" c m ?r, folded q(1)]
  have y1: "sys_inv cap (y\<lparr>y_ring := q\<rparr>)" unfolding q(1) by (rule quiet_inv [OF inv take_quiet [OF inv]])
  note tt = try_take_Some [OF wf sq still(1)]
  have m: "m_sequence m = s_sequence (slots q ! m_slot_index m)" "m_nbytes m = s_nbytes (slots q ! m_slot_index m)"
    by (subst tt(3), simp add: meta_of_def sel(1))+
  have "ready cap (c, ?r)" using wf sq holder_keeps_up [OF inv c] by (simp add: ready_def)
  from take_item_Some [OF clock this still(3)]
  have "pending c ?r = (m_sequence m, lease_data m q) # pending c' q" by simp
  moreover have "pending c q = pending c ?r" using sel by (intro pending_same_view same_view_cong)
  ultimately have "pending c q = (m_sequence m, lease_data m q) # pending c' q" by simp
  then show ?thesis
    using advance_consumer [OF y1, of i c "m_slot_index m" m c'] c tt(1,2) m q(2) by (simp add: sel)
qed

text \<open>A lease that is held can be released, and its release costs nobody else anything.\<close>

lemma lease_held:
  assumes "lease_inv r c m b"
  shows "consumer_release e c m r = (Inr (), released_ring e c (m_slot_index m) r)"
  using assms by (auto simp: lease_inv_def sees_Some consumer_release_eq)

lemma released_states: "r_state (registry (released_ring e c s r) ! i) = r_state (registry r ! i)"
  by (cases "c_index c < length (registry r)"; cases "c_index c = i")
    (simp_all add: released_ring_def heartbeat_def list_update_beyond)

lemma release_inv:
  assumes inv: "sys_inv cap y" and l: "(i, m, b) \<in> y_leases y" and c: "y_cons y i = Some c"
    and op: "consumer_release e c m (y_ring y) = (res, q)"
  shows "sys_inv cap (y\<lparr>y_ring := q, y_leases := y_leases y - {(i, m, b)}\<rparr>)" (is "sys_inv cap ?y")
proof -
  let ?r = "y_ring y" and ?s = "m_slot_index m"
  have y: "wf_ring cap ?r" "lock_free ?r" "seqs_within (y_count y) ?r" "queues_inv y" "leases_inv y" "open_inv y"
    using inv by (simp_all add: sys_inv_def)
  obtain d where "y_cons y i = Some d" "lease_inv ?r d m b" by (rule leaseE [OF y(5) l])
  with c have li: "lease_inv ?r c m b" by simp
  with op have q: "q = released_ring e c ?s ?r" by (simp add: lease_held)
  have s: "?s < length (slots ?r)" "s_sequence (slots ?r ! ?s) = m_sequence m"
      "\<not> seq_newer (m_sequence m) (c_last_sequence c)" "s_state (slots ?r ! ?s) = STATE_COMMITTED"
    using li by (auto simp: lease_inv_def sees_Some)
  note ci = holderD(3) [OF y(4) c]
  have others: "same_view j ?r q" if "j \<noteq> i" for j
    unfolding q by (rule same_view_released) (use that ci in simp)
  have "queues_inv ?y"
    unfolding queues_inv_def
  proof (intro allI impI)
    fix j d assume "y_cons ?y j = Some d"
    then have d: "y_cons y j = Some d" by simp
    note h = holderD [OF y(4) d]
    have "pending d q = pending d ?r"
    proof (cases "j = i")
      case True
      with d c s show ?thesis unfolding q by (intro pending_released) simp_all
    next
      case False
      then show ?thesis using h(3) by (intro pending_same_view others) simp
    qed
    then show "holder_inv (y_count ?y) (y_ring ?y) j d \<and> y_sent ?y j = y_got ?y j @ pending d (y_ring ?y)"
      using h by (simp add: holder_inv_def released_states q)
  qed
  moreover have "leases_inv ?y"
  proof (rule leases_invI)
    fix j m' b' assume "(j, m', b') \<in> y_leases ?y"
    then have l': "(j, m', b') \<in> y_leases y" "(j, m', b') \<noteq> (i, m, b)" by auto
    obtain d where d: "y_cons y j = Some d" "lease_inv ?r d m' b'" by (rule leaseE [OF y(5) l'(1)])
    have "lease_inv q d m' b'"
    proof (cases "j = i")
      case True
      with l' leases_uniq [OF y(5) _ l, of m' b'] have "m_slot_index m' \<noteq> ?s" by blast
      with d(2) show ?thesis by (simp add: lease_inv_def lease_data_def sees_def q split: if_splits)
    next
      case False
      with holderD(3) [OF y(4) d(1)] others show ?thesis by (intro lease_same_view [OF _ d(2)]) simp
    qed
    with d(1) show "\<exists>d. y_cons ?y j = Some d \<and> lease_inv (y_ring ?y) d m' b'" by simp
  next
    have sub: "y_leases ?y \<subseteq> y_leases y" by auto
    fix j m' b' m'' b'' assume l': "(j, m', b') \<in> y_leases ?y" "(j, m'', b'') \<in> y_leases ?y"
      "m_slot_index m' = m_slot_index m''"
    show "m' = m'' \<and> b' = b''" by (rule leases_uniq [OF y(5) subsetD [OF sub l'(1)] subsetD [OF sub l'(2)] l'(3)])
  qed
  moreover have "open_inv ?y"
  proof -
    have "slots q ! sw_slot w = slots ?r ! sw_slot w" if w: "y_writer y = Some w" for w
      using openD(1) [OF y(6) w] s(4) by (cases "sw_slot w = ?s") (auto simp: writer_inv_def q)
    then show ?thesis using y(6) by (auto simp: open_inv_def writer_inv_def q)
  qed
  moreover have "seqs_within (y_count y) q"
  proof (rule seqs_within_slots [OF y(3)])
    fix j assume "j < length (slots ?r)" "in_use (slots q ! j)"
    then show "in_use (slots ?r ! j) \<and> s_sequence (slots q ! j) = s_sequence (slots ?r ! j)"
      using s(1) by (cases "j = ?s") (simp_all add: q in_use_def)
  qed (simp_all add: q)
  ultimately show ?thesis
    using inv wf_released_ring [OF y(1)] by (simp add: sys_inv_def q lock_free_def)
qed

subsection \<open>Publishing\<close>

lemma publish_once:
  assumes wf: "wf_ring cap r" and free: "lock_free r" and v: "view_ok v" and clock: "w_start W \<le> w_now W 0"
  shows "publish W cap v policy 0 r =
    (if cap < usize_len (v_data v) then Some (Inl (size_error (usize_len (v_data v)) cap), r)
     else case pick_slot (swept (w_env W 0) r) of
       None \<Rightarrow> (if policy = DropNewest
          then Some (Inr None, (failed_ring (w_env W 0) r)\<lparr>g_drop_count := g_drop_count r + 1\<rparr>)
          else Some (Inl RingFull, failed_ring (w_env W 0) r))
     | Some s \<Rightarrow> Some (Inr (Some \<lparr>p_sequence = g_next_seq r, p_slot_index = s, p_nbytes = usize_len (v_data v),
                p_readers = of_nat (count_ones (active_mask (swept (w_env W 0) r)))\<rparr>),
            published_ring (w_env W 0) v s r))"
proof (cases "cap < usize_len (v_data v)")
  case True
  then show ?thesis by (simp add: publish_def)
next
  case False
  show ?thesis
  proof (cases "pick_slot (swept (w_env W 0) r)")
    case None
    with False v clock show ?thesis
      by (simp add: publish_def reserve_for_copy_def view_ok_def reserve_loop_full [OF wf free])
  next
    case (Some s)
    with False publish_take [OF wf free v _ Some, of policy 0] show ?thesis
      by (simp add: published_ring_def not_less)
  qed
qed

text \<open>A reservation with true verdicts.\<close>

lemma active_live:
  assumes inv: "sys_inv cap y" and true: "truthful e y" and live: "y_cons y i \<noteq> None"
  shows "bit (active_mask (swept e (y_ring y))) i"
proof -
  have y: "queues_inv y" using inv by (simp add: sys_inv_def)
  obtain c where "y_cons y i = Some c" using live by blast
  then show ?thesis
    using holderD(4) [OF y] live_state(1) [OF inv true live] by (simp add: bit_active_mask MAX_CONSUMERS_def)
qed

lemma reserved_inv:
  fixes e dt ndim shape strides nbytes ts s y
  defines "q \<equiv> reserved_ring e dt ndim shape strides nbytes ts s (y_ring y)"
  assumes inv: "sys_inv cap y" and no: "y_writer y = None" and room: "y_count y < 2 ^ 63 - 3"
    and true: "truthful e y" and pick: "pick_slot (swept e (y_ring y)) = Some s"
    and dims: "length shape = MAX_NDIM" "length strides = MAX_NDIM" "ndim \<le> MAX_NDIM" "nbytes \<le> cap"
    and w: "w = \<lparr>sw_slot = s, sw_sequence = g_next_seq (y_ring y), sw_mask = rm, sw_nbytes = nbytes, sw_committed = False\<rparr>"
  shows "sys_inv cap (y\<lparr>y_ring := q, y_count := y_count y + 1, y_writer := Some w, y_due := dom (y_cons y)\<rparr>)"
    (is "sys_inv cap ?y")
proof -
  let ?r = "y_ring y"
  have y: "wf_ring cap ?r" "lock_free ?r" "seqs_within (y_count y) ?r" "queues_inv y" "leases_inv y"
    using inv by (simp_all add: sys_inv_def)
  have s: "s < length (slots ?r)" using pick_slot_reclaimable [OF pick] by simp
  have view: "same_view i ?r q" if "y_cons y i \<noteq> None" for i
    unfolding q_def by (rule same_view_reserved_ring [OF live_not_dead [OF true that] pick])
  have age: "age (g_next_seq q) (c_last_sequence c) = Suc (age (g_next_seq ?r) (c_last_sequence c))"
    if "y_cons y i = Some c" for i c
    using holderD(1) [OF y(4) that] room by (simp add: holder_inv_def q_def age_Suc)
  have "queues_inv ?y"
    unfolding queues_inv_def
  proof (intro allI impI)
    fix i c assume "y_cons ?y i = Some c"
    then have c: "y_cons y i = Some c" by simp
    note h = holderD [OF y(4) c]
    have "r_state (registry q ! i) = REGISTRY_ACTIVE"
      using live_state(1) [OF inv true, of i] c by (simp add: q_def)
    moreover have "pending c q = pending c ?r"
      using view [of i] c h(3) by (intro pending_same_view) simp
    ultimately show "holder_inv (y_count ?y) (y_ring ?y) i c \<and> y_sent ?y i = y_got ?y i @ pending c (y_ring ?y)"
      using h age [OF c] by (simp add: holder_inv_def)
  qed
  moreover have "leases_inv ?y"
  proof (rule leases_invI)
    fix i m b assume "(i, m, b) \<in> y_leases ?y"
    then have l: "(i, m, b) \<in> y_leases y" by simp
    obtain c where c: "y_cons y i = Some c" "lease_inv ?r c m b" by (rule leaseE [OF y(5) l])
    then have "lease_inv q c m b"
      using view [of i] holderD(3) [OF y(4) c(1)] by (intro lease_same_view [OF _ c(2)]) simp
    with c show "\<exists>c. y_cons ?y i = Some c \<and> lease_inv (y_ring ?y) c m b" by simp
  next
    fix i m b m' b' assume "(i, m, b) \<in> y_leases ?y" "(i, m', b') \<in> y_leases ?y" "m_slot_index m = m_slot_index m'"
    then show "m = m' \<and> b = b'" by (intro leases_uniq [OF y(5), of i]) simp_all
  qed
  moreover have "open_inv ?y"
  proof -
    have "writer_inv q w" using s by (simp add: writer_inv_def w q_def reserved_header_def)
    moreover have "bit (s_readers_mask (slots q ! s)) i" "1 < age (g_next_seq q) (c_last_sequence c)"
      if "y_cons y i = Some c" for i c
      using active_live [OF inv true] holderD(1) [OF y(4) that] that age [OF that] s
      by (simp_all add: q_def reserved_header_def holder_inv_def)
    ultimately show ?thesis by (auto simp: open_inv_def w)
  qed
  moreover have "wf_ring cap q" unfolding q_def by (rule wf_reserved_ring [OF y(1,2) dims pick])
  moreover have "seqs_within (Suc (y_count y)) q"
    unfolding q_def by (rule seqs_within_reserved_ring [OF y(3) _ pick]) (use room in simp)
  moreover have "lock_free q" by (simp add: q_def lock_free_def free_lock_def)
  ultimately show ?thesis using inv room by (simp add: sys_inv_def)
qed

text \<open>An open writer's stores reach nobody.\<close>

lemma writer_unseen:
  assumes "writer_inv r w"
  shows "sees i r (sw_slot w) = None"
  using assms by (simp add: sees_def writer_inv_def)

lemma fill_inv:
  assumes inv: "sys_inv cap y" and w: "y_writer y = Some w"
  shows "sys_inv cap (y\<lparr>y_ring := copy_payload (sw_slot w) data (y_ring y)\<rparr>)"
proof (rule quiet_inv [OF inv])
  let ?r = "y_ring y" and ?q = "copy_payload (sw_slot w) data (y_ring y)"
  have y: "wf_ring cap ?r" "lock_free ?r" "seqs_within (y_count y) ?r" "open_inv y"
    using inv by (simp_all add: sys_inv_def)
  have "same_view i ?r ?q" for i
    by (rule same_view_copy_payload) (rule writer_unseen [OF openD(1) [OF y(4) w]])
  moreover have "seqs_within (y_count y) ?q" by (rule seqs_within_cong [OF y(3)]) simp_all
  ultimately show "quiet cap y ?q"
    using y wf_copy_payload [OF y(1)] by (simp add: quiet_def lock_free_def)
qed

lemma validate_header_timestamp [simp]: "validate_header (h\<lparr>s_timestamp_ns := t\<rparr>) cap = validate_header h cap"
  by (simp add: validate_header_def)

lemma slot_ok_timestamp: "slot_ok am cap h \<Longrightarrow> slot_ok am cap (h\<lparr>s_timestamp_ns := t\<rparr>)"
  by (simp add: slot_ok_def)

lemma stamp_inv:
  assumes inv: "sys_inv cap y" and w: "y_writer y = Some w"
  shows "sys_inv cap (y\<lparr>y_ring := set_timestamp_ns w ts (y_ring y)\<rparr>)"
proof (rule quiet_inv [OF inv])
  let ?r = "y_ring y" and ?q = "set_timestamp_ns w ts (y_ring y)"
  have y: "wf_ring cap ?r" "lock_free ?r" "seqs_within (y_count y) ?r" "open_inv y"
    using inv by (simp_all add: sys_inv_def)
  note wi = openD(1) [OF y(4) w]
  have "same_view i ?r ?q" for i
    unfolding set_timestamp_ns_def
    using writer_unseen [OF wi] wi by (intro same_view_upd_slot) (simp_all add: writer_inv_def)
  moreover have "wf_ring cap ?q"
    unfolding set_timestamp_ns_def
    by (intro wf_upd_slot [OF y(1)] slot_ok_timestamp wf_ringD(6) [OF y(1)])
  moreover have "seqs_within (y_count y) ?q"
  proof (rule seqs_within_slots [OF y(3)])
    fix j assume "j < length (slots ?r)" "in_use (slots ?q ! j)"
    then show "in_use (slots ?r ! j) \<and> s_sequence (slots ?q ! j) = s_sequence (slots ?r ! j)"
      by (cases "j = sw_slot w") (simp_all add: set_timestamp_ns_def in_use_def)
  qed (simp_all add: set_timestamp_ns_def)
  ultimately show "quiet cap y ?q"
    using y wi w by (simp add: quiet_def lock_free_def set_timestamp_ns_def writer_inv_def)
qed

lemma close_writer:
  assumes "sys_inv cap y"
  shows "sys_inv cap (y\<lparr>y_writer := None\<rparr>)"
  using assms by (simp add: sys_inv_def queues_inv_def leases_inv_def open_inv_def)

text \<open>The ring after an open writer's commit.\<close>

lemma commit_view:
  assumes w: "writer_inv r w" and "s \<noteq> sw_slot w"
  shows "sees i (commit_slot (sw_slot w) r) s = sees i r s"
  using assms by (simp add: sees_def)

lemma commit_lease:
  assumes w: "writer_inv r w" and l: "lease_inv r c m b"
  shows "lease_inv (commit_slot (sw_slot w) r) c m b"
proof -
  have "m_slot_index m \<noteq> sw_slot w" using l writer_unseen [OF w] by (auto simp: lease_inv_def)
  with l show ?thesis by (simp add: lease_inv_def lease_data_def commit_view [OF w])
qed

lemma seqs_within_commit:
  assumes "seqs_within d r" "writer_inv r w"
  shows "seqs_within d (commit_slot (sw_slot w) r)"
proof (rule seqs_within_slots [OF assms(1)])
  fix j assume "j < length (slots r)" "in_use (slots (commit_slot (sw_slot w) r) ! j)"
  then show "in_use (slots r ! j) \<and> s_sequence (slots (commit_slot (sw_slot w) r) ! j) = s_sequence (slots r ! j)"
    using assms(2) by (cases "j = sw_slot w") (simp_all add: in_use_def writer_inv_def)
qed simp_all

lemma commit_inv:
  assumes inv: "sys_inv cap y" and w: "y_writer y = Some w"
  shows "sys_inv cap (y\<lparr>y_ring := commit_slot (sw_slot w) (y_ring y), y_writer := None,
       y_sent := (\<lambda>i. if i \<in> y_due y \<and> y_cons y i \<noteq> None
                      then y_sent y i @ [(sw_sequence w, writer_payload w (y_ring y))] else y_sent y i)\<rparr>)"
    (is "sys_inv cap ?y")
proof -
  let ?r = "y_ring y" and ?q = "commit_slot (sw_slot w) (y_ring y)"
  have y: "wf_ring cap ?r" "lock_free ?r" "seqs_within (y_count y) ?r" "queues_inv y" "leases_inv y" "open_inv y"
    using inv by (simp_all add: sys_inv_def)
  note wi = openD(1) [OF y(6) w]
  have s: "sw_slot w < length (slots ?r)" "s_state (slots ?r ! sw_slot w) = STATE_WRITING"
      "g_next_seq ?r = s_sequence (slots ?r ! sw_slot w) + 1"
    using wi by (simp_all add: writer_inv_def)
  have data: "slot_data ?r (sw_slot w) = (sw_sequence w, writer_payload w ?r)"
    using wi by (simp add: slot_data_def writer_inv_def writer_payload_def)
  have "queues_inv ?y"
    unfolding queues_inv_def
  proof (intro allI impI)
    fix i c assume "y_cons ?y i = Some c"
    then have c: "y_cons y i = Some c" by simp
    note h = holderD [OF y(4) c]
    have "pending c ?q = pending c ?r @ (if i \<in> y_due y then [(sw_sequence w, writer_payload w ?r)] else [])"
      using pending_commit_slot [OF sys_seqs_ok [OF inv] holder_keeps_up [OF inv c] s]
        openD(2,3) [OF y(6) w c] by (simp only: h(3) data)
    then show "holder_inv (y_count ?y) (y_ring ?y) i c \<and> y_sent ?y i = y_got ?y i @ pending c (y_ring ?y)"
      using h c by (simp add: holder_inv_def)
  qed
  moreover have "leases_inv ?y"
  proof (rule leases_invI)
    fix i m b assume "(i, m, b) \<in> y_leases ?y"
    then have l: "(i, m, b) \<in> y_leases y" by simp
    obtain c where "y_cons y i = Some c" "lease_inv ?r c m b" by (rule leaseE [OF y(5) l])
    with commit_lease [OF wi] show "\<exists>c. y_cons ?y i = Some c \<and> lease_inv (y_ring ?y) c m b" by auto
  next
    fix i m b m' b' assume "(i, m, b) \<in> y_leases ?y" "(i, m', b') \<in> y_leases ?y" "m_slot_index m = m_slot_index m'"
    then show "m = m' \<and> b = b'" by (intro leases_uniq [OF y(5), of i]) simp_all
  qed
  moreover have "wf_ring cap ?q" by (rule wf_commit_slot [OF y(1) s(1)]) (simp add: s(2))
  ultimately show ?thesis
    using inv seqs_within_commit [OF y(3) wi] y(2) by (simp add: sys_inv_def open_inv_def lock_free_def)
qed

lemma published_inv:
  assumes inv: "sys_inv cap y" and no: "y_writer y = None" and room: "y_count y < 2 ^ 63 - 3"
    and true: "truthful e y" and v: "view_ok v" "usize_len (v_data v) \<le> cap"
    and pick: "pick_slot (swept e (y_ring y)) = Some s"
  shows "sys_inv cap (y\<lparr>y_ring := published_ring e v s (y_ring y), y_count := y_count y + 1,
       y_sent := (\<lambda>i. if y_cons y i = None then y_sent y i else y_sent y i @ [(g_next_seq (y_ring y), v_data v)])\<rparr>)"
    (is "sys_inv cap ?y")
proof -
  let ?r = "y_ring y"
  let ?q = "reserved_ring e (v_dtype v) (v_ndim v) (v_shape v) (v_strides v) (usize_len (v_data v)) (v_timestamp_ns v) s ?r"
  let ?w = "\<lparr>sw_slot = s, sw_sequence = g_next_seq ?r, sw_mask = 0, sw_nbytes = usize_len (v_data v), sw_committed = False\<rparr>"
  have "s < length (payloads ?r)"
    using pick_slot_reclaimable [OF pick] inv wf_ringD(4) [of cap ?r] by (auto simp: sys_inv_def)
  then have payload: "writer_payload ?w (copy_payload s (v_data v) ?q) = v_data v"
    using v(1) by (simp add: writer_payload_def usize_len_def view_ok_def unat_of_nat_small)
  have "sys_inv cap (y\<lparr>y_ring := ?q, y_count := y_count y + 1, y_writer := Some ?w, y_due := dom (y_cons y)\<rparr>)"
    by (rule reserved_inv [OF inv no room true pick, where rm = 0]) (use v in \<open>simp_all add: view_ok_def\<close>)
  from commit_inv [OF fill_inv [OF this], of ?w "v_data v" ?w] show ?thesis
    by (rule sys_inv_cong) (auto simp: no payload published_ring_def)
qed

lemma release_slot_SomeD:
  assumes s: "sw_slot w < length (slots r)" and op: "release_slot e w r = Some q"
  shows "slots q = (slots r)[sw_slot w := (slots r ! sw_slot w)
      \<lparr>s_readers_mask := 0, s_readers_remaining := 0, s_state := STATE_FREE\<rparr>]"
    "payloads q = payloads r" "registry q = registry r" "lock_free q"
    "g_next_seq q = (if g_next_seq r = sw_sequence w + 1 then sw_sequence w else g_next_seq r)"
proof -
  obtain l where "lock_registry e r = Some (r\<lparr>g_lock := l\<rparr>)"
    using op by (auto simp: release_slot_def split: option.splits dest!: lock_registry_SomeD)
  then show "slots q = (slots r)[sw_slot w := (slots r ! sw_slot w)
      \<lparr>s_readers_mask := 0, s_readers_remaining := 0, s_state := STATE_FREE\<rparr>]"
    "payloads q = payloads r" "registry q = registry r" "lock_free q"
    "g_next_seq q = (if g_next_seq r = sw_sequence w + 1 then sw_sequence w else g_next_seq r)"
    using op s by (auto simp: release_slot_def Let_def signal_reclaim_def unlock_registry_eq upd_slot_def lock_free_def free_lock_def)
qed

lemma age_less:
  assumes "0 < age (base + 1) q"
  shows "age base q = age (base + 1) q - 1"
proof -
  have "base + 1 - q \<noteq> 0" using assms by (auto simp: age_def)
  then have "unat ((base + 1 - q) - 1) = unat (base + 1 - q) - 1" by (rule unat_minus_one)
  moreover have "(base + 1 - q) - 1 = base - q" by simp
  ultimately show ?thesis by (simp only: age_def)
qed

lemma abort_inv:
  assumes inv: "sys_inv cap y" and w: "y_writer y = Some w" and due: "dom (y_cons y) \<subseteq> y_due y"
    and op: "release_slot e w (y_ring y) = Some q"
  shows "sys_inv cap (y\<lparr>y_ring := q, y_writer := None\<rparr>)" (is "sys_inv cap ?y")
proof -
  let ?r = "y_ring y"
  have y: "wf_ring cap ?r" "seqs_within (y_count y) ?r" "y_count y < 2 ^ 63 - 2" "queues_inv y" "leases_inv y" "open_inv y"
    using inv by (simp_all add: sys_inv_def)
  note wi = openD(1) [OF y(6) w]
  have s: "sw_slot w < length (slots ?r)" "in_use (slots ?r ! sw_slot w)" "s_sequence (slots ?r ! sw_slot w) = sw_sequence w"
      "g_next_seq ?r = sw_sequence w + 1"
    using wi by (simp_all add: writer_inv_def in_use_def)
  note q = release_slot_SomeD [OF s(1) op]
  have next_q: "g_next_seq q = sw_sequence w" using q(5) s(4) by simp
  have view: "same_view i ?r q" for i
    by (rule same_view_slots [OF _ _ same_view_upd_slot [of "sw_slot w" ?r i
          "\<lambda>h. h\<lparr>s_readers_mask := 0, s_readers_remaining := 0, s_state := STATE_FREE\<rparr>"]])
      (simp_all add: q writer_unseen [OF wi])
  have "queues_inv ?y"
    unfolding queues_inv_def
  proof (intro allI impI)
    fix i c assume "y_cons ?y i = Some c"
    then have c: "y_cons y i = Some c" by simp
    note h = holderD [OF y(4) c]
    have "i \<in> y_due y" using due c by blast
    then have "1 < age (sw_sequence w + 1) (c_last_sequence c)"
      using openD(3) [OF y(6) w c] s(4) by simp
    then have "0 < age (g_next_seq q) (c_last_sequence c) \<and>
        age (g_next_seq q) (c_last_sequence c) \<le> age (g_next_seq ?r) (c_last_sequence c)"
      using age_less [of "sw_sequence w" "c_last_sequence c"] by (simp add: next_q s(4))
    then show "holder_inv (y_count ?y) (y_ring ?y) i c \<and> y_sent ?y i = y_got ?y i @ pending c (y_ring ?y)"
      using h pending_same_view [OF view] by (simp add: holder_inv_def q(3))
  qed
  moreover have "leases_inv ?y"
  proof (rule leases_invI)
    fix i m b assume "(i, m, b) \<in> y_leases ?y"
    then have l: "(i, m, b) \<in> y_leases y" by simp
    obtain c where "y_cons y i = Some c" "lease_inv ?r c m b" by (rule leaseE [OF y(5) l])
    with lease_same_view [OF view] show "\<exists>c. y_cons ?y i = Some c \<and> lease_inv (y_ring ?y) c m b" by auto
  next
    fix i m b m' b' assume "(i, m, b) \<in> y_leases ?y" "(i, m', b') \<in> y_leases ?y" "m_slot_index m = m_slot_index m'"
    then show "m = m' \<and> b = b'" by (intro leases_uniq [OF y(5), of i]) simp_all
  qed
  moreover have "seqs_within (y_count y) q"
    by (rule seqs_within_release [OF y(2) s(1,2)]) (use s q(1) next_q y(3) in \<open>simp_all add: in_use_def\<close>)
  ultimately show ?thesis
    using inv wf_release_slot [OF y(1) op] q(4) by (simp add: sys_inv_def open_inv_def)
qed

subsection \<open>Every step keeps the invariant\<close>

lemma reserve_once:
  assumes wf: "wf_ring cap r" and free: "lock_free r" and clock: "w_start W \<le> w_now W 0"
    and op: "reserve W cap dt shape policy 0 r = Some (res, q)"
  shows "(\<forall>w. res \<noteq> Inr (Some w)) \<and> (q = r \<or> q = failed_ring (w_env W 0) r \<or>
      q = (failed_ring (w_env W 0) r)\<lparr>g_drop_count := g_drop_count r + 1\<rparr>) \<or>
    (\<exists>s. pick_slot (swept (w_env W 0) r) = Some s \<and> length shape \<le> MAX_NDIM \<and> tensor_bytes dt shape \<le> cap \<and>
      res = Inr (Some \<lparr>sw_slot = s, sw_sequence = g_next_seq r, sw_mask = active_mask (swept (w_env W 0) r),
        sw_nbytes = tensor_bytes dt shape, sw_committed = False\<rparr>) \<and>
      q = reserved_ring (w_env W 0) dt (length shape) (pad_dims shape) (pad_dims (contiguous_strides dt shape))
        (tensor_bytes dt shape) None s r)"
proof (cases "length shape \<le> MAX_NDIM \<and> tensor_bytes dt shape \<le> cap")
  case False
  with op show ?thesis by (auto simp: reserve_def Let_def split: if_splits)
next
  case True
  then have fits: "\<not> MAX_NDIM < length shape" "\<not> cap < tensor_bytes dt shape" by (simp_all add: not_less)
  from True have dims: "length (pad_dims shape) = MAX_NDIM" "length (pad_dims (contiguous_strides dt shape)) = MAX_NDIM"
    by (simp_all add: length_pad_dims contiguous_strides_def contiguous_fold)
  show ?thesis
  proof (cases "pick_slot (swept (w_env W 0) r)")
    case None
    with op fits clock reserve_loop_full [OF wf free dims None, of dt "length shape" "tensor_bytes dt shape" None policy]
    show ?thesis by (auto simp: reserve_def Let_def split: if_splits)
  next
    case (Some s)
    from op reserve_loop_take [OF wf free dims Some, of dt "length shape" "tensor_bytes dt shape" None policy]
    show ?thesis by (simp add: reserve_def Let_def fits True Some)
  qed
qed

lemma not_published_inv:
  assumes inv: "sys_inv cap y" and true: "truthful (w_env W 0) y" and clock: "w_start W \<le> w_now W 0"
    and v: "view_ok v" and op: "publish W cap v policy 0 (y_ring y) = Some (res, q)" and no: "\<forall>p. res \<noteq> Inr (Some p)"
  shows "sys_inv cap (y\<lparr>y_ring := q\<rparr>)"
proof -
  have y: "wf_ring cap (y_ring y)" "lock_free (y_ring y)" using inv by (simp_all add: sys_inv_def)
  have "q = y_ring y \<or> q = failed_ring (w_env W 0) (y_ring y) \<or>
      q = (failed_ring (w_env W 0) (y_ring y))\<lparr>g_drop_count := g_drop_count (y_ring y) + 1\<rparr>"
    using op no unfolding publish_once [OF y v clock] by (auto split: if_splits option.splits)
  then show ?thesis using inv failed_inv [OF inv true] by auto
qed

lemma publish_step_inv:
  assumes inv: "sys_inv cap y" and no: "y_writer y = None" and room: "y_count y < 2 ^ 63 - 3"
    and true: "truthful (w_env W 0) y" and clock: "w_start W \<le> w_now W 0"
    and v: "view_ok v" and op: "publish W cap v policy 0 (y_ring y) = Some (Inr (Some p), q)"
  shows "sys_inv cap (y\<lparr>y_ring := q, y_count := y_count y + 1,
       y_sent := (\<lambda>i. if y_cons y i = None then y_sent y i else y_sent y i @ [(p_sequence p, v_data v)])\<rparr>)"
proof -
  have y: "wf_ring cap (y_ring y)" "lock_free (y_ring y)" using inv by (simp_all add: sys_inv_def)
  obtain s where s: "\<not> cap < usize_len (v_data v)" "pick_slot (swept (w_env W 0) (y_ring y)) = Some s"
    "q = published_ring (w_env W 0) v s (y_ring y)" "p_sequence p = g_next_seq (y_ring y)"
    using op unfolding publish_once [OF y v clock] by (auto split: if_splits option.splits)
  show ?thesis unfolding s(3,4) by (rule published_inv [OF inv no room true v _ s(2)]) (use s(1) in \<open>simp add: not_less\<close>)
qed

lemma reserve_step_inv:
  assumes inv: "sys_inv cap y" and no: "y_writer y = None" and room: "y_count y < 2 ^ 63 - 3"
    and true: "truthful (w_env W 0) y" and clock: "w_start W \<le> w_now W 0"
    and op: "reserve W cap dt shape policy 0 (y_ring y) = Some (Inr (Some w), q)"
  shows "sys_inv cap (y\<lparr>y_ring := q, y_count := y_count y + 1, y_writer := Some w, y_due := dom (y_cons y)\<rparr>)"
proof -
  have y: "wf_ring cap (y_ring y)" "lock_free (y_ring y)" using inv by (simp_all add: sys_inv_def)
  obtain s where s: "pick_slot (swept (w_env W 0) (y_ring y)) = Some s" "length shape \<le> MAX_NDIM" "tensor_bytes dt shape \<le> cap"
    "w = \<lparr>sw_slot = s, sw_sequence = g_next_seq (y_ring y), sw_mask = active_mask (swept (w_env W 0) (y_ring y)),
        sw_nbytes = tensor_bytes dt shape, sw_committed = False\<rparr>"
    "q = reserved_ring (w_env W 0) dt (length shape) (pad_dims shape) (pad_dims (contiguous_strides dt shape))
        (tensor_bytes dt shape) None s (y_ring y)"
    using reserve_once [OF y clock op] by auto
  show ?thesis
    unfolding s(5)
    by (rule reserved_inv [OF inv no room true s(1) _ _ s(2,3,4)])
      (use s(2) in \<open>simp_all add: length_pad_dims contiguous_strides_def contiguous_fold\<close>)
qed

lemma not_reserved_inv:
  assumes inv: "sys_inv cap y" and true: "truthful (w_env W 0) y" and clock: "w_start W \<le> w_now W 0"
    and op: "reserve W cap dt shape policy 0 (y_ring y) = Some (res, q)" and no: "\<forall>w. res \<noteq> Inr (Some w)"
  shows "sys_inv cap (y\<lparr>y_ring := q\<rparr>)"
proof -
  have y: "wf_ring cap (y_ring y)" "lock_free (y_ring y)" using inv by (simp_all add: sys_inv_def)
  have "q = y_ring y \<or> q = failed_ring (w_env W 0) (y_ring y) \<or>
      q = (failed_ring (w_env W 0) (y_ring y))\<lparr>g_drop_count := g_drop_count (y_ring y) + 1\<rparr>"
    using reserve_once [OF y clock op] no by auto
  then show ?thesis using inv failed_inv [OF inv true] by auto
qed

lemma sys_step_inv: "sys_step cap y z \<Longrightarrow> sys_inv cap y \<Longrightarrow> sys_inv cap z"
proof (induction rule: sys_step.induct)
  case (s_register e y c q)
  then show ?case by (intro register_inv)
next
  case (s_refused e y err q)
  then show ?case using quiet_inv register_quiet by blast
next
  case (s_take y i c W m c' q)
  then show ?case by (intro take_inv)
next
  case (s_release i m b y c e res q)
  then show ?case by (intro release_inv)
next
  case (s_close y i c e c' q)
  then show ?case by (intro close_inv)
next
  case (s_die y i)
  then show ?case by (intro remove_consumer)
next
  case (s_sweep e y q)
  then show ?case by (intro sweep_inv)
next
  case (s_publish y W v policy p q)
  then show ?case by (intro publish_step_inv)
next
  case (s_not_published y W v policy res q)
  then show ?case by (intro not_published_inv)
next
  case (s_reserve y W dt shape policy w q)
  then show ?case by (intro reserve_step_inv)
next
  case (s_not_reserved y W dt shape policy res q)
  then show ?case by (intro not_reserved_inv)
next
  case (s_fill y w data)
  then show ?case unfolding writer_fill_def by (intro fill_inv)
next
  case (s_stamp y w ts)
  then show ?case by (intro stamp_inv)
next
  case (s_commit y w p w' q)
  then have p: "p_sequence p = sw_sequence w" "q = commit_slot (sw_slot w) (y_ring y)"
    by (auto simp: writer_commit_def)
  show ?case unfolding p by (rule commit_inv [OF s_commit.prems s_commit.hyps(1)])
next
  case (s_abort y w e w' q)
  then show ?case using abort_inv by (auto simp: writer_abort_def)
next
  case (s_crash y)
  then show ?case by (rule close_writer)
qed

text \<open>The system around a ring that has just been created.\<close>

definition sys_start :: "inner \<Rightarrow> sys" where
  "sys_start h = \<lparr>y_ring = format_ring h, y_count = 0, y_cons = (\<lambda>_. None), y_leases = {}, y_writer = None,
     y_due = {}, y_sent = (\<lambda>_. []), y_got = (\<lambda>_. [])\<rparr>"

lemma sys_inv_start:
  assumes "unat (i_slot_capacity h) + 192 \<le> 2 ^ 64"
  shows "sys_inv (i_slot_capacity h) (sys_start h)"
proof -
  have "seqs_within 0 (format_ring h)" by (simp add: seqs_within_def format_ring_eq zero_ring_def in_use_def)
  then show ?thesis
    using wf_format_ring [OF assms]
    by (simp add: sys_inv_def sys_start_def queues_inv_def leases_inv_def open_inv_def)
qed

interpretation bus_system: preserved_by "sys_step cap" "sys_inv cap" for cap
  by unfold_locales (rule sys_step_inv)

lemma reachable_inv:
  assumes "(sys_step (i_slot_capacity h))\<^sup>*\<^sup>* (sys_start h) y" and "unat (i_slot_capacity h) + 192 \<le> 2 ^ 64"
  shows "sys_inv (i_slot_capacity h) y"
  using bus_system.run_from_inv [OF sys_inv_start [OF assms(2)] assms(1)] .

text \<open>A closed run: a consumer registers, a tensor is published, the consumer takes it.\<close>

lemma demo_register:
  "\<exists>c q. consumer_register (kill_env 9 [7, 9] 1) demo_ring = Some (Inr c, q) \<and> c_index c = 0"
proof -
  have "free_entry (swept (kill_env 9 [7, 9] 1) demo_ring) = Some 0"
    by (simp add: free_entry_Some swept_def reclaim_entry_def dead_entry_def zero_entry_def REGISTRY_FREE_def REGISTRY_ACTIVE_def)
  then show ?thesis
    using lock_registry_free [OF wf_demo_ring(2), of "kill_env 9 [7, 9] 1"]
    by (simp add: consumer_register_def reap_dead_eq Let_def free_entry_def register_at_def split: prod.split)
qed

lemma demo_claim:
  "\<exists>n q. producer_claim (kill_env 7 [7, 9] 1) 0 demo_ring = Some (Inr (), n, q) \<and> wf_ring 64 q \<and> lock_free q \<and>
     seqs_within 0 q \<and> (\<exists>s. pick_slot (swept (kill_env 7 [7, 9] 1) q) = Some s)"
proof -
  let ?e = "kill_env 7 [7, 9] 1"
  define q where "q = unlock_registry (demo_ring\<lparr>g_lock := take_lock LOCKED (e_pid ?e) (pid_start_token ?e (e_pid ?e)),
    g_producer_pid := e_pid ?e\<rparr>)"
  have claim: "producer_claim ?e 0 demo_ring = Some (Inr (), 1, q)"
    using lock_registry_free [OF wf_demo_ring(2)] by (simp add: producer_claim_def Let_def q_def)
  have q: "wf_ring 64 q" "lock_free q"
    using wf_demo_ring wf_ring_cong [of q demo_ring 64] by (simp_all add: q_def unlock_registry_eq)
  have "slots (swept ?e q) ! 0 \<in> set (slots (swept ?e q))"
    by (rule nth_mem) (simp add: q_def unlock_registry_eq)
  moreover have "reclaimable (slots (swept ?e q) ! 0)"
    by (simp add: q_def unlock_registry_eq slots_demo_ring reclaimable_def)
  moreover have "seqs_within 0 q = seqs_within 0 demo_ring"
    by (simp add: q_def unlock_registry_eq seqs_within_def)
  ultimately have "seqs_within 0 q" "\<exists>s. pick_slot (swept ?e q) = Some s"
    using seqs_within_demo_ring by (auto intro!: pick_slot_exists)
  with claim q show ?thesis by blast
qed

lemma demo_published:
  "\<exists>y c m c' q. (sys_step 64)\<^sup>*\<^sup>* (sys_start demo_inner) y \<and> sys_inv 64 y \<and> y_cons y 0 = Some c \<and>
     y_writer y = None \<and> y_leases y = {} \<and> y_sent y 0 = [(1, [10, 20, 30])] \<and> y_got y 0 = [] \<and>
     next_raw (demo_waits 9) 64 c 0 (y_ring y) = Some (Inr m, c', q) \<and>
     m_sequence m = 1 \<and> lease_data m q = [10, 20, 30]"
proof -
  let ?e = "kill_env 9 [7, 9] 1" and ?W = "demo_waits 7" and ?y0 = "sys_start demo_inner"
  have cap: "i_slot_capacity demo_inner = 64" by (simp add: demo_inner_def)
  have env: "w_env ?W 0 = kill_env 7 [7, 9] 1" "w_start ?W \<le> w_now ?W 0" by (simp_all add: demo_waits_def)
  obtain c q where reg: "consumer_register ?e (y_ring ?y0) = Some (Inr c, q)" "c_index c = 0"
    using demo_register by (auto simp: sys_start_def demo_ring_def)
  let ?y1 = "?y0\<lparr>y_ring := q, y_cons := (y_cons ?y0)(c_index c := Some c), y_due := y_due ?y0 - {c_index c},
       y_sent := (y_sent ?y0)(c_index c := []), y_got := (y_got ?y0)(c_index c := [])\<rparr>"
  have step1: "sys_step 64 ?y0 ?y1" by (rule s_register [OF _ reg(1)]) (simp add: truthful_def sys_start_def)
  have inv0: "sys_inv 64 ?y0" using sys_inv_start [of demo_inner] by (simp add: cap)
  have inv1: "sys_inv 64 ?y1" by (rule sys_step_inv [OF step1 inv0])
  have r0: "y_ring ?y0 = demo_ring" by (simp add: sys_start_def demo_ring_def)
  note new = register_slots [OF _ reg(1), unfolded r0]
  have q: "r_pid (registry q ! 0) = 9" "slots q = slots (swept ?e demo_ring)" "g_next_seq q = 1"
    using new(1,3) new(5) [OF _ refl] reg(2) by (simp_all add: fresh_entry_def swept_def)
  have true: "truthful (w_env ?W 0) ?y1"
    by (simp add: truthful_def sys_start_def dead_entry_def env q(1) reg(2))
  have y1: "wf_ring 64 q" "lock_free q" "seqs_within 0 q" using inv1 by (simp_all add: sys_inv_def sys_start_def)
  have "s_state (slots (swept (w_env ?W 0) q) ! 0) = STATE_FREE" "length (slots (swept (w_env ?W 0) q)) = 2"
    by (simp_all add: q(2) slots_demo_ring)
  then have "\<exists>h\<in>set (slots (swept (w_env ?W 0) q)). reclaimable h"
    unfolding reclaimable_def by (metis nth_mem zero_less_numeral)
  from pick_slot_exists [OF y1(3) _ this] obtain s where pick: "pick_slot (swept (w_env ?W 0) q) = Some s" by auto
  let ?q2 = "published_ring (w_env ?W 0) demo_view s q"
  obtain p where p: "publish ?W 64 demo_view DropNewest 0 (y_ring ?y1) = Some (Inr (Some p), ?q2)" "p_sequence p = 1"
    using publish_once [OF y1(1,2) demo_view_ok(1) env(2), of DropNewest] pick demo_view_ok(2) q(3)
    by (simp add: not_less)
  let ?y2 = "?y1\<lparr>y_ring := ?q2, y_count := y_count ?y1 + 1,
       y_sent := (\<lambda>i. if y_cons ?y1 i = None then y_sent ?y1 i else y_sent ?y1 i @ [(p_sequence p, v_data demo_view)])\<rparr>"
  have step2: "sys_step 64 ?y1 ?y2"
    by (rule s_publish [OF _ _ true env(2) demo_view_ok(1) p(1)]) (simp_all add: sys_start_def)
  have inv2: "sys_inv 64 ?y2" by (rule sys_step_inv [OF step2 inv1])
  have c2: "y_cons ?y2 0 = Some c" using reg(2) by (simp add: sys_start_def)
  have sent: "y_sent ?y2 0 = [(1, [10, 20, 30])]" "y_got ?y2 0 = []"
    using reg(2) p(2) by (simp_all add: sys_start_def demo_view_def)
  have queues2: "queues_inv ?y2" using inv2 unfolding sys_inv_def by blast
  have pend: "pending c ?q2 = [(1, [10, 20, 30])]" using holderD(2) [OF queues2 c2] sent by simp
  have clock: "w_start (demo_waits 9) \<le> w_now (demo_waits 9) 0" by (simp add: demo_waits_def)
  have "ready 64 (c, ?q2)"
    using holder_keeps_up [OF inv2 c2] sys_seqs_ok [OF inv2] inv2 by (simp add: ready_def sys_inv_def)
  from take_item_None [OF clock this] pend
  obtain m c' q3 where take: "next_raw (demo_waits 9) 64 c 0 ?q2 = Some (Inr m, c', q3)"
    by (auto simp: take_item_def split: option.splits sum.splits)
  let ?y3 = "?y2\<lparr>y_ring := q3, y_cons := (y_cons ?y2)(0 := Some c'),
       y_leases := insert (0, m, lease_data m q3) (y_leases ?y2),
       y_got := (y_got ?y2)(0 := y_got ?y2 0 @ [(m_sequence m, lease_data m q3)])\<rparr>"
  have step3: "sys_step 64 ?y2 ?y3" by (rule s_take [OF c2 clock]) (simp add: take)
  have inv3: "sys_inv 64 ?y3" by (rule sys_step_inv [OF step3 inv2])
  have queues3: "queues_inv ?y3" using inv3 unfolding sys_inv_def by blast
  have "y_sent ?y3 0 = [(1, [10, 20, 30])]" using sent(1) by simp
  then have got: "(m_sequence m, lease_data m q3) = (1, [10, 20, 30])"
    using holderD(2) [OF queues3, of 0 c'] sent(2) by simp
  have "(sys_step 64)\<^sup>*\<^sup>* ?y0 ?y2" using step1 step2 by (meson r_into_rtranclp rtranclp.rtrancl_into_rtrancl)
  then show ?thesis
    using got sent inv2 c2 take
    by (intro exI [of _ ?y2] exI [of _ c] exI [of _ m] exI [of _ c'] exI [of _ q3]) (simp add: sys_start_def)
qed

lemma demo_clock: "w_start (demo_waits 9) \<le> w_now (demo_waits 9) 0"
  by (simp add: demo_waits_def)

lemma demo_run:
  "\<exists>y c m. (sys_step 64)\<^sup>*\<^sup>* (sys_start demo_inner) y \<and> y_cons y 0 = Some c \<and>
     y_sent y 0 = [(1, [10, 20, 30])] \<and> y_got y 0 = [(1, [10, 20, 30])] \<and> (0, m, [10, 20, 30]) \<in> y_leases y"
proof -
  obtain y c m c' q where y: "(sys_step 64)\<^sup>*\<^sup>* (sys_start demo_inner) y" "y_cons y 0 = Some c"
    "y_sent y 0 = [(1, [10, 20, 30])]" "y_got y 0 = []"
    "next_raw (demo_waits 9) 64 c 0 (y_ring y) = Some (Inr m, c', q)" "m_sequence m = 1" "lease_data m q = [10, 20, 30]"
    using demo_published by blast
  from rtranclp.rtrancl_into_rtrancl [OF y(1) s_take [OF y(2) demo_clock y(5)]]
  show ?thesis using y(3,4,6,7) by (intro exI conjI) (assumption, simp_all, blast)
qed


subsection \<open>A consumer that registers while a writer is open\<close>

definition unnamed :: "nat \<Rightarrow> ring \<Rightarrow> bool" where
  "unnamed i r \<longleftrightarrow> (\<forall>h\<in>set (slots r). \<not> bit (s_readers_mask h) i)"

lemma unnamed_nth: "unnamed i r \<Longrightarrow> j < length (slots r) \<Longrightarrow> \<not> bit (s_readers_mask (slots r ! j)) i"
  by (simp add: unnamed_def)

lemma unnamed_swept: "unnamed i r \<Longrightarrow> unnamed i (swept e r)"
  by (auto simp: unnamed_def swept_def swept_slot_def recover_slot_def bit_clear_readers)

lemma unnamed_registered:
  assumes wf: "wf_ring cap r" and reg: "consumer_register e r = Some (Inr c, q)"
  shows "unnamed (c_index c) q"
proof -
  note new = register_slots(1,5) [OF wf_ringD(1) [OF wf] reg]
  have "\<not> bit (active_mask (swept e r)) (c_index c)"
    using new(2) by (auto simp: bit_active_mask REGISTRY_ACTIVE_def REGISTRY_FREE_def)
  then show ?thesis
    using wf_swept [OF wf, of e] by (auto simp: unnamed_def new(1) wf_ring_def slot_ok_def)
qed

lemma nothing_waits:
  assumes "wf_ring cap r" "seqs_ok r" "\<forall>h\<in>set (slots r). \<not> eligible c h" "w_start W \<le> w_now W 0"
  shows "next_raw W cap c 0 r = Some (Inl Timeout, c, r)"
  using assms try_take_None [OF assms(1,2), of c] by (simp add: next_raw_def next_loop.simps)

subsection \<open>Properties\<close>






lemma registry_swept_demo: "registry (swept e demo_ring) = replicate 64 zero_entry"
  by (simp add: swept_def reclaim_entry_def dead_entry_def zero_entry_def REGISTRY_ACTIVE_def map_replicate_const)




end
