(* ===== verification/Overtake.thy ===== *)
theory Overtake
  imports System
begin

text \<open>
  Two publications of one producer at once. \<^verbatim>\<open>System\<close> has at most one \<^verbatim>\<open>SlotWriter\<close> open and publishes
  nothing meanwhile; \<^verbatim>\<open>reserve\<close> and \<^verbatim>\<open>publish\<close> of \<^verbatim>\<open>ring.rs\<close> both take \<^verbatim>\<open>&self\<close>, and Python hands out a
  writer as an object of its own, so nothing enforces that. Sequences are given out by reservation and
  read by commit, and this theory shows what becomes of a reservation that is committed late.
\<close>

unbundle bit_operations_syntax

subsection \<open>The slot of the open writer under a publication\<close>

lemma overtaken_slot:
  assumes w: "writer_inv r w" "bit (s_readers_mask (slots r ! sw_slot w)) i"
      "\<not> abandoned_slot e (slots r ! sw_slot w)"
    and c: "i < MAX_CONSUMERS" "\<not> dead_entry e (registry r ! i)"
    and pick: "pick_slot (swept e r) = Some s"
  shows "s \<noteq> sw_slot w" "s_state (slots (published_ring e v s r) ! sw_slot w) = STATE_WRITING"
    "s_sequence (slots (published_ring e v s r) ! sw_slot w) = sw_sequence w"
    "bit (s_readers_mask (slots (published_ring e v s r) ! sw_slot w)) i"
proof -
  let ?h = "slots (swept e r) ! sw_slot w"
  have "i \<notin> set (dead_consumers e r)" using c(2) by (simp add: dead_consumers_iff)
  then have h: "s_state ?h = STATE_WRITING" "s_sequence ?h = sw_sequence w" "bit (s_readers_mask ?h) i"
    using w by (simp_all add: writer_inv_def swept_def swept_slot_def recover_slot_def abandoned_clear_readers bit_clear_readers)
  then show ne: "s \<noteq> sw_slot w"
    using pick_slot_reclaimable [OF pick] by (auto simp: reclaimable_def unread_def)
  then have "slots (published_ring e v s r) ! sw_slot w = ?h" by (simp add: published_ring_def)
  with h show "s_state (slots (published_ring e v s r) ! sw_slot w) = STATE_WRITING"
    "s_sequence (slots (published_ring e v s r) ! sw_slot w) = sw_sequence w"
    "bit (s_readers_mask (slots (published_ring e v s r) ! sw_slot w)) i" by simp_all
qed

text \<open>A consumer that has read the newest sequence finds nothing, whatever waits.\<close>

lemma newest_taken:
  assumes wf: "wf_ring cap q" and sq: "seqs_ok q" and last: "g_next_seq q = c_last_sequence c + 1"
    and clock: "w_start W \<le> w_now W 0"
  shows "next_raw W cap c 0 q = Some (Inl Timeout, c, q)"
proof (rule nothing_waits [OF wf sq _ clock])
  have one: "age (g_next_seq q) (c_last_sequence c) = 1" using age_self by (simp add: last)
  then have up: "keeps_up c q" by (simp add: keeps_up_def)
  have "\<not> eligible c (slots q ! j)" if j: "j < length (slots q)" for j
  proof
    assume el: "eligible c (slots q ! j)"
    then have "in_use (slots q ! j)" by (simp add: eligible_def in_use_def)
    with seqs_ok_window [OF sq j] el show False unfolding eligible_iff [OF sq up j] by (simp add: one)
  qed
  then show "\<forall>h\<in>set (slots q). \<not> eligible c h" unfolding all_set_conv_all_nth by blast
qed

text \<open>A ring with a registered consumer and an open writer.\<close>

lemma demo_reserved:
  "\<exists>c r w. wf_ring 64 r \<and> seqs_within 1 r \<and> lock_free r \<and> writer_inv r w \<and> c_index c = 0 \<and>
     bit (s_readers_mask (slots r ! sw_slot w)) 0 \<and> r_state (registry r ! 0) = REGISTRY_ACTIVE \<and>
     \<not> dead_entry (kill_env 7 [7, 9] 1) (registry r ! 0) \<and> \<not> abandoned_slot (kill_env 7 [7, 9] 1) (slots r ! sw_slot w) \<and>
     (\<exists>h\<in>set (slots (swept (kill_env 7 [7, 9] 1) r)). reclaimable h) \<and>
     (\<forall>h\<in>set (slots r). \<not> eligible c h) \<and> seq_newer (g_next_seq r) (c_last_sequence c)"
proof -
  let ?e = "kill_env 7 [7, 9] 1"
  obtain c q where reg: "consumer_register (kill_env 9 [7, 9] 1) demo_ring = Some (Inr c, q)" "c_index c = 0"
    using demo_register by blast
  note new = register_slots [OF _ reg(1)]
  have q: "slots q = slots (swept (kill_env 9 [7, 9] 1) demo_ring)" "g_next_seq q = 1" "r_state (registry q ! 0) = REGISTRY_ACTIVE"
      "r_pid (registry q ! 0) = 9" "c_last_sequence c = 0"
    using new(1,3) new(5) [OF _ refl] reg(2) by (simp_all add: fresh_entry_def swept_def)
  have y: "wf_ring 64 q" "lock_free q"
    using wf_consumer_register [OF wf_demo_ring(1) reg(1)] new(4) by (simp_all add: lock_free_def free_lock_def)
  have sq: "seqs_within 0 q"
    by (rule seqs_within_cong [OF seqs_within_swept [OF seqs_within_demo_ring, of "kill_env 9 [7, 9] 1"]]) (simp_all add: q(1,2))
  have live: "\<not> dead_entry ?e (registry q ! 0)" by (simp add: dead_entry_def q(4))
  have len: "length (slots q) = 2" by (simp add: q(1) slots_demo_ring)
  have one: "(i :: nat) = 0 \<or> i = 1" if "i < 2" for i using that by auto
  have state: "s_state (slots (swept ?e q) ! i) = STATE_FREE" if "i < 2" for i
    using one [OF that] by (auto simp: q(1) slots_demo_ring)
  have "slots (swept ?e q) ! 0 \<in> set (slots (swept ?e q))" by (rule nth_mem) (simp add: len)
  with state [of 0] have "\<exists>h\<in>set (slots (swept ?e q)). reclaimable h" by (auto simp: reclaimable_def)
  from pick_slot_exists [OF sq _ this] obtain s where pick: "pick_slot (swept ?e q) = Some s" by auto
  have s: "s < 2" using pick_slot_reclaimable [OF pick] len by simp
  define r where "r = reserved_ring ?e U8 1 (pad_dims [3]) (pad_dims [1]) 3 None s q"
  define w where "w = \<lparr>sw_slot = s, sw_sequence = 1, sw_mask = 1, sw_nbytes = 3, sw_committed = False\<rparr>"
  have dims: "length (pad_dims [x]) = MAX_NDIM" for x by (rule length_pad_dims) (simp add: MAX_NDIM_def)
  have wf: "wf_ring 64 r" unfolding r_def
    by (rule wf_reserved_ring [OF y dims dims _ _ pick]) (simp_all add: MAX_NDIM_def)
  have sqr: "seqs_within 1 r" unfolding r_def using seqs_within_reserved_ring [OF sq _ pick] by simp
  have free: "lock_free r" by (simp add: r_def lock_free_def free_lock_def)
  have wi: "writer_inv r w" using s q(2) len by (simp add: writer_inv_def r_def w_def reserved_header_def)
  have "bit (active_mask (swept ?e q)) (c_index c)"
    by (rule bit_active_live [OF y(1)]) (simp_all add: reg(2) MAX_CONSUMERS_def q(3) live)
  then have due: "bit (s_readers_mask (slots r ! sw_slot w)) 0"
    using s len by (simp add: r_def w_def reserved_header_def reg(2))
  have other: "s_state (slots r ! (1 - s)) = STATE_FREE" "1 - s < 2" "length (slots r) = 2"
    using s state [of "1 - s"] len one [OF s] by (auto simp: r_def)
  have "slots (swept ?e r) ! (1 - s) \<in> set (slots (swept ?e r))" by (rule nth_mem) (use other in simp)
  moreover have "reclaimable (slots (swept ?e r) ! (1 - s))" using other by (simp add: reclaimable_def)
  ultimately have some: "\<exists>h\<in>set (slots (swept ?e r)). reclaimable h" by blast
  have "s_state (slots r ! i) \<noteq> STATE_COMMITTED" if "i < 2" for i
    using one [OF that] one [OF s] other wi by (auto simp: writer_inv_def w_def)
  then have idle: "\<forall>h\<in>set (slots r). \<not> eligible c h"
    using other(3) by (auto simp: eligible_def in_set_conv_nth)
  have entry: "registry r ! 0 = registry (swept ?e q) ! 0" by (simp add: r_def)
  have live_r: "r_state (registry r ! 0) = REGISTRY_ACTIVE" "\<not> dead_entry ?e (registry r ! 0)"
    using live q(3) wf_ringD(1) [OF y(1)] unfolding entry by (simp_all add: swept_def reclaim_entry_def)
  have open_r: "\<not> abandoned_slot ?e (slots r ! sw_slot w)"
    using s len by (simp add: abandoned_slot_def r_def w_def reserved_header_def)
  have "seq_newer (g_next_seq r) (c_last_sequence c)" by (simp add: r_def q(2,5) seq_newer_def)
  with wf sqr free wi reg(2) due live_r open_r some idle show ?thesis by (intro exI conjI)
qed

subsection \<open>Properties\<close>

text \<open>
  Claim C31. A direct write that is overtaken is lost: when the producer publishes while a writer is open
  and a consumer named in the mask of both takes the publication before the writer commits, the commit
  reports success and leaves a committed slot with the bit of the consumer, but the consumer's next wait
  times out with everything read, and the slot is not reclaimable: its sequence is older than the last
  one the consumer has read.
\<close>

theorem overtaken_write_is_lost:
  assumes wf: "wf_ring cap r" and sq: "seqs_within d r" "d < 2 ^ 63 - 1" and free: "lock_free r" and w: "writer_inv r w"
    and due: "bit (s_readers_mask (slots r ! sw_slot w)) (c_index c)" "c_index c < MAX_CONSUMERS"
      "\<not> dead_entry (w_env W 0) (registry r ! c_index c)" "\<not> abandoned_slot (w_env W 0) (slots r ! sw_slot w)"
    and pub: "publish W cap v policy 0 r = Some (Inr (Some p), q)" "view_ok v" "w_start W \<le> w_now W 0"
    and take: "next_raw W' cap c 0 q = Some (Inr m, c', q')" "m_sequence m = p_sequence p" "w_start W' \<le> w_now W' 0"
    and commit: "writer_commit w q' = (p', w', q'')" and later: "w_start W'' \<le> w_now W'' 0"
  shows "p_sequence p = p_sequence p' + 1 \<and> s_state (slots q'' ! sw_slot w) = STATE_COMMITTED \<and>
    s_sequence (slots q'' ! sw_slot w) = p_sequence p' \<and> bit (s_readers_mask (slots q'' ! sw_slot w)) (c_index c) \<and>
    next_raw W'' cap c' 0 q'' = Some (Inl Timeout, c', q'') \<and> \<not> reclaimable (slots q'' ! sw_slot w)"
proof -
  obtain s where s: "\<not> cap < usize_len (v_data v)" "pick_slot (swept (w_env W 0) r) = Some s"
      "q = published_ring (w_env W 0) v s r" "p_sequence p = g_next_seq r"
    using pub(1) unfolding publish_once [OF wf free pub(2,3)] by (auto split: if_splits option.splits)
  note ov = overtaken_slot(2-) [OF w due(1,4,2,3) s(2), of v, folded s(3)]
  have wi: "sw_slot w < length (slots r)" "g_next_seq r = sw_sequence w + 1" using w by (simp_all add: writer_inv_def)
  have q: "wf_ring cap q" "seqs_within (Suc d) q" "g_next_seq q = g_next_seq r + 1" "length (slots q) = length (slots r)"
    using wf_published [OF wf free pub(2) _ s(2)] seqs_within_published [OF sq(1) _ s(2)] sq(2) s(1)
    by (simp_all add: s(3) published_ring_def not_less)
  note still = next_raw_still(2) [OF take(3,1)]
  have q': "slots q' = slots q" "g_next_seq q' = g_next_seq q" "c_last_sequence c' = m_sequence m" "wf_ring cap q'"
    using take_meta_ring [of "w_env W' 0" c m q, folded still] wf_take_meta [OF q(1), of "w_env W' 0" c m, folded still]
    by simp_all
  have q'': "q'' = commit_slot (sw_slot w) q'" "p_sequence p' = sw_sequence w" using commit by (auto simp: writer_commit_def)
  have "seqs_within (Suc d) q''"
  proof (rule seqs_within_slots [OF q(2)])
    fix j assume "j < length (slots q)" "in_use (slots q'' ! j)"
    then show "in_use (slots q ! j) \<and> s_sequence (slots q'' ! j) = s_sequence (slots q ! j)"
      using ov(1) by (cases "j = sw_slot w") (simp_all add: q'' q' in_use_def)
  qed (simp_all add: q'' q')
  then have sq'': "seqs_ok q''" unfolding seqs_ok_def by (rule seqs_within_mono) (use sq(2) in simp)
  have wf'': "wf_ring cap q''"
    unfolding q''(1) by (rule wf_commit_slot [OF q'(4)]) (use wi ov(1) in \<open>simp_all add: q'(1) q(4)\<close>)
  have "next_raw W'' cap c' 0 q'' = Some (Inl Timeout, c', q'')"
    by (rule newest_taken [OF wf'' sq'' _ later]) (simp add: q'' q' q(3) take(2) s(4))
  moreover have h: "s_state (slots q'' ! sw_slot w) = STATE_COMMITTED" "s_sequence (slots q'' ! sw_slot w) = sw_sequence w"
      "bit (s_readers_mask (slots q'' ! sw_slot w)) (c_index c)"
    using ov wi by (simp_all add: q''(1) q'(1) q(4))
  moreover have "\<not> reclaimable (slots q'' ! sw_slot w)" using h(1,3) by (auto simp: reclaimable_def unread_def)
  ultimately show ?thesis by (simp add: q''(2) s(4) wi(2))
qed

theorem overtaken_write_is_lost_witness:
  "\<exists>r w c p q m c' q' p' w' q''. writer_inv r w \<and> bit (s_readers_mask (slots r ! sw_slot w)) (c_index c) \<and>
     publish (demo_waits 7) 64 demo_view DropNewest 0 r = Some (Inr (Some p), q) \<and>
     next_raw (demo_waits 9) 64 c 0 q = Some (Inr m, c', q') \<and> writer_commit w q' = (p', w', q'') \<and>
     next_raw (demo_waits 9) 64 c' 0 q'' = Some (Inl Timeout, c', q'') \<and> \<not> reclaimable (slots q'' ! sw_slot w)"
proof -
  have env: "w_env (demo_waits 7) 0 = kill_env 7 [7, 9] 1" "w_start (demo_waits 7) \<le> w_now (demo_waits 7) 0"
    by (simp_all add: demo_waits_def)
  obtain c r w where y: "wf_ring 64 r" "seqs_within 1 r" "lock_free r" "writer_inv r w" "c_index c = 0"
    "bit (s_readers_mask (slots r ! sw_slot w)) 0" "r_state (registry r ! 0) = REGISTRY_ACTIVE"
    "\<not> dead_entry (w_env (demo_waits 7) 0) (registry r ! 0)"
    "\<not> abandoned_slot (w_env (demo_waits 7) 0) (slots r ! sw_slot w)"
    "\<exists>h\<in>set (slots (swept (w_env (demo_waits 7) 0) r)). reclaimable h"
    "\<forall>h\<in>set (slots r). \<not> eligible c h" "seq_newer (g_next_seq r) (c_last_sequence c)"
    using demo_reserved unfolding env(1) by blast
  have i: "c_index c < MAX_CONSUMERS" by (simp add: y(5) MAX_CONSUMERS_def)
  obtain p q m c' q' where run: "publish (demo_waits 7) 64 demo_view DropNewest 0 r = Some (Inr (Some p), q)"
      "next_raw (demo_waits 9) 64 c 0 q = Some (Inr m, c', q')" "m_sequence m = p_sequence p"
    using published_arrives [OF y(1,2) _ y(3) demo_view_ok y(10) i _ _ y(11,12), of DropNewest 0 "demo_waits 9" 0] y(5,7,8)
    by auto
  obtain p' w' q'' where commit: "writer_commit w q' = (p', w', q'')" by (cases "writer_commit w q'") auto
  from overtaken_write_is_lost [OF y(1,2) _ y(3,4) _ i _ y(9) run(1) demo_view_ok(1) env(2) run(2,3) demo_clock commit demo_clock]
  show ?thesis using y(4,5,6,8) run commit
    by (intro exI [of _ r] exI [of _ w] exI [of _ c] exI [of _ p] exI [of _ q] exI [of _ m] exI [of _ c'] exI [of _ q']
        exI [of _ p'] exI [of _ w'] exI [of _ q'']) simp
qed

end
