(* ===== verification/Bindings.thy ===== *)
theory Bindings
  imports System Complex_Main
begin

text \<open>
  The Python bindings, \<^verbatim>\<open>rust/tenzorbus-py/src/lib.rs\<close>: the mapping of errors to exceptions, the
  arguments of \<^verbatim>\<open>publish\<close>, \<^verbatim>\<open>reserve\<close> and \<^verbatim>\<open>next\<close>, and the two objects with a life of their own, the
  slot writer and the lease, whose buffer exports keep the slot from being handed on.

  NumPy, PyTorch and \<^verbatim>\<open>PyBuffer_FillInfo\<close> are parameters. A call into NumPy may call back into the
  buffer protocol of the object it is given, so it takes and returns that object's state. A method
  that Python runs with the object mutably borrowed is one operation. Strings that only carry a
  message or a dtype name are HOL strings.
\<close>

unbundle bit_operations_syntax

subsection \<open>Exceptions and arguments\<close>

datatype py_exc =
    PyTimeoutError string
  | PyRuntimeError string
  | PyValueError string
  | PyBufferError string
  | PanicException string
  | Raised nat

text \<open>\<open>Raised\<close> is an exception of NumPy, PyTorch or the interpreter, by a number.\<close>

type_synonym 'a py = "py_exc + 'a"

fun to_py_err :: "(io_error \<Rightarrow> string) \<Rightarrow> error \<Rightarrow> py_exc" where
  "to_py_err io Timeout = PyTimeoutError (display io Timeout)"
| "to_py_err io RingFull = PyRuntimeError (display io RingFull)"
| "to_py_err io (Invalid m) = PyValueError m"
| "to_py_err io other = PyRuntimeError (display io other)"

definition map_err :: "(io_error \<Rightarrow> string) \<Rightarrow> error + 'a \<Rightarrow> 'a py" where
  "map_err io = map_sum (to_py_err io) id"

definition quoted :: "string \<Rightarrow> string" where
  "quoted s = CHR 0x27 # s @ [CHR 0x27]"

definition parse_policy :: "string \<Rightarrow> backpressure py" where
  "parse_policy policy =
     (if policy = ''block'' then Inr Block
      else if policy = ''drop_newest'' then Inr DropNewest
      else Inl (PyValueError (''policy must be '' @ quoted ''block'' @ '' or '' @ quoted ''drop_newest'' @
              '', got '' @ quoted policy)))"

definition parse_dtype :: "string \<Rightarrow> dtype py" where
  "parse_dtype name =
     (case from_numpy_name name of
        None \<Rightarrow> Inl (PyValueError (''unsupported dtype '' @ name))
      | Some dt \<Rightarrow> Inr dt)"

text \<open>
  A Python float is a rational or not finite. \<^verbatim>\<open>Duration::from_secs_f64\<close> rounds to the nearest
  nanosecond, ties to even, and panics on a negative, non-finite or too large argument.
\<close>

datatype py_float = Finite rat | NonFinite

definition round_half_even :: "rat \<Rightarrow> int" where
  "round_half_even x =
     (let f = \<lfloor>x\<rfloor>; d = x - of_int f
      in if d < 1 / 2 then f else if d > 1 / 2 then f + 1 else if even f then f else f + 1)"

fun from_secs_f64 :: "py_float \<Rightarrow> nat py" where
  "from_secs_f64 NonFinite = Inl (PanicException ''cannot convert float seconds to Duration'')"
| "from_secs_f64 (Finite q) =
     (if q < 0 \<or> 2 ^ 64 \<le> q then Inl (PanicException ''cannot convert float seconds to Duration'')
      else Inr (nat (round_half_even (q * 10 ^ 9))))"

text \<open>A \<^verbatim>\<open>dict\<close> is the list of its items in the order they are set.\<close>

datatype py_val = PyNone | PyInt nat | PyStr rstring

type_synonym py_dict = "(string \<times> py_val) list"

definition py_u64 :: "'a::len word \<Rightarrow> py_val" where
  "py_u64 w = PyInt (unat w)"

definition py_option :: "u64 option \<Rightarrow> py_val" where
  "py_option x = (case x of None \<Rightarrow> PyNone | Some w \<Rightarrow> py_u64 w)"

definition publish_dict :: "publish_result \<Rightarrow> py_dict" where
  "publish_dict p =
     [(''sequence'', py_u64 (p_sequence p)), (''slot_index'', PyInt (p_slot_index p)),
      (''nbytes'', py_u64 (p_nbytes p)), (''readers'', py_u64 (p_readers p))]"

subsection \<open>Ring\<close>

definition py_create ::
  "(io_error \<Rightarrow> string) \<Rightarrow> 'k kernel \<Rightarrow> rstring \<Rightarrow> usize \<Rightarrow> usize \<Rightarrow> bool \<Rightarrow> 'k \<Rightarrow> 'k \<times> (inner \<times> ring) py" where
  "py_create io K name n_slots slot_bytes force k =
     (case ring_create K name \<lparr>o_slot_count = n_slots, o_slot_capacity = slot_bytes, o_force = force\<rparr> k of
        (k1, res) \<Rightarrow> (k1, map_err io res))"

definition py_attach ::
  "(io_error \<Rightarrow> string) \<Rightarrow> 'k kernel \<Rightarrow> (mapping \<Rightarrow> ring) \<Rightarrow> rstring \<Rightarrow> 'k \<Rightarrow> 'k \<times> inner py" where
  "py_attach io K contents name k =
     (case ring_attach K contents name k of (k1, res) \<Rightarrow> (k1, map_err io res))"

definition py_unlink :: "(io_error \<Rightarrow> string) \<Rightarrow> 'k kernel \<Rightarrow> rstring \<Rightarrow> 'k \<Rightarrow> 'k \<times> unit py" where
  "py_unlink io K name k =
     (case shm_unlink K name k of
        (k1, Inl err) \<Rightarrow> (k1, Inl (PyRuntimeError (io err)))
      | (k1, Inr u) \<Rightarrow> (k1, Inr u))"

definition py_producer ::
  "(io_error \<Rightarrow> string) \<Rightarrow> env \<Rightarrow> usize \<Rightarrow> ring \<Rightarrow> (unit py \<times> usize \<times> ring) option" where
  "py_producer io e producers r =
     map_option (\<lambda>(res, n, q). (map_err io res, n, q)) (producer_claim e producers r)"

definition py_consumer :: "(io_error \<Rightarrow> string) \<Rightarrow> env \<Rightarrow> ring \<Rightarrow> (consumer py \<times> ring) option" where
  "py_consumer io e r = map_option (\<lambda>(res, q). (map_err io res, q)) (consumer_register e r)"

definition py_stats :: "inner \<Rightarrow> ring \<Rightarrow> py_dict" where
  "py_stats h r =
     (let s = ring_stats h r
      in [(''name'', PyStr (i_name h)), (''slot_count'', py_u64 (st_slot_count s)),
          (''slot_capacity'', py_u64 (st_slot_capacity s)), (''next_sequence'', py_u64 (st_next_sequence s)),
          (''consumers'', py_u64 (st_consumers s)), (''published'', py_u64 (st_published s)),
          (''dropped'', py_u64 (st_dropped s)), (''reaped'', py_u64 (st_reaped s)),
          (''free_slots'', PyInt (st_free_slots s)), (''committed_slots'', PyInt (st_committed_slots s))])"

definition py_ring_repr :: "inner \<Rightarrow> rstring" where
  "py_ring_repr h =
     ascii ''<tenzorbus.Ring name='' @ i_name h @ ascii '' slots='' @ ascii (dec (unat (i_slot_count h))) @
     ascii '' slot_bytes='' @ ascii (dec (unat (i_slot_capacity h))) @ ascii ''>''"

definition py_sweep :: "env \<Rightarrow> ring \<Rightarrow> ring option" where
  "py_sweep e r = sweep e r"

definition unlink_on_close :: "inner \<Rightarrow> inner" where
  "unlink_on_close h = unlink_on_drop h"

definition keep_on_close :: "inner \<Rightarrow> inner" where
  "keep_on_close h = keep_on_drop h"

subsection \<open>Publishing\<close>

record ('o, 'a) array_api =
  np_ascontiguous :: "'o \<Rightarrow> 'a py"
  np_dtype :: "'a \<Rightarrow> string py"
  np_shape :: "'a \<Rightarrow> u32 list py"
  np_buffer :: "'a \<Rightarrow> u8 list py"

text \<open>The view \<^verbatim>\<open>publish\<close> builds from its argument: everything it may raise before the ring is touched.\<close>

definition py_view ::
  "(io_error \<Rightarrow> string) \<Rightarrow> ('o, 'a) array_api \<Rightarrow> 'o \<Rightarrow> u64 option \<Rightarrow> tensor_view py" where
  "py_view io N array ts =
     (case np_ascontiguous N array of Inl x \<Rightarrow> Inl x | Inr arr \<Rightarrow>
     (case np_dtype N arr of Inl x \<Rightarrow> Inl x | Inr name \<Rightarrow>
     (case np_shape N arr of Inl x \<Rightarrow> Inl x | Inr shape \<Rightarrow>
     (case parse_dtype name of Inl x \<Rightarrow> Inl x | Inr dt \<Rightarrow>
     (case np_buffer N arr of Inl x \<Rightarrow> Inl x | Inr data \<Rightarrow>
     (case map_err io (tensor_view_contiguous dt shape data) of Inl x \<Rightarrow> Inl x | Inr view \<Rightarrow>
        Inr (case ts of None \<Rightarrow> view | Some ns \<Rightarrow> with_timestamp_ns ns view)))))))"

definition py_publish ::
  "(io_error \<Rightarrow> string) \<Rightarrow> ('o, 'a) array_api \<Rightarrow> waits \<Rightarrow> usize \<Rightarrow> 'o \<Rightarrow> string \<Rightarrow> py_float \<Rightarrow> u64 option \<Rightarrow>
   ring \<Rightarrow> (py_dict option py \<times> ring) option" where
  "py_publish io N W cap array policy timeout ts r =
     (case parse_policy policy of Inl x \<Rightarrow> Some (Inl x, r) | Inr pol \<Rightarrow>
     (case py_view io N array ts of Inl x \<Rightarrow> Some (Inl x, r) | Inr view \<Rightarrow>
     (case from_secs_f64 timeout of Inl x \<Rightarrow> Some (Inl x, r) | Inr wait \<Rightarrow>
     (case publish W cap view pol wait r of
        None \<Rightarrow> None
      | Some (res, q) \<Rightarrow>
          Some (map_sum (to_py_err io)
            (map_option (\<lambda>p. publish_dict p @ [(''timestamp_ns'', py_option (v_timestamp_ns view))])) res, q)))))"

subsection \<open>The slot writer\<close>

record py_slot_writer =
  pw_writer :: "slot_writer option"
  pw_dtype :: dtype
  pw_shape :: "u32 list"
  pw_exports :: usize

definition finished :: py_exc where
  "finished = PyRuntimeError ''slot writer has already been finished''"

definition py_reserve ::
  "(io_error \<Rightarrow> string) \<Rightarrow> waits \<Rightarrow> usize \<Rightarrow> string \<Rightarrow> u32 list \<Rightarrow> string \<Rightarrow> py_float \<Rightarrow> ring \<Rightarrow>
   (py_slot_writer option py \<times> ring) option" where
  "py_reserve io W cap dtype shape policy timeout r =
     (case parse_policy policy of Inl x \<Rightarrow> Some (Inl x, r) | Inr pol \<Rightarrow>
     (case parse_dtype dtype of Inl x \<Rightarrow> Some (Inl x, r) | Inr dt \<Rightarrow>
     (case from_secs_f64 timeout of Inl x \<Rightarrow> Some (Inl x, r) | Inr wait \<Rightarrow>
     (case reserve W cap dt shape pol wait r of
        None \<Rightarrow> None
      | Some (res, q) \<Rightarrow>
          Some (map_sum (to_py_err io)
            (map_option (\<lambda>w. \<lparr>pw_writer = Some w, pw_dtype = dt, pw_shape = shape, pw_exports = 0\<rparr>)) res, q)))))"

definition the_writer :: "py_slot_writer \<Rightarrow> slot_writer py" where
  "the_writer p = (case pw_writer p of None \<Rightarrow> Inl finished | Some w \<Rightarrow> Inr w)"

definition pw_sequence :: "py_slot_writer \<Rightarrow> u64 py" where
  "pw_sequence p = map_sum id sw_sequence (the_writer p)"

definition pw_slot_index :: "py_slot_writer \<Rightarrow> nat py" where
  "pw_slot_index p = map_sum id sw_slot (the_writer p)"

definition pw_nbytes :: "py_slot_writer \<Rightarrow> usize py" where
  "pw_nbytes p = map_sum id sw_nbytes (the_writer p)"

definition pw_len :: "py_slot_writer \<Rightarrow> usize py" where
  "pw_len p = pw_nbytes p"

text \<open>The address of a payload: \<^verbatim>\<open>base\<close> and \<^verbatim>\<open>payload_off\<close> of the handle.\<close>

definition payload_ptr :: "inner \<Rightarrow> nat \<Rightarrow> nat" where
  "payload_ptr h s = m_ptr (i_map h) + unat (GLOBAL_HEADER_SIZE + of_nat s * i_slot_stride h + SLOT_HEADER_SIZE)"

definition pw_data_address :: "inner \<Rightarrow> py_slot_writer \<Rightarrow> nat py" where
  "pw_data_address h p = map_sum id (\<lambda>w. payload_ptr h (sw_slot w)) (the_writer p)"

definition pw_set_timestamp_ns :: "py_slot_writer \<Rightarrow> u64 \<Rightarrow> ring \<Rightarrow> unit py \<times> ring" where
  "pw_set_timestamp_ns p ts r =
     (case the_writer p of Inl x \<Rightarrow> (Inl x, r) | Inr w \<Rightarrow> (Inr (), set_timestamp_ns w ts r))"

definition pw_commit :: "py_slot_writer \<Rightarrow> ring \<Rightarrow> py_dict py \<times> py_slot_writer \<times> ring" where
  "pw_commit p r =
     (if pw_exports p > 0
      then (Inl (PyBufferError (''cannot commit while a view of the slot is still alive; '' @
              ''drop the array first, or the producer could mutate a published slot'')), p, r)
      else
        (case pw_writer p of
           None \<Rightarrow> (Inl finished, p, r)
         | Some w \<Rightarrow>
             (case writer_commit w r of
                (res, _, q) \<Rightarrow> (Inr (publish_dict res), p\<lparr>pw_writer := None\<rparr>, q))))"

definition pw_abort :: "env \<Rightarrow> py_slot_writer \<Rightarrow> ring \<Rightarrow> (unit py \<times> py_slot_writer \<times> ring) option" where
  "pw_abort e p r =
     (if pw_exports p > 0
      then Some (Inl (PyBufferError ''cannot abort while a view of the slot is still alive''), p, r)
      else
        (case pw_writer p of
           None \<Rightarrow> Some (Inr (), p, r)
         | Some w \<Rightarrow> map_option (\<lambda>(_, q). (Inr (), p\<lparr>pw_writer := None\<rparr>, q)) (writer_abort e w r)))"

text \<open>\<open>raised\<close>: the first argument of \<^verbatim>\<open>__exit__\<close> is there and is not \<^verbatim>\<open>None\<close>.\<close>

definition pw_exit :: "env \<Rightarrow> bool \<Rightarrow> py_slot_writer \<Rightarrow> ring \<Rightarrow> (bool py \<times> py_slot_writer \<times> ring) option" where
  "pw_exit e raised p r =
     (if raised
      then map_option (\<lambda>(res, p', q). (map_sum id (\<lambda>_. False) res, p', q)) (pw_abort e p r)
      else (case pw_commit p r of (res, p', q) \<Rightarrow> Some (map_sum id (\<lambda>_. False) res, p', q)))"

text \<open>
  \<open>fill flags\<close> is the error of \<^verbatim>\<open>PyBuffer_FillInfo\<close>, if any, for a writable buffer. The buffer is its
  address and length.
\<close>

definition pw_getbuffer ::
  "inner \<Rightarrow> (nat \<Rightarrow> py_exc option) \<Rightarrow> nat \<Rightarrow> py_slot_writer \<Rightarrow> (nat \<times> usize) py \<times> py_slot_writer" where
  "pw_getbuffer h fill flags p =
     (case the_writer p of
        Inl x \<Rightarrow> (Inl x, p)
      | Inr w \<Rightarrow>
          (case fill flags of
             Some x \<Rightarrow> (Inl x, p)
           | None \<Rightarrow> (Inr (payload_ptr h (sw_slot w), sw_nbytes w), p\<lparr>pw_exports := pw_exports p + 1\<rparr>)))"

definition pw_releasebuffer :: "py_slot_writer \<Rightarrow> py_slot_writer" where
  "pw_releasebuffer p = p\<lparr>pw_exports := saturating_sub (pw_exports p) 1\<rparr>"

definition pw_drop :: "env \<Rightarrow> py_slot_writer \<Rightarrow> ring \<Rightarrow> ring option" where
  "pw_drop e p r = (case pw_writer p of None \<Rightarrow> Some r | Some w \<Rightarrow> writer_drop e w r)"

text \<open>
  The calls into NumPy and PyTorch on an object with state \<open>'s\<close>: \<^verbatim>\<open>frombuffer\<close> with a dtype name,
  \<^verbatim>\<open>reshape\<close>, \<^verbatim>\<open>copy\<close> and \<^verbatim>\<open>torch.from_numpy\<close>. They may fail, and then drop what they were given.
\<close>

record ('s, 'a) view_api =
  np_import :: "unit py"
  np_frombuffer :: "string \<Rightarrow> 's \<Rightarrow> 'a py \<times> 's"
  np_reshape :: "u32 list \<Rightarrow> 'a \<Rightarrow> 's \<Rightarrow> 'a py \<times> 's"
  np_copy :: "'a \<Rightarrow> 's \<Rightarrow> 'a py \<times> 's"
  torch_import :: "unit py"
  torch_from_numpy :: "'a \<Rightarrow> 's \<Rightarrow> 'a py \<times> 's"

definition view_of :: "('s, 'a) view_api \<Rightarrow> dtype \<Rightarrow> u32 list \<Rightarrow> 's \<Rightarrow> 'a py \<times> 's" where
  "view_of N dt shape obj =
     (case np_import N of
        Inl x \<Rightarrow> (Inl x, obj)
      | Inr _ \<Rightarrow>
          (case np_frombuffer N (numpy_name dt) obj of
             (Inl x, obj') \<Rightarrow> (Inl x, obj')
           | (Inr flat, obj') \<Rightarrow> np_reshape N shape flat obj'))"

definition pw_numpy :: "(py_slot_writer, 'a) view_api \<Rightarrow> py_slot_writer \<Rightarrow> 'a py \<times> py_slot_writer" where
  "pw_numpy N p = view_of N (pw_dtype p) (pw_shape p) p"

subsection \<open>Consumers and leases\<close>

record py_lease =
  pl_meta :: "tensor_meta option"
  pl_ptr :: nat
  pl_len :: usize
  pl_exports :: usize

definition py_next ::
  "(io_error \<Rightarrow> string) \<Rightarrow> inner \<Rightarrow> waits \<Rightarrow> consumer \<Rightarrow> py_float \<Rightarrow> ring \<Rightarrow>
   (py_lease py \<times> consumer \<times> ring) option" where
  "py_next io h W c timeout r =
     (case from_secs_f64 timeout of
        Inl x \<Rightarrow> Some (Inl x, c, r)
      | Inr wait \<Rightarrow>
          (case next_raw W (i_slot_capacity h) c wait r of
             None \<Rightarrow> None
           | Some (res, c', q) \<Rightarrow>
               Some (map_sum (to_py_err io)
                 (\<lambda>m. \<lparr>pl_meta = Some m, pl_ptr = payload_ptr h (m_slot_index m), pl_len = m_nbytes m, pl_exports = 0\<rparr>)
                 res, c', q)))"

definition py_consumer_close :: "env \<Rightarrow> consumer \<Rightarrow> ring \<Rightarrow> (consumer \<times> ring) option" where
  "py_consumer_close e c r = consumer_close e c r"

definition py_consumer_exit :: "env \<Rightarrow> consumer \<Rightarrow> ring \<Rightarrow> (bool \<times> consumer \<times> ring) option" where
  "py_consumer_exit e c r = map_option (Pair False) (consumer_close e c r)"

definition the_meta :: "py_lease \<Rightarrow> tensor_meta py" where
  "the_meta l =
     (case pl_meta l of None \<Rightarrow> Inl (PyRuntimeError ''lease has already been released'') | Some m \<Rightarrow> Inr m)"

definition pl_sequence :: "py_lease \<Rightarrow> u64 py" where
  "pl_sequence l = map_sum id m_sequence (the_meta l)"

definition pl_timestamp_ns :: "py_lease \<Rightarrow> u64 py" where
  "pl_timestamp_ns l = map_sum id m_timestamp_ns (the_meta l)"

definition pl_nbytes :: "py_lease \<Rightarrow> usize py" where
  "pl_nbytes l = map_sum id m_nbytes (the_meta l)"

definition pl_slot_index :: "py_lease \<Rightarrow> nat py" where
  "pl_slot_index l = map_sum id m_slot_index (the_meta l)"

definition pl_readers_remaining :: "py_lease \<Rightarrow> u32 py" where
  "pl_readers_remaining l = map_sum id m_readers_remaining (the_meta l)"

definition pl_dtype :: "py_lease \<Rightarrow> string py" where
  "pl_dtype l = map_sum id (\<lambda>m. numpy_name (m_dtype m)) (the_meta l)"

definition pl_shape :: "py_lease \<Rightarrow> u32 list py" where
  "pl_shape l = map_sum id meta_shape (the_meta l)"

definition pl_strides :: "py_lease \<Rightarrow> u32 list py" where
  "pl_strides l = map_sum id meta_strides (the_meta l)"

definition pl_data_address :: "py_lease \<Rightarrow> nat py" where
  "pl_data_address l = map_sum id (\<lambda>_. pl_ptr l) (the_meta l)"

definition pl_length :: "py_lease \<Rightarrow> usize py" where
  "pl_length l = map_sum id m_nbytes (the_meta l)"

definition pl_numpy :: "(py_lease, 'a) view_api \<Rightarrow> py_lease \<Rightarrow> 'a py \<times> py_lease" where
  "pl_numpy N l =
     (case the_meta l of Inl x \<Rightarrow> (Inl x, l) | Inr m \<Rightarrow> view_of N (m_dtype m) (meta_shape m) l)"

definition pl_torch :: "(py_lease, 'a) view_api \<Rightarrow> py_lease \<Rightarrow> 'a py \<times> py_lease" where
  "pl_torch N l =
     (case pl_numpy N l of
        (Inl x, l') \<Rightarrow> (Inl x, l')
      | (Inr view, l') \<Rightarrow>
          (case torch_import N of Inl x \<Rightarrow> (Inl x, l') | Inr _ \<Rightarrow> torch_from_numpy N view l'))"

definition pl_copy :: "(py_lease, 'a) view_api \<Rightarrow> py_lease \<Rightarrow> 'a py \<times> py_lease" where
  "pl_copy N l = (case pl_numpy N l of (Inl x, l') \<Rightarrow> (Inl x, l') | (Inr view, l') \<Rightarrow> np_copy N view l')"

definition pl_release ::
  "(io_error \<Rightarrow> string) \<Rightarrow> env \<Rightarrow> consumer \<Rightarrow> py_lease \<Rightarrow> ring \<Rightarrow> unit py \<times> py_lease \<times> ring" where
  "pl_release io e c l r =
     (case pl_meta l of
        None \<Rightarrow> (Inr (), l, r)
      | Some m \<Rightarrow>
          if pl_exports l > 0
          then (Inl (PyBufferError (''cannot release a lease while a view still references the slot; '' @
                  ''drop the view or use lease.copy()'')), l, r)
          else
            (case consumer_release e c m r of
               (res, q) \<Rightarrow> (map_err io res, l\<lparr>pl_meta := None\<rparr>, q)))"

definition pl_exit ::
  "(io_error \<Rightarrow> string) \<Rightarrow> env \<Rightarrow> consumer \<Rightarrow> py_lease \<Rightarrow> ring \<Rightarrow> bool py \<times> py_lease \<times> ring" where
  "pl_exit io e c l r = (case pl_release io e c l r of (res, l', q) \<Rightarrow> (map_sum id (\<lambda>_. False) res, l', q))"

definition comma_list :: "string list \<Rightarrow> string" where
  "comma_list xs = (case xs of [] \<Rightarrow> [] | x # ys \<Rightarrow> x @ concat (map (\<lambda>y. '', '' @ y) ys))"

definition pl_repr :: "py_lease \<Rightarrow> string" where
  "pl_repr l =
     (case pl_meta l of
        None \<Rightarrow> ''<tenzorbus.Lease released>''
      | Some m \<Rightarrow>
          ''<tenzorbus.Lease seq='' @ dec (unat (m_sequence m)) @ '' slot='' @ dec (m_slot_index m) @
          '' dtype='' @ numpy_name (m_dtype m) @
          '' shape=['' @ comma_list (map (\<lambda>d. dec (unat d)) (meta_shape m)) @ '']>'')"

definition pl_getbuffer ::
  "(nat \<Rightarrow> py_exc option) \<Rightarrow> nat \<Rightarrow> py_lease \<Rightarrow> (nat \<times> usize) py \<times> py_lease" where
  "pl_getbuffer fill flags l =
     (if pl_meta l = None then (Inl (PyBufferError ''lease has already been released''), l)
      else
        (case fill flags of
           Some x \<Rightarrow> (Inl x, l)
         | None \<Rightarrow> (Inr (pl_ptr l, pl_len l), l\<lparr>pl_exports := pl_exports l + 1\<rparr>)))"

definition pl_releasebuffer :: "py_lease \<Rightarrow> py_lease" where
  "pl_releasebuffer l = l\<lparr>pl_exports := saturating_sub (pl_exports l) 1\<rparr>"

definition pl_drop :: "env \<Rightarrow> consumer \<Rightarrow> py_lease \<Rightarrow> ring \<Rightarrow> ring" where
  "pl_drop e c l r = (case pl_meta l of None \<Rightarrow> r | Some m \<Rightarrow> snd (consumer_release e c m r))"

subsection \<open>What the methods do to an object\<close>

lemma unat_Suc_64: "unat (x :: u64) + 1 < 2 ^ 64 \<Longrightarrow> unat (x + 1) = unat x + 1"
  by (simp add: unat_word_ariths)

lemma unat_saturating: "unat (x :: u64) = n + 1 \<Longrightarrow> unat (saturating_sub x 1) = n"
  by (auto simp: saturating_sub_def word_less_nat_alt unat_sub_if')

lemma pl_getbuffer_ok:
  "pl_getbuffer fill flags l = (Inr buf, l') \<longleftrightarrow>
     pl_meta l \<noteq> None \<and> fill flags = None \<and> buf = (pl_ptr l, pl_len l) \<and> l' = l\<lparr>pl_exports := pl_exports l + 1\<rparr>"
  by (auto simp: pl_getbuffer_def split: option.splits)

lemma pw_getbuffer_ok:
  "pw_getbuffer h fill flags p = (Inr buf, p') \<longleftrightarrow>
     (\<exists>w. pw_writer p = Some w \<and> fill flags = None \<and> buf = (payload_ptr h (sw_slot w), sw_nbytes w) \<and>
       p' = p\<lparr>pw_exports := pw_exports p + 1\<rparr>)"
  by (auto simp: pw_getbuffer_def the_writer_def split: option.splits)

lemma pl_release_cases:
  assumes "pl_release io e c l r = (res, l', q)"
  obtains (gone) "pl_meta l = None" "res = Inr ()" "l' = l" "q = r"
    | (viewed) m where "pl_meta l = Some m" "0 < pl_exports l" "\<exists>msg. res = Inl (PyBufferError msg)" "l' = l" "q = r"
    | (freed) m r' where "pl_meta l = Some m" "pl_exports l = 0" "consumer_release e c m r = (r', q)"
        "res = map_err io r'" "l' = l\<lparr>pl_meta := None\<rparr>"
  using assms by (auto simp: pl_release_def word_gt_0 split: option.splits if_splits prod.splits)

lemma pw_commit_cases:
  assumes "pw_commit p r = (res, p', q)" "pw_writer p = Some w"
  obtains (viewed) "0 < pw_exports p" "\<exists>msg. res = Inl (PyBufferError msg)" "p' = p" "q = r"
    | (ended) "pw_exports p = 0" "p' = p\<lparr>pw_writer := None\<rparr>" "q = commit_slot (sw_slot w) r"
  using assms by (auto simp: pw_commit_def writer_commit_def word_gt_0 split: if_splits)

lemma pw_abort_cases:
  assumes "pw_abort e p r = Some (res, p', q)" "pw_writer p = Some w"
  obtains (viewed) "0 < pw_exports p" "\<exists>msg. res = Inl (PyBufferError msg)" "p' = p" "q = r"
    | (ended) "pw_exports p = 0" "p' = p\<lparr>pw_writer := None\<rparr>" "\<exists>w'. writer_abort e w r = Some (w', q)"
  using assms by (auto simp: pw_abort_def word_gt_0 split: if_splits)

lemma map_sum_Inr: "map_sum f g x = Inr y \<longleftrightarrow> (\<exists>z. x = Inr z \<and> g z = y)"
  by (cases x) auto

lemma py_next_ok:
  assumes "py_next io h W c (Finite 0) r = Some (Inr l, c', q)"
  obtains m where "next_raw W (i_slot_capacity h) c 0 r = Some (Inr m, c', q)"
    "l = \<lparr>pl_meta = Some m, pl_ptr = payload_ptr h (m_slot_index m), pl_len = m_nbytes m, pl_exports = 0\<rparr>"
  using assms by (auto simp: py_next_def round_half_even_def map_sum_Inr split: option.splits sum.splits)

lemma py_reserve_ok:
  assumes "py_reserve io W cap dtype shape policy (Finite 0) r = Some (Inr (Some p), q)"
  obtains dt pol w where "reserve W cap dt shape pol 0 r = Some (Inr (Some w), q)"
    "p = \<lparr>pw_writer = Some w, pw_dtype = dt, pw_shape = shape, pw_exports = 0\<rparr>"
  using assms by (auto simp: py_reserve_def round_half_even_def map_sum_Inr split: option.splits sum.splits)

lemma writer_sequence: "writer_commit w r = (p, w', q) \<Longrightarrow> p_sequence p = sw_sequence w"
  by (auto simp: writer_commit_def)

subsection \<open>Properties\<close>

text \<open>
  Claim C28. A \<^verbatim>\<open>with\<close> block fails while a view made in it is alive: after a successful \<^verbatim>\<open>torch\<close> or
  \<^verbatim>\<open>numpy\<close>, whose array keeps the buffer, the exit of the lease and that of the slot writer, clean or
  not, raise \<^verbatim>\<open>BufferError\<close> and leave the lease held and the write open. NumPy and PyTorch are assumed
  to take one buffer in \<^verbatim>\<open>frombuffer\<close> and to keep it through \<^verbatim>\<open>reshape\<close> and \<^verbatim>\<open>from_numpy\<close>.
\<close>

theorem with_block_refuses_live_view:
  assumes lease: "\<And>name a l l'. np_frombuffer N name l = (Inr a, l') \<Longrightarrow> \<exists>fl buf. pl_getbuffer fill fl l = (Inr buf, l')"
      "\<And>shape a b l l'. np_reshape N shape a l = (Inr b, l') \<Longrightarrow> l' = l"
      "\<And>a b l l'. torch_from_numpy N a l = (Inr b, l') \<Longrightarrow> l' = l"
    and writer: "\<And>name a p p'. np_frombuffer M name p = (Inr a, p') \<Longrightarrow> \<exists>fl buf. pw_getbuffer h fill fl p = (Inr buf, p')"
      "\<And>shape a b p p'. np_reshape M shape a p = (Inr b, p') \<Longrightarrow> p' = p"
    and taken: "pl_torch N l = (Inr t, l')" "unat (pl_exports l) + 1 < 2 ^ 64"
      "pw_numpy M p = (Inr v, p')" "unat (pw_exports p) + 1 < 2 ^ 64"
  shows "(\<exists>msg. pl_exit io e c l' r = (Inl (PyBufferError msg), l', r)) \<and> pl_meta l' \<noteq> None \<and>
    (\<forall>raised. \<exists>msg. pw_exit e raised p' r = Some (Inl (PyBufferError msg), p', r)) \<and> pw_writer p' \<noteq> None"
proof -
  have "view_of N dt shape l = (Inr a, l1) \<Longrightarrow> \<exists>fl buf. pl_getbuffer fill fl l = (Inr buf, l1)" for dt shape a l1
    using lease(1,2) by (auto simp: view_of_def split: sum.splits prod.splits) blast
  then have "\<exists>fl buf. pl_getbuffer fill fl l = (Inr buf, l')"
    using taken(1) by (auto simp: pl_torch_def pl_numpy_def split: sum.splits prod.splits) (metis lease(3))
  then have l': "pl_meta l \<noteq> None" "l' = l\<lparr>pl_exports := pl_exports l + 1\<rparr>" by (auto simp: pl_getbuffer_ok)
  have "0 < pl_exports l + 1" using unat_Suc_64 [OF taken(2)] by (simp add: word_less_nat_alt)
  moreover have "\<exists>fl buf. pw_getbuffer h fill fl p = (Inr buf, p')"
    using taken(3) writer by (auto simp: pw_numpy_def view_of_def split: sum.splits prod.splits) blast
  then have p': "pw_writer p \<noteq> None" "p' = p\<lparr>pw_exports := pw_exports p + 1\<rparr>" by (auto simp: pw_getbuffer_ok)
  moreover have "0 < pw_exports p + 1" using unat_Suc_64 [OF taken(4)] by (simp add: word_less_nat_alt)
  ultimately show ?thesis
    using l' p' by (auto simp: pl_exit_def pl_release_def pw_exit_def pw_commit_def pw_abort_def)
qed


text \<open>
  \<^verbatim>\<open>unlink\<close> does not clean the name it is given: for a name that \<^verbatim>\<open>create\<close> and \<^verbatim>\<open>attach\<close> clean to
  another one it succeeds or fails without removing the ring, whose object stays linked.
\<close>

theorem py_unlink_misses:
  assumes posix: "posix_shm K names" and name: "safe_name name = Inr cleaned" "cleaned \<noteq> name"
  shows "names (fst (py_unlink io K name k)) (object_name cleaned) = names k (object_name cleaned)"
proof -
  have "object_name name \<noteq> object_name cleaned" using name(2) by (simp add: object_name_def)
  then show ?thesis
    by (auto simp: py_unlink_def shm_unlink_def cname_Inr split: sum.splits prod.splits option.splits
        dest!: posix_shmD(4) [OF posix] posix_shmD(5) [OF posix])
qed

theorem py_unlink_misses_witness:
  "fst (fst (py_unlink (\<lambda>_. []) (demo_kernel True) (ascii ''a b'') ([object_name (ascii ''a_b'') \<mapsto> 0], 1)))
     (object_name (ascii ''a_b'')) = Some 0"
proof -
  have "safe_name (ascii ''a b'') = Inr (ascii ''a_b'')" "ascii ''a_b'' \<noteq> ascii ''a b''"
    by (simp_all add: safe_name_def ascii_def trim_def is_whitespace_def clean_char_def is_ascii_alphanumeric_def)
  from py_unlink_misses [OF demo_posix this, of "\<lambda>_. []" True] show ?thesis by simp
qed

text \<open>A NumPy that only keeps count, and the two objects it looks at.\<close>

definition counting_leases :: "(py_lease, unit) view_api" where
  "counting_leases =
     \<lparr>np_import = Inr (),
      np_frombuffer = (\<lambda>_ l. case pl_getbuffer (\<lambda>_. None) 0 l of (res, l') \<Rightarrow> (map_sum id (\<lambda>_. ()) res, l')),
      np_reshape = (\<lambda>_ a l. (Inr a, l)), np_copy = (\<lambda>a l. (Inr a, pl_releasebuffer l)),
      torch_import = Inr (), torch_from_numpy = (\<lambda>a l. (Inr a, l))\<rparr>"

definition counting_writers :: "(py_slot_writer, unit) view_api" where
  "counting_writers =
     \<lparr>np_import = Inr (),
      np_frombuffer = (\<lambda>_ p. case pw_getbuffer demo_inner (\<lambda>_. None) 0 p of (res, p') \<Rightarrow> (map_sum id (\<lambda>_. ()) res, p')),
      np_reshape = (\<lambda>_ a p. (Inr a, p)), np_copy = (\<lambda>a p. (Inr a, pw_releasebuffer p)),
      torch_import = Inr (), torch_from_numpy = (\<lambda>a p. (Inr a, p))\<rparr>"

theorem with_block_refuses_live_view_witness:
  "\<exists>l l' msg. pl_torch counting_leases l = (Inr (), l') \<and>
     pl_exit (\<lambda>_. []) (kill_env 9 [7, 9] 1) demo_consumer l' pending_ring = (Inl (PyBufferError msg), l', pending_ring)"
proof -
  let ?l = "\<lparr>pl_meta = Some (meta_of 0 pending_slot U8), pl_ptr = 0, pl_len = 8, pl_exports = 0\<rparr>"
  let ?p = "\<lparr>pw_writer = Some \<lparr>sw_slot = 0, sw_sequence = 1, sw_mask = 1, sw_nbytes = 8, sw_committed = False\<rparr>,
      pw_dtype = U8, pw_shape = [8], pw_exports = 0\<rparr>"
  have l: "pl_torch counting_leases ?l = (Inr (), ?l\<lparr>pl_exports := 1\<rparr>)"
    by (simp add: pl_torch_def pl_numpy_def the_meta_def view_of_def counting_leases_def pl_getbuffer_def)
  have p: "pw_numpy counting_writers ?p = (Inr (), ?p\<lparr>pw_exports := 1\<rparr>)"
    by (simp add: pw_numpy_def view_of_def counting_writers_def pw_getbuffer_def the_writer_def)
  have lease: "\<exists>fl buf. pl_getbuffer (\<lambda>_. None) fl l = (Inr buf, l')"
    if "np_frombuffer counting_leases name l = (Inr a, l')" for name a l l'
    using that by (auto simp: counting_leases_def map_sum_Inr split: prod.splits)
  have writer: "\<exists>fl buf. pw_getbuffer demo_inner (\<lambda>_. None) fl p = (Inr buf, p')"
    if "np_frombuffer counting_writers name p = (Inr a, p')" for name a p p'
    using that by (auto simp: counting_writers_def map_sum_Inr split: prod.splits)
  have "\<exists>msg. pl_exit (\<lambda>_. []) (kill_env 9 [7, 9] 1) demo_consumer (?l\<lparr>pl_exports := 1\<rparr>) pending_ring =
      (Inl (PyBufferError msg), ?l\<lparr>pl_exports := 1\<rparr>, pending_ring)"
    using with_block_refuses_live_view [OF lease _ _ writer _ l _ p] by (simp add: counting_leases_def counting_writers_def)
  with l show ?thesis by blast
qed

text \<open>A NumPy array is its dtype name, shape and bytes.\<close>

definition plain_arrays :: "(string \<times> u32 list \<times> u8 list, string \<times> u32 list \<times> u8 list) array_api" where
  "plain_arrays = \<lparr>np_ascontiguous = Inr, np_dtype = (\<lambda>a. Inr (fst a)), np_shape = (\<lambda>a. Inr (fst (snd a))),
     np_buffer = (\<lambda>a. Inr (snd (snd a)))\<rparr>"


end
