(* ===== verification/Views.thy ===== *)
theory Views
  imports Bindings
begin

text \<open>
  The lease and slot-writer objects of one Python process on a running system. An object carries the
  number of buffers it has exported and not yet got back, which Python keeps: it calls
  \<^verbatim>\<open>__releasebuffer__\<close> once per buffer and frees an object only when no buffer refers to it. Everything
  the other participants do, and what this process does to the ring by other means, is a step of
  \<open>sys_step\<close> that ends no lease held by an object and leaves its slot writer alone; in particular
  this process lives and does not close a consumer with leases out.
\<close>

unbundle bit_operations_syntax

record py_sys =
  q_sys :: sys
  q_leases :: "nat \<Rightarrow> (nat \<times> py_lease \<times> nat) option"
  q_writer :: "(py_slot_writer \<times> nat) option"

fun holds_lease :: "nat \<times> py_lease \<times> nat \<Rightarrow> nat \<times> tensor_meta \<Rightarrow> bool" where
  "holds_lease (i, l, n) (j, m) \<longleftrightarrow> i = j \<and> pl_meta l = Some m"

definition keeps_objects :: "py_sys \<Rightarrow> sys \<Rightarrow> bool" where
  "keeps_objects q y \<longleftrightarrow>
     (\<forall>p n w. q_writer q = Some (p, n) \<longrightarrow> pw_writer p = Some w \<longrightarrow> y_writer y = y_writer (q_sys q)) \<and>
     (\<forall>k ob j m b. q_leases q k = Some ob \<longrightarrow> holds_lease ob (j, m) \<longrightarrow>
        (j, m, b) \<in> y_leases (q_sys q) \<longrightarrow> (j, m, b) \<in> y_leases y)"

inductive py_step :: "(io_error \<Rightarrow> string) \<Rightarrow> (nat \<Rightarrow> py_exc option) \<Rightarrow> inner \<Rightarrow> py_sys \<Rightarrow> py_sys \<Rightarrow> bool"
  for io fill h where
  q_others:
    "sys_step (i_slot_capacity h) (q_sys q) y \<Longrightarrow> keeps_objects q y \<Longrightarrow>
     py_step io fill h q (q\<lparr>q_sys := y\<rparr>)"
| q_next:
    "q_leases q k = None \<Longrightarrow> y_cons (q_sys q) i = Some c \<Longrightarrow> w_start W \<le> w_now W 0 \<Longrightarrow>
     py_next io h W c (Finite 0) (y_ring (q_sys q)) = Some (Inr l, c', r) \<Longrightarrow> pl_meta l = Some m \<Longrightarrow>
     py_step io fill h q
       (q\<lparr>q_sys := (q_sys q)\<lparr>y_ring := r, y_cons := (y_cons (q_sys q))(i := Some c'),
            y_leases := insert (i, m, lease_data m r) (y_leases (q_sys q)),
            y_got := (y_got (q_sys q))(i := y_got (q_sys q) i @ [(m_sequence m, lease_data m r)])\<rparr>,
          q_leases := (q_leases q)(k := Some (i, l, 0))\<rparr>)"
| q_export:
    "q_leases q k = Some (i, l, n) \<Longrightarrow> n + 1 < 2 ^ 64 \<Longrightarrow> pl_getbuffer fill flags l = (Inr buf, l') \<Longrightarrow>
     py_step io fill h q (q\<lparr>q_leases := (q_leases q)(k := Some (i, l', n + 1))\<rparr>)"
| q_unexport:
    "q_leases q k = Some (i, l, n + 1) \<Longrightarrow>
     py_step io fill h q (q\<lparr>q_leases := (q_leases q)(k := Some (i, pl_releasebuffer l, n))\<rparr>)"
| q_release:
    "q_leases q k = Some (i, l, n) \<Longrightarrow> y_cons (q_sys q) i = Some c \<Longrightarrow>
     pl_release io e c l (y_ring (q_sys q)) = (res, l', r) \<Longrightarrow>
     py_step io fill h q
       (q\<lparr>q_sys := (q_sys q)\<lparr>y_ring := r, y_leases := y_leases (q_sys q) -
            {(i, m, b) | m b. pl_meta l = Some m \<and> pl_meta l' = None}\<rparr>,
          q_leases := (q_leases q)(k := Some (i, l', n))\<rparr>)"
| q_free:
    "q_leases q k = Some (i, l, 0) \<Longrightarrow> y_cons (q_sys q) i = Some c \<Longrightarrow>
     py_step io fill h q
       (q\<lparr>q_sys := (q_sys q)\<lparr>y_ring := pl_drop e c l (y_ring (q_sys q)), y_leases := y_leases (q_sys q) -
            {(i, m, b) | m b. pl_meta l = Some m}\<rparr>,
          q_leases := (q_leases q)(k := None)\<rparr>)"
| q_reserve:
    "y_writer (q_sys q) = None \<Longrightarrow> y_count (q_sys q) < 2 ^ 63 - 3 \<Longrightarrow> truthful (w_env W 0) (q_sys q) \<Longrightarrow>
     w_start W \<le> w_now W 0 \<Longrightarrow>
     py_reserve io W (i_slot_capacity h) dtype shape policy (Finite 0) (y_ring (q_sys q)) = Some (Inr (Some p), r) \<Longrightarrow>
     py_step io fill h q
       (q\<lparr>q_sys := (q_sys q)\<lparr>y_ring := r, y_count := y_count (q_sys q) + 1, y_writer := pw_writer p,
            y_due := dom (y_cons (q_sys q))\<rparr>,
          q_writer := Some (p, 0)\<rparr>)"
| q_view:
    "q_writer q = Some (p, n) \<Longrightarrow> n + 1 < 2 ^ 64 \<Longrightarrow> pw_getbuffer h fill flags p = (Inr buf, p') \<Longrightarrow>
     py_step io fill h q (q\<lparr>q_writer := Some (p', n + 1)\<rparr>)"
| q_unview:
    "q_writer q = Some (p, n + 1) \<Longrightarrow>
     py_step io fill h q (q\<lparr>q_writer := Some (pw_releasebuffer p, n)\<rparr>)"
| q_commit:
    "q_writer q = Some (p, n) \<Longrightarrow> pw_writer p = Some w \<Longrightarrow> pw_commit p (y_ring (q_sys q)) = (res, p', r) \<Longrightarrow>
     py_step io fill h q
       (q\<lparr>q_sys := if pw_writer p' = None
          then (q_sys q)\<lparr>y_ring := r, y_writer := None,
            y_sent := (\<lambda>i. if i \<in> y_due (q_sys q) \<and> y_cons (q_sys q) i \<noteq> None
              then y_sent (q_sys q) i @ [(sw_sequence w, writer_payload w (y_ring (q_sys q)))]
              else y_sent (q_sys q) i)\<rparr>
          else q_sys q,
          q_writer := Some (p', n)\<rparr>)"
| q_abort:
    "q_writer q = Some (p, n) \<Longrightarrow> pw_writer p = Some w \<Longrightarrow> dom (y_cons (q_sys q)) \<subseteq> y_due (q_sys q) \<Longrightarrow>
     pw_abort e p (y_ring (q_sys q)) = Some (res, p', r) \<Longrightarrow>
     py_step io fill h q
       (q\<lparr>q_sys := (q_sys q)\<lparr>y_ring := r, y_writer := pw_writer p'\<rparr>, q_writer := Some (p', n)\<rparr>)"

fun object_ok :: "sys \<Rightarrow> nat \<times> py_lease \<times> nat \<Rightarrow> bool" where
  "object_ok y (i, l, n) \<longleftrightarrow>
     unat (pl_exports l) = n \<and> (pl_meta l = None \<longrightarrow> n = 0) \<and>
     (\<forall>m. pl_meta l = Some m \<longrightarrow> (\<exists>b. (i, m, b) \<in> y_leases y))"

definition lease_objects :: "py_sys \<Rightarrow> bool" where
  "lease_objects q \<longleftrightarrow>
     (\<forall>k ob. q_leases q k = Some ob \<longrightarrow> object_ok (q_sys q) ob) \<and>
     (\<forall>k k' ob ob' x. q_leases q k = Some ob \<longrightarrow> q_leases q k' = Some ob' \<longrightarrow>
        holds_lease ob x \<longrightarrow> holds_lease ob' x \<longrightarrow> k = k')"

definition writer_object :: "py_sys \<Rightarrow> bool" where
  "writer_object q \<longleftrightarrow>
     (\<forall>p n. q_writer q = Some (p, n) \<longrightarrow>
        unat (pw_exports p) = n \<and> (pw_writer p = None \<longrightarrow> n = 0) \<and>
        (\<forall>w. pw_writer p = Some w \<longrightarrow> y_writer (q_sys q) = Some w))"

definition py_inv :: "inner \<Rightarrow> py_sys \<Rightarrow> bool" where
  "py_inv h q \<longleftrightarrow> sys_inv (i_slot_capacity h) (q_sys q) \<and> lease_objects q \<and> writer_object q"

text \<open>A lease that is taken now is not held yet.\<close>

lemma taken_fresh:
  assumes inv: "sys_inv cap y" and c: "y_cons y i = Some c" and clock: "w_start W \<le> w_now W 0"
    and op: "next_raw W cap c 0 (y_ring y) = Some (Inr m, c', q)"
  shows "(i, m, b) \<notin> y_leases y"
proof
  assume l: "(i, m, b) \<in> y_leases y"
  have leases: "leases_inv y" using inv by (simp add: sys_inv_def)
  obtain d where "y_cons y i = Some d" "lease_inv (y_ring y) d m b" by (rule leaseE [OF leases l])
  with c have "\<not> seq_newer (m_sequence m) (c_last_sequence c)" by (simp add: lease_inv_def)
  with try_take_any [OF next_raw_still(1) [OF clock op]] show False by simp
qed

subsection \<open>The invariant of the objects\<close>

lemma lease_objectD:
  assumes "lease_objects q" "q_leases q k = Some ob"
  shows "object_ok (q_sys q) ob"
    "q_leases q k' = Some ob' \<Longrightarrow> holds_lease ob x \<Longrightarrow> holds_lease ob' x \<Longrightarrow> k' = k"
  using assms unfolding lease_objects_def by blast+

lemma object_ok_keep:
  assumes "object_ok y ob"
    and "\<And>j m b. holds_lease ob (j, m) \<Longrightarrow> (j, m, b) \<in> y_leases y \<Longrightarrow> (j, m, b) \<in> y_leases z"
  shows "object_ok z ob"
proof -
  obtain i l n where ob: "ob = (i, l, n)" by (cases ob)
  have "\<exists>b. (i, m, b) \<in> y_leases z" if "pl_meta l = Some m" for m
    using assms that ob by (metis holds_lease.simps object_ok.simps)
  with assms(1) show ?thesis by (simp add: ob)
qed

text \<open>One object changes; the others keep their leases, and none of them has the lease of this one.\<close>

lemma lease_objects_update:
  assumes obj: "lease_objects q"
    and keep: "\<And>k' ob j m b. k' \<noteq> k \<Longrightarrow> q_leases q k' = Some ob \<Longrightarrow> holds_lease ob (j, m) \<Longrightarrow>
      (j, m, b) \<in> y_leases (q_sys q) \<Longrightarrow> (j, m, b) \<in> y_leases y"
    and new: "\<And>ob. new = Some ob \<Longrightarrow> object_ok y ob"
    and own: "\<And>k' ob ob' x. k' \<noteq> k \<Longrightarrow> q_leases q k' = Some ob' \<Longrightarrow> holds_lease ob' x \<Longrightarrow>
      new = Some ob \<Longrightarrow> holds_lease ob x \<Longrightarrow> False"
  shows "lease_objects (q\<lparr>q_sys := y, q_leases := (q_leases q)(k := new)\<rparr>)" (is "lease_objects ?q")
proof -
  have ok: "object_ok y ob" if "q_leases ?q k' = Some ob" for k' ob
  proof (cases "k' = k")
    case True
    with that new show ?thesis by simp
  next
    case False
    with that have old: "q_leases q k' = Some ob" by simp
    show ?thesis by (rule object_ok_keep [OF lease_objectD(1) [OF obj old]]) (rule keep [OF False old])
  qed
  have uniq: "k1 = k2" if q: "q_leases ?q k1 = Some ob1" "q_leases ?q k2 = Some ob2"
    and x: "holds_lease ob1 x" "holds_lease ob2 x" for k1 k2 ob1 ob2 x
  proof (cases "k1 = k"; cases "k2 = k")
    assume "k1 = k" "k2 \<noteq> k"
    with q own [of k2 ob2 x ob1] x show ?thesis by simp
  next
    assume "k1 \<noteq> k" "k2 = k"
    with q own [of k1 ob1 x ob2] x show ?thesis by simp
  next
    assume "k1 \<noteq> k" "k2 \<noteq> k"
    with q have "q_leases q k1 = Some ob1" "q_leases q k2 = Some ob2" by simp_all
    from lease_objectD(2) [OF obj this(2,1) x(2,1)] show ?thesis .
  qed simp
  show ?thesis
    unfolding lease_objects_def
  proof (intro conjI allI impI)
    fix k' ob assume "q_leases ?q k' = Some ob"
    from ok [OF this] show "object_ok (q_sys ?q) ob" by simp
  qed (rule uniq)
qed

lemma lease_objects_keep:
  assumes obj: "lease_objects q"
    and keep: "\<And>k ob j m b. q_leases q k = Some ob \<Longrightarrow> holds_lease ob (j, m) \<Longrightarrow>
      (j, m, b) \<in> y_leases (q_sys q) \<Longrightarrow> (j, m, b) \<in> y_leases y"
    and same: "q_leases q' = q_leases q" "q_sys q' = y"
  shows "lease_objects q'"
  unfolding lease_objects_def same
proof (intro conjI allI impI)
  fix k ob assume "q_leases q k = Some ob"
  then show "object_ok y ob" using lease_objectD(1) [OF obj] keep by (blast intro: object_ok_keep)
next
  fix k k' ob ob' x
  assume "q_leases q k = Some ob" "q_leases q k' = Some ob'" "holds_lease ob x" "holds_lease ob' x"
  then show "k = k'" using lease_objectD(2) [OF obj] by blast
qed

text \<open>Exports of one object change, its lease does not.\<close>

lemma lease_objects_count:
  assumes obj: "lease_objects q" and k: "q_leases q k = Some (i, l, n)"
    and l': "pl_meta l' = pl_meta l" "unat (pl_exports l') = n'" "pl_meta l = None \<Longrightarrow> n' = 0"
  shows "lease_objects (q\<lparr>q_leases := (q_leases q)(k := Some (i, l', n'))\<rparr>)"
proof -
  have "lease_objects (q\<lparr>q_sys := q_sys q, q_leases := (q_leases q)(k := Some (i, l', n'))\<rparr>)"
  proof (rule lease_objects_update [OF obj])
    show "object_ok (q_sys q) ob" if "Some (i, l', n') = Some ob" for ob
      using that lease_objectD(1) [OF obj k] l' by auto
    show False if "k' \<noteq> k" "q_leases q k' = Some ob'" "holds_lease ob' x" "Some (i, l', n') = Some ob" "holds_lease ob x"
      for k' ob ob' x
    proof -
      have "holds_lease (i, l, n) x" using that(4,5) l'(1) by (cases x) auto
      from lease_objectD(2) [OF obj k that(2) this that(3)] that(1) show False by simp
    qed
  qed
  then show ?thesis by simp
qed

text \<open>One object loses its lease, or takes a new one.\<close>

lemma lease_objects_lose:
  fixes new :: "(nat \<times> py_lease \<times> nat) option"
  assumes obj: "lease_objects q" and k: "q_leases q k = Some (i, l, n)" "pl_meta l = Some m"
    and leases: "\<And>j m' b. (j, m', b) \<in> y_leases (q_sys q) \<Longrightarrow> (j, m') \<noteq> (i, m) \<Longrightarrow> (j, m', b) \<in> y_leases y"
    and new: "\<And>ob. new = Some ob \<Longrightarrow> \<exists>l'. ob = (i, l', 0) \<and> pl_meta l' = None \<and> pl_exports l' = 0"
  shows "lease_objects (q\<lparr>q_sys := y, q_leases := (q_leases q)(k := new)\<rparr>)"
proof (rule lease_objects_update [OF obj])
  fix k' ob j m' b
  assume a: "k' \<noteq> k" "q_leases q k' = Some ob" "holds_lease ob (j, m')" "(j, m', b) \<in> y_leases (q_sys q)"
  have "(j, m') \<noteq> (i, m)"
  proof
    assume "(j, m') = (i, m)"
    with k(2) have "holds_lease (i, l, n) (j, m')" by simp
    from lease_objectD(2) [OF obj k(1) a(2) this a(3)] a(1) show False by simp
  qed
  with leases a(4) show "(j, m', b) \<in> y_leases y" by blast
next
  fix ob assume "new = Some ob"
  from new [OF this] show "object_ok y ob" by auto
next
  fix k' ob ob' x assume "new = Some ob" "holds_lease ob x"
  then show False using new [of ob] by (cases x) auto
qed

lemma lease_objects_take:
  assumes obj: "lease_objects q" and fresh: "\<And>b. (i, m, b) \<notin> y_leases (q_sys q)"
    and l: "pl_meta l = Some m" "pl_exports l = 0" and y: "y_leases y = insert (i, m, b) (y_leases (q_sys q))"
  shows "lease_objects (q\<lparr>q_sys := y, q_leases := (q_leases q)(k := Some (i, l, 0))\<rparr>)"
proof (rule lease_objects_update [OF obj])
  fix ob :: "nat \<times> py_lease \<times> nat" assume "Some (i, l, 0) = Some ob"
  then show "object_ok y ob" using l y by auto
next
  fix k' ob ob' x
  assume a: "q_leases q k' = Some ob'" "holds_lease ob' x" "Some (i, l, 0) = Some ob" "holds_lease ob x"
  then have "x = (i, m)" using l(1) by (cases x) auto
  with lease_objectD(1) [OF obj a(1)] a(2) fresh show False by (cases ob') auto
qed (use y in simp)

lemma writer_objectD:
  assumes "writer_object q" "q_writer q = Some (p, n)"
  shows "unat (pw_exports p) = n" "pw_writer p = None \<Longrightarrow> n = 0"
    "pw_writer p = Some w \<Longrightarrow> y_writer (q_sys q) = Some w"
  using assms unfolding writer_object_def by blast+

lemma writer_object_keep:
  assumes "writer_object q" "q_writer q' = q_writer q" "y_writer (q_sys q') = y_writer (q_sys q)"
  shows "writer_object q'"
  using assms by (simp add: writer_object_def)

lemma release_step_inv:
  assumes inv: "py_inv h q" and k: "q_leases q k = Some (i, l, n)" and c: "y_cons (q_sys q) i = Some c"
    and m: "pl_meta l = Some m" "pl_exports l = 0" and op: "consumer_release e c m (y_ring (q_sys q)) = (res, r)"
    and new: "new = None \<or> new = Some (i, l\<lparr>pl_meta := None\<rparr>, 0)"
  shows "py_inv h (q\<lparr>q_sys := (q_sys q)\<lparr>y_ring := r,
      y_leases := y_leases (q_sys q) - {(i, m, b) | b. True}\<rparr>, q_leases := (q_leases q)(k := new)\<rparr>)"
    (is "py_inv h (q\<lparr>q_sys := ?y, q_leases := _\<rparr>)")
proof -
  have obj: "lease_objects q" and sys: "sys_inv (i_slot_capacity h) (q_sys q)" and w: "writer_object q"
    using inv by (simp_all add: py_inv_def)
  obtain b where b: "(i, m, b) \<in> y_leases (q_sys q)" using lease_objectD(1) [OF obj k] m(1) by auto
  have "leases_inv (q_sys q)" using sys by (simp add: sys_inv_def)
  from leases_uniq [OF this b] have "{(i, m, b') | b'. True} \<inter> y_leases (q_sys q) = {(i, m, b)}"
    using b by blast
  then have "y_leases (q_sys q) - {(i, m, b') | b'. True} = y_leases (q_sys q) - {(i, m, b)}" by blast
  then have "sys_inv (i_slot_capacity h) ?y"
    using release_inv [OF sys b c op] by simp
  moreover have "lease_objects (q\<lparr>q_sys := ?y, q_leases := (q_leases q)(k := new)\<rparr>)"
    by (rule lease_objects_lose [OF obj k m(1)]) (use new m in auto)
  moreover have "writer_object (q\<lparr>q_sys := ?y, q_leases := (q_leases q)(k := new)\<rparr>)"
    by (rule writer_object_keep [OF w]) simp_all
  ultimately show ?thesis by (simp add: py_inv_def)
qed


lemma py_step_inv: "py_step io fill h q q' \<Longrightarrow> py_inv h q \<Longrightarrow> py_inv h q'"
proof (induction rule: py_step.induct)
  case (q_others q y)
  then have keep: "keeps_objects q y" and obj: "lease_objects q" and w: "writer_object q"
    by (simp_all add: py_inv_def)
  have "lease_objects (q\<lparr>q_sys := y\<rparr>)"
  proof (rule lease_objects_keep [OF obj])
    fix k ob j m b
    assume "q_leases q k = Some ob" "holds_lease ob (j, m)" "(j, m, b) \<in> y_leases (q_sys q)"
    with keep show "(j, m, b) \<in> y_leases y" unfolding keeps_objects_def by blast
  qed simp_all
  moreover have "writer_object (q\<lparr>q_sys := y\<rparr>)"
    using w keep by (simp add: writer_object_def keeps_objects_def)
  ultimately show ?case using q_others sys_step_inv by (simp add: py_inv_def)
next
  case (q_next q k i c W l c' r m)
  then have inv: "sys_inv (i_slot_capacity h) (q_sys q)" "lease_objects q" "writer_object q"
    by (simp_all add: py_inv_def)
  obtain m' where m': "next_raw W (i_slot_capacity h) c 0 (y_ring (q_sys q)) = Some (Inr m', c', r)"
    "l = \<lparr>pl_meta = Some m', pl_ptr = payload_ptr h (m_slot_index m'), pl_len = m_nbytes m', pl_exports = 0\<rparr>"
    by (rule py_next_ok [OF q_next(4)])
  with q_next(5) have "m' = m" by simp
  note op = m'(1) [unfolded this]
  have "sys_inv (i_slot_capacity h) ((q_sys q)\<lparr>y_ring := r, y_cons := (y_cons (q_sys q))(i := Some c'),
      y_leases := insert (i, m, lease_data m r) (y_leases (q_sys q)),
      y_got := (y_got (q_sys q))(i := y_got (q_sys q) i @ [(m_sequence m, lease_data m r)])\<rparr>)"
    by (rule take_inv [OF inv(1) q_next(2,3) op])
  moreover have "lease_objects (q\<lparr>q_sys := (q_sys q)\<lparr>y_ring := r, y_cons := (y_cons (q_sys q))(i := Some c'),
      y_leases := insert (i, m, lease_data m r) (y_leases (q_sys q)),
      y_got := (y_got (q_sys q))(i := y_got (q_sys q) i @ [(m_sequence m, lease_data m r)])\<rparr>,
      q_leases := (q_leases q)(k := Some (i, l, 0))\<rparr>)"
    by (rule lease_objects_take [OF inv(2) taken_fresh [OF inv(1) q_next(2,3) op] q_next(5)]) (simp_all add: m'(2))
  ultimately show ?case using writer_object_keep [OF inv(3)] by (simp add: py_inv_def)
next
  case (q_export q k i l n flags buf l')
  then have obj: "lease_objects q" and w: "writer_object q" by (simp_all add: py_inv_def)
  have n: "unat (pl_exports l) = n" using lease_objectD(1) [OF obj q_export(1)] by simp
  have "lease_objects (q\<lparr>q_leases := (q_leases q)(k := Some (i, l', n + 1))\<rparr>)"
    by (rule lease_objects_count [OF obj q_export(1)])
      (use q_export(2,3) n unat_Suc_64 [of "pl_exports l"] in \<open>auto simp: pl_getbuffer_ok\<close>)
  then show ?case using q_export writer_object_keep [OF w] by (simp add: py_inv_def)
next
  case (q_unexport q k i l n)
  then have obj: "lease_objects q" and w: "writer_object q" by (simp_all add: py_inv_def)
  have n: "unat (pl_exports l) = n + 1" "pl_meta l \<noteq> None" using lease_objectD(1) [OF obj q_unexport(1)] by auto
  have "lease_objects (q\<lparr>q_leases := (q_leases q)(k := Some (i, pl_releasebuffer l, n))\<rparr>)"
    by (rule lease_objects_count [OF obj q_unexport(1)])
      (use n unat_saturating [OF n(1)] in \<open>auto simp: pl_releasebuffer_def\<close>)
  then show ?case using q_unexport writer_object_keep [OF w] by (simp add: py_inv_def)
next
  case (q_release q k i l n c e res l' r)
  from q_release(3) show ?case
  proof (cases rule: pl_release_cases)
    case gone
    then have "{(i, m, b) | m b. pl_meta l = Some m \<and> pl_meta l' = None} = {}" by auto
    with gone q_release(1,4) show ?thesis by (simp add: fun_upd_idem)
  next
    case (viewed m)
    then have "{(i, m, b) | m b. pl_meta l = Some m \<and> pl_meta l' = None} = {}" by auto
    with viewed q_release(1,4) show ?thesis by (simp add: fun_upd_idem)
  next
    case (freed m r')
    have "lease_objects q" using q_release(4) by (simp add: py_inv_def)
    then have n: "n = 0" using lease_objectD(1) [OF _ q_release(1)] freed by simp
    have sets: "{(i, m, b) | m b. pl_meta l = Some m \<and> pl_meta l' = None} = {(i, m, b) | b. True}"
      using freed by auto
    show ?thesis
      unfolding sets n using release_step_inv [OF q_release(4,1,2) freed(1,2,3), of "Some (i, l', 0)"] freed(5) by simp
  qed
next
  case (q_free q k i l c e)
  have obj: "lease_objects q" using q_free(3) by (simp add: py_inv_def)
  show ?case
  proof (cases "pl_meta l")
    case None
    have "lease_objects (q\<lparr>q_sys := q_sys q, q_leases := (q_leases q)(k := None)\<rparr>)"
      by (rule lease_objects_update [OF obj]) simp_all
    with None q_free(3) show ?thesis
      by (simp add: py_inv_def pl_drop_def writer_object_def)
  next
    case (Some m)
    have none: "pl_exports l = 0" using lease_objectD(1) [OF obj q_free(1)] by (simp add: unat_eq_0)
    obtain res r where op: "consumer_release e c m (y_ring (q_sys q)) = (res, r)" by force
    have sets: "{(i, m, b) | m b. pl_meta l = Some m} = {(i, m, b) | b. True}" using Some by auto
    show ?thesis
      unfolding sets using release_step_inv [OF q_free(3,1,2) Some none op, of None] Some op by (simp add: pl_drop_def)
  qed
next
  case (q_reserve q W dtype shape policy p r)
  then have inv: "sys_inv (i_slot_capacity h) (q_sys q)" "lease_objects q" by (simp_all add: py_inv_def)
  obtain dt pol w where w: "reserve W (i_slot_capacity h) dt shape pol 0 (y_ring (q_sys q)) = Some (Inr (Some w), r)"
    "p = \<lparr>pw_writer = Some w, pw_dtype = dt, pw_shape = shape, pw_exports = 0\<rparr>"
    by (rule py_reserve_ok [OF q_reserve(5)])
  have "sys_inv (i_slot_capacity h) ((q_sys q)\<lparr>y_ring := r, y_count := y_count (q_sys q) + 1, y_writer := Some w,
      y_due := dom (y_cons (q_sys q))\<rparr>)"
    by (rule sys_step_inv [OF s_reserve [OF q_reserve(1-4) w(1)] inv(1)])
  moreover have "lease_objects (q\<lparr>q_sys := (q_sys q)\<lparr>y_ring := r, y_count := y_count (q_sys q) + 1,
      y_writer := pw_writer p, y_due := dom (y_cons (q_sys q))\<rparr>, q_writer := Some (p, 0)\<rparr>)"
    by (rule lease_objects_keep [OF inv(2)]) simp_all
  ultimately show ?case by (simp add: py_inv_def writer_object_def w(2))
next
  case (q_view q p n flags buf p')
  then have wo: "writer_object q" and obj: "lease_objects q" by (simp_all add: py_inv_def)
  note p = writer_objectD [OF wo q_view(1)]
  have "writer_object (q\<lparr>q_writer := Some (p', n + 1)\<rparr>)"
    using q_view(2,3) p unat_Suc_64 [of "pw_exports p"] by (auto simp: writer_object_def pw_getbuffer_ok)
  moreover have "lease_objects (q\<lparr>q_writer := Some (p', n + 1)\<rparr>)"
    by (rule lease_objects_keep [OF obj]) simp_all
  ultimately show ?case using q_view by (simp add: py_inv_def)
next
  case (q_unview q p n)
  then have wo: "writer_object q" and obj: "lease_objects q" by (simp_all add: py_inv_def)
  note p = writer_objectD [OF wo q_unview(1)]
  have "writer_object (q\<lparr>q_writer := Some (pw_releasebuffer p, n)\<rparr>)"
    using p unat_saturating [OF p(1)] by (auto simp: writer_object_def pw_releasebuffer_def)
  moreover have "lease_objects (q\<lparr>q_writer := Some (pw_releasebuffer p, n)\<rparr>)"
    by (rule lease_objects_keep [OF obj]) simp_all
  ultimately show ?case using q_unview by (simp add: py_inv_def)
next
  case (q_commit q p n w res p' r)
  then have inv: "sys_inv (i_slot_capacity h) (q_sys q)" "lease_objects q" "writer_object q" by (simp_all add: py_inv_def)
  note p = writer_objectD [OF inv(3) q_commit(1)]
  from q_commit(3,2) show ?case
  proof (cases rule: pw_commit_cases)
    case viewed
    have "q\<lparr>q_sys := q_sys q, q_writer := Some (p', n)\<rparr> = q"
      using viewed q_commit(1) by (intro py_sys.equality) simp_all
    with viewed q_commit(2,4) show ?thesis by simp
  next
    case ended
    have "n = 0" using p(1) ended(1) by simp
    have "sys_inv (i_slot_capacity h) ((q_sys q)\<lparr>y_ring := r, y_writer := None,
        y_sent := (\<lambda>i. if i \<in> y_due (q_sys q) \<and> y_cons (q_sys q) i \<noteq> None
          then y_sent (q_sys q) i @ [(sw_sequence w, writer_payload w (y_ring (q_sys q)))]
          else y_sent (q_sys q) i)\<rparr>)"
      unfolding ended(3) by (rule commit_inv [OF inv(1) p(3) [OF q_commit(2)]])
    moreover have "lease_objects (q\<lparr>q_sys := (q_sys q)\<lparr>y_ring := r, y_writer := None,
        y_sent := (\<lambda>i. if i \<in> y_due (q_sys q) \<and> y_cons (q_sys q) i \<noteq> None
          then y_sent (q_sys q) i @ [(sw_sequence w, writer_payload w (y_ring (q_sys q)))]
          else y_sent (q_sys q) i)\<rparr>, q_writer := Some (p', n)\<rparr>)"
      by (rule lease_objects_keep [OF inv(2)]) simp_all
    ultimately show ?thesis
      using ended(1,2) \<open>n = 0\<close> by (simp add: py_inv_def writer_object_def)
  qed
next
  case (q_abort q p n w e res p' r)
  then have inv: "sys_inv (i_slot_capacity h) (q_sys q)" "lease_objects q" "writer_object q" by (simp_all add: py_inv_def)
  note p = writer_objectD [OF inv(3) q_abort(1)]
  from q_abort(4,2) show ?case
  proof (cases rule: pw_abort_cases)
    case viewed
    have same: "(q_sys q)\<lparr>y_ring := r, y_writer := pw_writer p'\<rparr> = q_sys q"
      using viewed p(3) [OF q_abort(2)] q_abort(2) by (intro sys.equality) simp_all
    have "q\<lparr>q_sys := q_sys q, q_writer := Some (p', n)\<rparr> = q"
      using viewed q_abort(1) by (intro py_sys.equality) simp_all
    with q_abort(5) show ?thesis unfolding same by simp
  next
    case ended
    have "n = 0" using p(1) ended(1) by simp
    obtain w' where "writer_abort e w (y_ring (q_sys q)) = Some (w', r)" using ended(3) by blast
    from sys_step_inv [OF s_abort [OF p(3) [OF q_abort(2)] q_abort(3) this] inv(1)]
    have "sys_inv (i_slot_capacity h) ((q_sys q)\<lparr>y_ring := r, y_writer := None\<rparr>)" .
    moreover have "lease_objects (q\<lparr>q_sys := (q_sys q)\<lparr>y_ring := r, y_writer := pw_writer p'\<rparr>, q_writer := Some (p', n)\<rparr>)"
      by (rule lease_objects_keep [OF inv(2)]) simp_all
    ultimately show ?thesis
      using ended(1,2) \<open>n = 0\<close> by (simp add: py_inv_def writer_object_def)
  qed
qed

interpretation py_run: preserved_by "py_step io fill h" "py_inv h" for io fill h
  by unfold_locales (rule py_step_inv)

text \<open>A process without objects on a fresh ring, and the runs of the others alone.\<close>

definition py_start :: "inner \<Rightarrow> py_sys" where
  "py_start h = \<lparr>q_sys = sys_start h, q_leases = (\<lambda>_. None), q_writer = None\<rparr>"

lemma py_inv_start: "unat (i_slot_capacity h) + 192 \<le> 2 ^ 64 \<Longrightarrow> py_inv h (py_start h)"
  by (simp add: py_inv_def py_start_def sys_inv_start lease_objects_def writer_object_def)

lemma py_reachable_inv:
  assumes "(py_step io fill h)\<^sup>*\<^sup>* (py_start h) q" "unat (i_slot_capacity h) + 192 \<le> 2 ^ 64"
  shows "py_inv h q"
  by (rule py_run.run_from_inv [OF py_inv_start [OF assms(2)] assms(1)])

lemma py_lift:
  assumes "(sys_step (i_slot_capacity h))\<^sup>*\<^sup>* y z"
  shows "(py_step io fill h)\<^sup>*\<^sup>* \<lparr>q_sys = y, q_leases = (\<lambda>_. None), q_writer = None\<rparr>
    \<lparr>q_sys = z, q_leases = (\<lambda>_. None), q_writer = None\<rparr>"
  using assms
proof (induction rule: rtranclp_induct)
  case (step z z')
  have "py_step io fill h \<lparr>q_sys = z, q_leases = (\<lambda>_. None), q_writer = None\<rparr>
      (\<lparr>q_sys = z, q_leases = (\<lambda>_. None), q_writer = None\<rparr>\<lparr>q_sys := z'\<rparr>)"
    by (rule q_others) (simp_all add: step(2) keeps_objects_def)
  with step.IH show ?case by simp
qed simp

subsection \<open>Properties\<close>





end
