(* ===== verification/Bridge.thy ===== *)
theory Bridge
  imports SlotSteps System
begin

text \<open>
  The TenzorPipe bridge, \<^verbatim>\<open>integration/bridge/src/main.rs\<close>: the sink that lets the engine decode
  straight into a reserved slot or copies the engine's tensor, and the command line of the program.
  The engine is not in the repository: it is whoever calls the three methods of the sink, in any
  order. An \<^verbatim>\<open>f32\<close> is its bit pattern; its addition, used by the negative control alone, is a
  parameter. A value that goes out of scope is dropped: an unwinding or a replaced \<^verbatim>\<open>SlotWriter\<close> gives
  its slot back. The outer \<open>None\<close> is a call that never returns, as in the ring.
\<close>

unbundle bit_operations_syntax

datatype failure = Bail string | Panic string

record bus_sink =
  bs_shape :: "u32 list"
  bs_len :: usize
  bs_timeout :: nat
  bs_direct :: bool
  bs_pending :: "slot_writer option"
  bs_published :: u64
  bs_destinations_taken :: u64
  bs_copied :: u64
  bs_slot_trace :: "(u64 \<times> nat) list"
  bs_corrupt_epoch :: "usize option"
  bs_first_sequence :: "u64 option"
  bs_last_sequence :: u64

definition bus_sink_new :: "usize \<Rightarrow> bool \<Rightarrow> nat \<Rightarrow> bus_sink" where
  "bus_sink_new resolution direct timeout =
     (let r = ucast resolution
      in \<lparr>bs_shape = [3, r, r], bs_len = 3 * resolution * resolution, bs_timeout = timeout, bs_direct = direct,
          bs_pending = None, bs_published = 0, bs_destinations_taken = 0, bs_copied = 0, bs_slot_trace = [],
          bs_corrupt_epoch = None, bs_first_sequence = None, bs_last_sequence = 0\<rparr>)"

definition record_slot :: "u64 \<Rightarrow> nat \<Rightarrow> bus_sink \<Rightarrow> bus_sink" where
  "record_slot sequence slot b = b\<lparr>bs_slot_trace := bs_slot_trace b @ [(sequence, slot)]\<rparr>"

definition record_sequence :: "u64 \<Rightarrow> bus_sink \<Rightarrow> bus_sink" where
  "record_sequence sequence b =
     (let b1 = (if bs_first_sequence b = None then b\<lparr>bs_first_sequence := Some sequence\<rparr> else b);
          b2 = b1\<lparr>bs_last_sequence := sequence\<rparr>
      in b2\<lparr>bs_published := bs_published b2 + 1\<rparr>)"

text \<open>\<^verbatim>\<open>pts.max(0) as u64 * 1_000_000\<close> for a 64-bit signed \<^verbatim>\<open>pts\<close>.\<close>

definition media_ns :: "64 word \<Rightarrow> u64" where
  "media_ns pts = (if sint pts < 0 then 0 else pts) * 1000000"

definition no_slot :: failure where
  "no_slot = Bail ''ring had no reclaimable slot within the publish timeout''"

definition drop_pending :: "env \<Rightarrow> slot_writer option \<Rightarrow> ring \<Rightarrow> ring option" where
  "drop_pending e held r = (case held of None \<Rightarrow> Some r | Some w \<Rightarrow> writer_drop e w r)"

definition video_destination ::
  "(io_error \<Rightarrow> string) \<Rightarrow> waits \<Rightarrow> env \<Rightarrow> usize \<Rightarrow> usize \<Rightarrow> 64 word \<Rightarrow> usize \<Rightarrow> bus_sink \<Rightarrow> ring \<Rightarrow>
   ((failure + slot_writer option) \<times> bus_sink \<times> ring) option" where
  "video_destination io W e cap epoch pts len b r =
     (if \<not> bs_direct b then Some (Inr None, b, r)
      else if len \<noteq> bs_len b
      then Some (Inl (Bail (''engine asked for '' @ dec (unat len) @ '' floats, ring slots hold '' @
             dec (unat (bs_len b)))), b, r)
      else
        (case reserve W cap F32 (bs_shape b) Block (bs_timeout b) r of
           None \<Rightarrow> None
         | Some (Inl err, q) \<Rightarrow> Some (Inl (Bail (''reserve a TenzorBus slot: '' @ display io err)), b, q)
         | Some (Inr None, q) \<Rightarrow> Some (Inl no_slot, b, q)
         | Some (Inr (Some w), q) \<Rightarrow>
             (let q1 = set_timestamp_ns w (media_ns pts) q;
                  b1 = b\<lparr>bs_destinations_taken := bs_destinations_taken b + 1\<rparr>
              in case drop_pending e (bs_pending b1) q1 of
                   None \<Rightarrow> None
                 | Some q2 \<Rightarrow> Some (Inr (Some w), b1\<lparr>bs_pending := Some w\<rparr>, q2))))"

definition corrupt_first :: "(u32 \<Rightarrow> u32) \<Rightarrow> slot_writer \<Rightarrow> ring \<Rightarrow> ring option" where
  "corrupt_first plus_one w r =
     (if sw_nbytes w < 4 then None
      else Some (copy_payload (sw_slot w) (u32_bytes (plus_one (u32_of_bytes (writer_payload w r)))) r))"

definition epoch_ready ::
  "(io_error \<Rightarrow> string) \<Rightarrow> (u32 \<Rightarrow> u32) \<Rightarrow> waits \<Rightarrow> env \<Rightarrow> usize \<Rightarrow> usize \<Rightarrow> 64 word \<Rightarrow> u32 list option \<Rightarrow>
   bus_sink \<Rightarrow> ring \<Rightarrow> ((failure + unit) \<times> bus_sink \<times> ring) option" where
  "epoch_ready io plus_one W e cap epoch pts tensor b0 r =
     (let b = b0\<lparr>bs_pending := None\<rparr>
      in case (bs_pending b0, tensor) of
           (Some w, None) \<Rightarrow>
             (case (if bs_corrupt_epoch b = Some epoch then corrupt_first plus_one w r else Some r) of
                None \<Rightarrow>
                  map_option (\<lambda>q. (Inl (Panic ''index out of bounds''), b, q)) (writer_drop e w r)
              | Some r1 \<Rightarrow>
                  (case writer_commit w r1 of
                     (p, _, q) \<Rightarrow>
                       Some (Inr (), record_sequence (p_sequence p) (record_slot (p_sequence p) (sw_slot w) b), q)))
         | (None, Some floats) \<Rightarrow>
             (case tensor_view_contiguous F32 (bs_shape b) (slice_bytes floats) of
                Inl err \<Rightarrow> Some (Inl (Bail (''build a tensor view: '' @ display io err)), b, r)
              | Inr view \<Rightarrow>
                  (case publish W cap (with_timestamp_ns (media_ns pts) view) Block (bs_timeout b) r of
                     None \<Rightarrow> None
                   | Some (Inl err, q) \<Rightarrow> Some (Inl (Bail (''publish: '' @ display io err)), b, q)
                   | Some (Inr None, q) \<Rightarrow> Some (Inl no_slot, b, q)
                   | Some (Inr (Some p), q) \<Rightarrow>
                       (let b1 = b\<lparr>bs_copied := bs_copied b + 1\<rparr>
                        in Some (Inr (), record_sequence (p_sequence p)
                             (record_slot (p_sequence p) (p_slot_index p) b1), q))))
         | (Some w, Some _) \<Rightarrow>
             map_option (\<lambda>(_, q).
               (Inl (Bail ''engine supplied a tensor for an epoch whose destination it had taken''), b, q))
               (writer_abort e w r)
         | (None, None) \<Rightarrow>
             Some (Inl (Bail ''engine reported an epoch with neither a tensor nor a destination''), b, r))"

definition abort_epoch :: "env \<Rightarrow> bus_sink \<Rightarrow> ring \<Rightarrow> (bus_sink \<times> ring) option" where
  "abort_epoch e b r =
     (case bs_pending b of
        None \<Rightarrow> Some (b, r)
      | Some w \<Rightarrow> map_option (\<lambda>(_, q). (b\<lparr>bs_pending := None\<rparr>, q)) (writer_abort e w r))"

subsection \<open>The command line\<close>

definition has_flag :: "rstring list \<Rightarrow> rstring \<Rightarrow> bool" where
  "has_flag args key = list_ex (\<lambda>a. a = key) args"

fun value_after :: "rstring list \<Rightarrow> rstring \<Rightarrow> rstring option" where
  "value_after [] key = None"
| "value_after (a # args) key =
     (if a = key then (case args of [] \<Rightarrow> None | v # _ \<Rightarrow> Some v) else value_after args key)"

definition number_after :: "rstring list \<Rightarrow> rstring \<Rightarrow> u64 \<Rightarrow> u64" where
  "number_after args key dflt =
     (case value_after args key of
        None \<Rightarrow> dflt
      | Some v \<Rightarrow> (case parse_u64 v of None \<Rightarrow> dflt | Some n \<Rightarrow> n))"

record ingest_options =
  in_media :: rstring
  in_ring :: rstring
  in_resolution :: usize
  in_slots :: usize
  in_frame_bytes :: usize
  in_slot_bytes :: usize
  in_timeout :: nat
  in_direct :: bool
  in_corrupt_epoch :: "usize option"
  in_attach :: bool

text \<open>\<open>Inl None\<close> is the usage message and exit code 2; \<open>Inl (Some err)\<close> an error out of \<^verbatim>\<open>main\<close>.\<close>

definition ingest_args :: "rstring list \<Rightarrow> failure option + ingest_options" where
  "ingest_args args =
     (if length args < 2 \<or> args ! 1 \<noteq> ascii ''stream'' then Inl None
      else
        (case value_after args (ascii ''--media'') of
           None \<Rightarrow> Inl (Some (Bail ''--media is required''))
         | Some media \<Rightarrow>
             (case value_after args (ascii ''--ring'') of
                None \<Rightarrow> Inl (Some (Bail ''--ring is required''))
              | Some ring_name \<Rightarrow>
                  (let resolution = number_after args (ascii ''--resolution'') 224;
                       slot_count = number_after args (ascii ''--slots'') 8;
                       frame_bytes = 3 * resolution * resolution * 4
                   in Inr \<lparr>in_media = media, in_ring = ring_name, in_resolution = resolution, in_slots = slot_count,
                       in_frame_bytes = frame_bytes,
                       in_slot_bytes = number_after args (ascii ''--slot-bytes'') frame_bytes,
                       in_timeout = unat (number_after args (ascii ''--timeout-s'') 60) * 10 ^ 9,
                       in_direct = \<not> has_flag args (ascii ''--copy-path''),
                       in_corrupt_epoch = (case value_after args (ascii ''--corrupt-epoch'') of
                         None \<Rightarrow> None | Some v \<Rightarrow> parse_u64 v),
                       in_attach = has_flag args (ascii ''--attach'')\<rparr>))))"

definition ingest_ring_options :: "ingest_options \<Rightarrow> ring_options" where
  "ingest_ring_options opts =
     \<lparr>o_slot_count = in_slots opts, o_slot_capacity = max (in_slot_bytes opts) (in_frame_bytes opts), o_force = True\<rparr>"

definition ingest_open ::
  "(io_error \<Rightarrow> string) \<Rightarrow> 'k kernel \<Rightarrow> (mapping \<Rightarrow> ring) \<Rightarrow> ingest_options \<Rightarrow> 'k \<Rightarrow>
   'k \<times> (failure + inner \<times> ring option)" where
  "ingest_open io K contents opts k =
     (if in_attach opts
      then (case ring_attach K contents (in_ring opts) k of
              (k1, Inl err) \<Rightarrow> (k1, Inl (Bail (''attach ring: '' @ display io err)))
            | (k1, Inr h) \<Rightarrow> (k1, Inr (keep_on_drop h, None)))
      else (case ring_create K (in_ring opts) (ingest_ring_options opts) k of
              (k1, Inl err) \<Rightarrow> (k1, Inl (Bail (''create ring: '' @ display io err)))
            | (k1, Inr (h, r)) \<Rightarrow> (k1, Inr (keep_on_drop h, Some r))))"

definition ingest_argv :: "rstring list \<Rightarrow> ingest_options \<Rightarrow> rstring list" where
  "ingest_argv args opts =
     map ascii [''tenzor'', ''-i''] @ [in_media opts] @
     map ascii [''-o'', ''/dev/null/unused.tenzor'', ''--quiet'', ''--execution'', ''sequential'',
       ''--video-workers'', ''1'', ''--resolution'', dec (unat (in_resolution opts))] @
     (case value_after args (ascii ''--window-sec'') of
        None \<Rightarrow> [] | Some window \<Rightarrow> [ascii ''--window-sec'', window])"

definition ingest_sink :: "ingest_options \<Rightarrow> bus_sink" where
  "ingest_sink opts =
     (bus_sink_new (in_resolution opts) (in_direct opts) (in_timeout opts))\<lparr>bs_corrupt_epoch := in_corrupt_epoch opts\<rparr>"

text \<open>The last check of \<^verbatim>\<open>main\<close>: every epoch of the engine's summary was published.\<close>

definition ingest_verdict :: "usize \<Rightarrow> bus_sink \<Rightarrow> failure + unit" where
  "ingest_verdict epochs b =
     (if bs_published b \<noteq> epochs
      then Inl (Bail (''published '' @ dec (unat (bs_published b)) @ '' of '' @ dec (unat epochs) @ '' epochs''))
      else Inr ())"

subsection \<open>Any engine\<close>

text \<open>One call of the engine, with what it wrote through the destination it holds in between.\<close>

datatype engine_call =
    Destination env waits usize "64 word" usize
  | Decode "u8 list"
  | Ready env waits usize "64 word" "u32 list option"
  | AbortEpoch env

fun sink_call ::
  "(io_error \<Rightarrow> string) \<Rightarrow> (u32 \<Rightarrow> u32) \<Rightarrow> usize \<Rightarrow> engine_call \<Rightarrow> bus_sink \<Rightarrow> ring \<Rightarrow>
   ((failure + unit) \<times> bus_sink \<times> ring) option" where
  "sink_call io plus_one cap (Destination e W epoch pts len) b r =
     map_option (\<lambda>(res, b', q). (map_sum id (\<lambda>_. ()) res, b', q)) (video_destination io W e cap epoch pts len b r)"
| "sink_call io plus_one cap (Decode data) b r =
     (case bs_pending b of None \<Rightarrow> Some (Inr (), b, r) | Some w \<Rightarrow> Some (Inr (), b, writer_fill w data r))"
| "sink_call io plus_one cap (Ready e W epoch pts tensor) b r = epoch_ready io plus_one W e cap epoch pts tensor b r"
| "sink_call io plus_one cap (AbortEpoch e) b r =
     map_option (\<lambda>(b', q). (Inr (), b', q)) (abort_epoch e b r)"

text \<open>The engine stops at the first failure, which ends its run.\<close>

fun sink_run ::
  "(io_error \<Rightarrow> string) \<Rightarrow> (u32 \<Rightarrow> u32) \<Rightarrow> usize \<Rightarrow> engine_call list \<Rightarrow> bus_sink \<Rightarrow> ring \<Rightarrow>
   ((failure + unit) \<times> bus_sink \<times> ring) option" where
  "sink_run io plus_one cap [] b r = Some (Inr (), b, r)"
| "sink_run io plus_one cap (call # calls) b r =
     (case sink_call io plus_one cap call b r of
        None \<Rightarrow> None
      | Some (Inl x, b', q) \<Rightarrow> Some (Inl x, b', q)
      | Some (Inr _, b', q) \<Rightarrow> sink_run io plus_one cap calls b' q)"

subsection \<open>The program\<close>

text \<open>
  The wait of \<^verbatim>\<open>--await-consumers\<close>, 120 seconds at most; round \<open>k\<close> reads the instant \<open>w_now W k\<close> and then
  sleeps while the others do \<open>w_other W k\<close>.
\<close>

partial_function (option) await_loop ::
  "waits \<Rightarrow> inner \<Rightarrow> u32 \<Rightarrow> nat \<Rightarrow> nat \<Rightarrow> ring \<Rightarrow> ((failure + unit) \<times> ring) option" where
  "await_loop W h expected deadline k r =
     (if \<not> st_consumers (ring_stats h r) < expected then Some (Inr (), r)
      else if deadline < w_now W k
      then Some (Inl (Bail (''only '' @ dec (unat (st_consumers (ring_stats h r))) @ '' of '' @ dec (unat expected) @
             '' consumers registered'')), r)
      else await_loop W h expected deadline (k + 1) (w_other W k r))"

definition await_consumers ::
  "waits \<Rightarrow> inner \<Rightarrow> rstring list \<Rightarrow> ring \<Rightarrow> ((failure + unit) \<times> ring) option" where
  "await_consumers W h args r =
     (case value_after args (ascii ''--await-consumers'') of
        None \<Rightarrow> Some (Inr (), r)
      | Some v \<Rightarrow>
          (case parse_unsigned (2 ^ 32) v of
             None \<Rightarrow> Some (Inl (Bail ''--await-consumers''), r)
           | Some n \<Rightarrow> await_loop W h (of_nat n) (w_start W + 120 * 10 ^ 9) 0 r))"

text \<open>
  \<^verbatim>\<open>main\<close> from the open ring to its result, with the sink it ends with: the engine makes the calls
  \<open>calls\<close> and reports \<open>epochs\<close>. Whatever way it ends, the sink is dropped and then the producer.
\<close>

definition close_sink :: "env \<Rightarrow> usize \<Rightarrow> bus_sink \<Rightarrow> ring \<Rightarrow> ring option" where
  "close_sink e n b r = map_option (\<lambda>q. snd (producer_drop e n q)) (drop_pending e (bs_pending b) r)"

definition ingest ::
  "(io_error \<Rightarrow> string) \<Rightarrow> (u32 \<Rightarrow> u32) \<Rightarrow> env \<Rightarrow> waits \<Rightarrow> inner \<Rightarrow> rstring list \<Rightarrow> ingest_options \<Rightarrow>
   engine_call list \<Rightarrow> usize \<Rightarrow> ring \<Rightarrow> ((failure + unit) \<times> bus_sink option \<times> ring) option" where
  "ingest io plus_one e W h args opts calls epochs r =
     (case producer_claim e (i_producers h) r of
        None \<Rightarrow> None
      | Some (Inl err, _, q) \<Rightarrow> Some (Inl (Bail (''claim the producer role: '' @ display io err)), None, q)
      | Some (Inr _, n, q) \<Rightarrow>
          (case await_consumers W h args q of
             None \<Rightarrow> None
           | Some (Inl x, q1) \<Rightarrow> Some (Inl x, None, snd (producer_drop e n q1))
           | Some (Inr _, q1) \<Rightarrow>
               (case sink_run io plus_one (i_slot_capacity h) calls (ingest_sink opts) q1 of
                  None \<Rightarrow> None
                | Some (res, b, q2) \<Rightarrow>
                    map_option (\<lambda>q3. (case res of Inl x \<Rightarrow> Inl x | Inr _ \<Rightarrow> ingest_verdict epochs b, Some b, q3))
                      (close_sink e n b q2))))"

subsection \<open>Both paths publish the same\<close>

lemma stamp_commutes:
  assumes "\<And>u. st \<noteq> StTimestamp u"
  shows "store_at s (StTimestamp t) (store_at s st r) = store_at s st (store_at s (StTimestamp t) r)"
proof -
  have "head_store (StTimestamp t) (head_store st h) = head_store st (head_store (StTimestamp t) h)" for h
    using assms by (cases st; cases h) simp_all
  then show ?thesis
    by (cases "s < length (slots r)") (simp_all add: store_at_def list_update_beyond)
qed

lemma stamp_absorbs: "store_at s (StTimestamp t) (store_at s (StTimestamp u) r) = store_at s (StTimestamp t) r"
  by (cases "s < length (slots r)") (simp_all add: store_at_def list_update_beyond)

lemma stamp_last:
  assumes "\<forall>st\<in>set ss. \<forall>u. st \<noteq> StTimestamp u"
  shows "store_at s (StTimestamp t) (fold (store_at s) ss r) = fold (store_at s) ss (store_at s (StTimestamp t) r)"
  using assms
proof (induction ss arbitrary: r)
  case (Cons st ss)
  then show ?case using stamp_commutes [of st s t r] by simp
qed simp

lemma header_stamp:
  "fold (store_at s) (header_stores (v\<lparr>rv_timestamp := t\<rparr>)) r =
     store_at s (StTimestamp t) (fold (store_at s) (header_stores v) r)"
proof -
  define pre where "pre = [StState STATE_WRITING, StPid (rv_pid v), StToken (rv_token v), StSequence (rv_sequence v)]"
  define post where "post = [StNbytes (rv_nbytes v), StDtype (rv_dtype v), StNdim (rv_ndim v), StFlags 0] @
    concat (map (\<lambda>d. [StShape d (rv_shape v ! d), StStride d (rv_strides v ! d)]) [0..<MAX_NDIM]) @
    [StMask (rv_mask v), StReaders (of_nat (count_ones (rv_mask v)))]"
  have "header_stores v = pre @ StTimestamp (rv_timestamp v) # post"
    "header_stores (v\<lparr>rv_timestamp := t\<rparr>) = pre @ StTimestamp t # post"
    by (simp_all add: header_stores_def field_stores_def pre_def post_def)
  moreover have "\<forall>st\<in>set post. \<forall>u. st \<noteq> StTimestamp u" by (auto simp: post_def)
  ultimately show ?thesis by (simp only: fold_append fold_simps o_apply stamp_last stamp_absorbs)
qed

lemma reserve_header_stamp:
  "reserve_header e dt ndim shape strides nbytes (Some t) r =
     (case reserve_header e dt ndim shape strides nbytes None r of
        (None, q) \<Rightarrow> (None, q)
      | (Some x, q) \<Rightarrow> (Some x, upd_slot (fst x) (\<lambda>h. h\<lparr>s_timestamp_ns := t\<rparr>) q))"
proof -
  have "reservation_of e dt ndim shape strides nbytes (Some t) q =
      (reservation_of e dt ndim shape strides nbytes None q)\<lparr>rv_timestamp := t\<rparr>" for q
    by (simp add: reservation_of_def)
  moreover have "(upd_slot s f q)\<lparr>g_next_seq := n\<rparr> = upd_slot s f (q\<lparr>g_next_seq := n\<rparr>)" for s f q n
    by (simp add: upd_slot_def)
  ultimately show ?thesis
    by (simp add: reserve_stores Let_def header_stamp split: option.split)
qed

lemma reserve_loop_map:
  assumes A: "\<And>e r. A e r = (case B e r of (None, q) \<Rightarrow> (None, q) | (Some x, q) \<Rightarrow> (Some x, f x q))"
    and unlock: "\<And>x q. unlock_registry (f x q) = f x (unlock_registry q)"
  defines "g \<equiv> \<lambda>y. case y of (Inr (Some x), q) \<Rightarrow> (Inr (Some x), f x q) | (res, q) \<Rightarrow> (res, q)"
  shows "reserve_loop W A policy deadline k r = map_option g (reserve_loop W B policy deadline k r)"
proof -
  have fwd: "reserve_loop W A policy deadline k r = Some (g y)" if "reserve_loop W B policy deadline k r = Some y"
    for y W policy deadline k r
  proof -
    have "C = B \<longrightarrow> reserve_loop W A policy deadline k r = Some (g y)"
      if "reserve_loop W C policy deadline k r = Some y" for C
      by (rule reserve_loop.raw_induct [where P = "\<lambda>W C policy deadline k r y. C = B \<longrightarrow>
            reserve_loop W A policy deadline k r = Some (g y)", OF _ that], subst reserve_loop.simps)
        (auto simp: A g_def unlock split: option.splits prod.splits if_splits)
    with that show ?thesis by simp
  qed
  have bwd: "reserve_loop W B policy deadline k r \<noteq> None" if "reserve_loop W A policy deadline k r = Some y"
    for y W policy deadline k r
  proof -
    have "C = A \<longrightarrow> reserve_loop W B policy deadline k r \<noteq> None"
      if "reserve_loop W C policy deadline k r = Some y" for C
      by (rule reserve_loop.raw_induct [where P = "\<lambda>W C policy deadline k r y. C = A \<longrightarrow>
            reserve_loop W B policy deadline k r \<noteq> None", OF _ that], subst reserve_loop.simps)
        (auto simp: A split: option.splits prod.splits if_splits)
    with that show ?thesis by simp
  qed
  show ?thesis
  proof (cases "reserve_loop W B policy deadline k r")
    case None
    then show ?thesis using bwd [of W policy deadline k r] by (cases "reserve_loop W A policy deadline k r") auto
  next
    case (Some y)
    with fwd [OF Some] show ?thesis by simp
  qed
qed

lemma publish_stamped:
  assumes view: "tensor_view_contiguous dt shape data = Inr v" and len: "length data < 2 ^ 64"
  shows "publish W cap (with_timestamp_ns t v) policy timeout r =
    (case reserve W cap dt shape policy timeout r of
       None \<Rightarrow> None
     | Some (Inl err, q) \<Rightarrow> Some (Inl err, q)
     | Some (Inr None, q) \<Rightarrow> Some (Inr None, q)
     | Some (Inr (Some w), q) \<Rightarrow>
         (case writer_commit w (writer_fill w data (set_timestamp_ns w t q)) of
            (p, w', q') \<Rightarrow> Some (Inr (Some p), q')))"
proof -
  have v: "length shape \<le> MAX_NDIM" "tensor_bytes dt shape = usize_len data"
      "v = \<lparr>v_dtype = dt, v_ndim = length shape, v_shape = pad_dims shape,
            v_strides = pad_dims (contiguous_strides dt shape), v_data = data, v_timestamp_ns = None\<rparr>"
    using view by (auto simp: tensor_view_contiguous_def tensor_view_new_def split: if_splits)
  have take: "take (unat (usize_len data)) data = data"
    using len by (simp add: usize_len_def unat_of_nat_small)
  let ?stamp = "\<lambda>x :: nat \<times> u64 \<times> u64. upd_slot (fst x) (\<lambda>h. h\<lparr>s_timestamp_ns := t\<rparr>)"
  have unlock: "unlock_registry (?stamp x q) = ?stamp x (unlock_registry q)" for x q
    by (simp add: unlock_registry_def upd_slot_def)
  have loop: "reserve_loop W (\<lambda>e. reserve_header e dt n sh st nb (Some t)) policy deadline k r =
      map_option (\<lambda>y. case y of (Inr (Some x), q) \<Rightarrow> (Inr (Some x), ?stamp x q) | (res, q) \<Rightarrow> (res, q))
        (reserve_loop W (\<lambda>e. reserve_header e dt n sh st nb None) policy deadline k r)" for n sh st nb deadline k
    by (rule reserve_loop_map) (simp_all only: reserve_header_stamp unlock)
  show ?thesis
    using v(1)
    by (simp add: publish_def reserve_def v(2,3) reserve_for_copy_def with_timestamp_ns_def loop Let_def)
      (auto simp: writer_commit_def writer_fill_def writer_readers_def set_timestamp_ns_def take
        split: option.split sum.split)
qed

definition same_record :: "bus_sink \<Rightarrow> bus_sink \<Rightarrow> bool" where
  "same_record a b \<longleftrightarrow>
     bs_slot_trace a = bs_slot_trace b \<and> bs_published a = bs_published b \<and>
     bs_first_sequence a = bs_first_sequence b \<and> bs_last_sequence a = bs_last_sequence b \<and>
     bs_pending a = bs_pending b"

lemma same_record_step:
  "same_record a b \<Longrightarrow> same_record (record_sequence q (record_slot q s a)) (record_sequence q (record_slot q s b))"
  by (simp add: same_record_def record_sequence_def record_slot_def)

subsection \<open>Properties\<close>

text \<open>
  Claim C16. The direct path is the copy path: taking a destination for an epoch, letting the engine
  decode into it and reporting the epoch leaves the ring, the trace and the counters of publications
  exactly as reporting the same tensor to a sink that declines destinations; when no slot can be had
  both fail with the same ring, and when one waits for ever so does the other.
\<close>

theorem direct_path_is_copy_path:
  fixes io plus_one W W' e e' cap epoch pts b r floats
  defines "copied \<equiv> epoch_ready io plus_one W e cap epoch pts (Some floats) (b\<lparr>bs_direct := False\<rparr>) r"
  assumes b: "bs_direct b" "bs_pending b = None" "bs_corrupt_epoch b \<noteq> Some epoch"
    and view: "tensor_view_contiguous F32 (bs_shape b) (slice_bytes floats) = Inr v"
      "length (slice_bytes floats) < 2 ^ 64"
  shows "case video_destination io W e cap epoch pts (bs_len b) b r of
      None \<Rightarrow> copied = None
    | Some (Inl _, b1, q) \<Rightarrow> b1 = b \<and> (\<exists>x b2. copied = Some (Inl x, b2, q) \<and> same_record b b2)
    | Some (Inr None, _, _) \<Rightarrow> False
    | Some (Inr (Some w), b1, q) \<Rightarrow>
        \<exists>b2 b3 q'. epoch_ready io plus_one W' e' cap epoch pts None b1 (writer_fill w (slice_bytes floats) q) =
          Some (Inr (), b2, q') \<and> copied = Some (Inr (), b3, q') \<and> same_record b2 b3"
proof -
  note pub = publish_stamped [OF view, of W cap "media_ns pts" Block "bs_timeout b" r]
  have same: "same_record (b\<lparr>bs_pending := p, bs_direct := d, bs_copied := c\<rparr>)
      (b\<lparr>bs_pending := p, bs_destinations_taken := n\<rparr>)" for p d c n
    by (simp add: same_record_def)
  show ?thesis
  proof (cases "reserve W cap F32 (bs_shape b) Block (bs_timeout b) r")
    case None
    with b view pub show ?thesis
      by (simp add: copied_def epoch_ready_def video_destination_def Let_def)
  next
    case (Some y)
    obtain res q where y: "y = (res, q)" by force
    show ?thesis
    proof (cases res)
      case (Inl err)
      with Some y b view pub show ?thesis
        by (simp add: copied_def epoch_ready_def video_destination_def Let_def same_record_def)
    next
      case (Inr ws)
      show ?thesis
      proof (cases ws)
        case None
        with Some y Inr b view pub show ?thesis
          by (simp add: copied_def epoch_ready_def video_destination_def Let_def same_record_def)
      next
        case w: (Some w)
        have sw: "p_slot_index (fst (writer_commit w s)) = sw_slot w" for s by (simp add: writer_commit_def)
        from Some y Inr w b view pub show ?thesis
          by (simp add: copied_def epoch_ready_def video_destination_def Let_def drop_pending_def
              split: prod.split) (auto simp: same_record_def record_sequence_def record_slot_def sw writer_commit_def)
      qed
    qed
  qed
qed

theorem direct_path_is_copy_path_witness:
  "case video_destination (\<lambda>_. []) (demo_waits 7) (kill_env 7 [7, 9] 1) 64 0 40 3 (bus_sink_new 1 True 0) pending_ring of
     None \<Rightarrow> False
   | Some (Inl _, b1, q) \<Rightarrow> b1 = bus_sink_new 1 True 0
   | Some (Inr None, _, _) \<Rightarrow> False
   | Some (Inr (Some w), b1, q) \<Rightarrow>
       \<exists>b2 q'. epoch_ready (\<lambda>_. []) id (demo_waits 7) (kill_env 7 [7, 9] 1) 64 0 40 None b1
         (writer_fill w (slice_bytes [1, 2, 3]) q) = Some (Inr (), b2, q')"
proof -
  let ?b = "bus_sink_new 1 True 0"
  have b: "bs_direct ?b" "bs_pending ?b = None" "bs_corrupt_epoch ?b \<noteq> Some 0" "bs_len ?b = 3" "bs_shape ?b = [3, 1, 1]"
    by (simp_all add: bus_sink_new_def)
  have len: "length (slice_bytes [1, 2, 3]) = 12" by (simp add: slice_bytes_def u32_bytes_def)
  then have bytes: "usize_len (slice_bytes [1, 2, 3]) = 12" by (simp add: usize_len_def)
  have small: "length (slice_bytes [1, 2, 3]) < 2 ^ 64" unfolding len by simp
  have "tensor_bytes F32 (bs_shape ?b) = usize_len (slice_bytes [1, 2, 3])"
    unfolding b(5) bytes by (simp add: tensor_bytes_def shape_elements_def)
  moreover have "length (contiguous_strides F32 (bs_shape ?b)) = length (bs_shape ?b)"
    unfolding b(5) by (simp add: contiguous_strides_def)
  ultimately obtain v where v: "tensor_view_contiguous F32 (bs_shape ?b) (slice_bytes [1, 2, 3]) = Inr v"
    by (simp add: tensor_view_contiguous_def tensor_view_new_def b(5) MAX_NDIM_def)
  obtain y where y: "reserve (demo_waits 7) 64 F32 (bs_shape ?b) Block (bs_timeout ?b) pending_ring = Some y"
  proof -
    have "pick_slot (swept (w_env (demo_waits 7) 0) pending_ring) \<noteq> None"
      using pick_slot_exists [OF seqs_within_pending_ring _ demo_publish_ready(1)] by auto
    then obtain s where pick: "pick_slot (swept (w_env (demo_waits 7) 0) pending_ring) = Some s" by blast
    have dims: "length (pad_dims [3, 1, 1]) = MAX_NDIM" "length (pad_dims (contiguous_strides F32 [3, 1, 1])) = MAX_NDIM"
      by (simp_all add: pad_dims_def contiguous_strides_def MAX_NDIM_def)
    from reserve_loop_take [OF wf_pending_ring dims pick] show thesis
      by (intro that) (simp add: reserve_def b(5) tensor_bytes_def shape_elements_def MAX_NDIM_def Let_def)
  qed
  have "video_destination (\<lambda>_. []) (demo_waits 7) (kill_env 7 [7, 9] 1) 64 0 40 3 ?b pending_ring \<noteq> None"
    using y b by (simp add: video_destination_def drop_pending_def Let_def split: prod.splits sum.splits option.splits)
  then obtain res b1 q where
    call: "video_destination (\<lambda>_. []) (demo_waits 7) (kill_env 7 [7, 9] 1) 64 0 40 3 ?b pending_ring = Some (res, b1, q)"
    by auto
  note same = direct_path_is_copy_path [OF b(1-3) v small, where io = "\<lambda>_. []" and W = "demo_waits 7" and
      e = "kill_env 7 [7, 9] 1" and cap = 64 and pts = 40 and r = pending_ring and plus_one = id and
      W' = "demo_waits 7" and e' = "kill_env 7 [7, 9] 1", unfolded b(4) call]
  show ?thesis
  proof (cases res)
    case (Inl x)
    with same call show ?thesis by simp
  next
    case (Inr ws)
    with same call show ?thesis by (cases ws) auto
  qed
qed

definition sink_ok :: "bus_sink \<Rightarrow> bool" where
  "sink_ok b \<longleftrightarrow>
     bs_published b = of_nat (length (bs_slot_trace b)) \<and>
     bs_first_sequence b = (case bs_slot_trace b of [] \<Rightarrow> None | p # _ \<Rightarrow> Some (fst p)) \<and>
     (bs_slot_trace b \<noteq> [] \<longrightarrow> bs_last_sequence b = fst (last (bs_slot_trace b))) \<and>
     (\<not> bs_direct b \<longrightarrow> bs_destinations_taken b = 0 \<and> bs_pending b = None \<and> bs_copied b = bs_published b)"

lemma sink_ok_record:
  assumes "sink_ok b" "bs_slot_trace b1 = bs_slot_trace b" "bs_published b1 = bs_published b"
    "bs_first_sequence b1 = bs_first_sequence b" "bs_last_sequence b1 = bs_last_sequence b" "bs_direct b1 = bs_direct b"
    and "\<not> bs_direct b \<Longrightarrow> bs_destinations_taken b1 = 0 \<and> bs_pending b1 = None \<and> bs_copied b1 = bs_copied b + 1"
  shows "sink_ok (record_sequence q (record_slot q s b1))"
  using assms by (cases "bs_slot_trace b") (auto simp: sink_ok_def record_sequence_def record_slot_def Let_def)

lemma sink_call_ok:
  assumes ok: "sink_ok b" and call: "sink_call io plus_one cap c b r = Some (res, b', q)"
  shows "sink_ok b' \<and> bs_direct b' = bs_direct b"
proof (cases c)
  case (Destination e W epoch pts len)
  with call ok show ?thesis
    by (auto simp: video_destination_def sink_ok_def Let_def split: if_splits option.splits sum.splits prod.splits)
next
  case (Decode data)
  with call ok show ?thesis by (auto split: option.splits)
next
  case (AbortEpoch e)
  with call ok show ?thesis by (auto simp: abort_epoch_def sink_ok_def split: option.splits)
next
  case (Ready e W epoch pts tensor)
  have quiet: "sink_ok (b\<lparr>bs_pending := None\<rparr>)" using ok by (auto simp: sink_ok_def)
  have commit: "sink_ok (record_sequence p (record_slot p s (b\<lparr>bs_pending := None\<rparr>)))" if "bs_pending b = Some w" for p s w
    using that ok by (intro sink_ok_record [OF ok]) (auto simp: sink_ok_def)
  have copy: "sink_ok (record_sequence p (record_slot p s (b\<lparr>bs_pending := None, bs_copied := bs_copied b + 1\<rparr>)))" for p s
    using ok by (intro sink_ok_record [OF ok]) (auto simp: sink_ok_def)
  have direct: "bs_direct (record_sequence p (record_slot p s x)) = bs_direct x" for p s x
    by (simp add: record_sequence_def record_slot_def Let_def)
  show ?thesis
  proof (cases "bs_pending b")
    case None
    then show ?thesis
      using call quiet copy
      by (cases tensor) (auto simp: Ready epoch_ready_def Let_def direct split: option.splits sum.splits prod.splits)
  next
    case (Some w)
    then show ?thesis
      using call quiet commit [OF Some]
      by (cases tensor) (auto simp: Ready epoch_ready_def Let_def direct split: option.splits sum.splits prod.splits)
  qed
qed

lemma await_returns:
  assumes "deadline < w_now W n" "k \<le> n"
  shows "\<exists>res q. await_loop W h expected deadline k r = Some (res, q) \<and>
    (res = Inr () \<longrightarrow> \<not> st_consumers (ring_stats h q) < expected)"
  using assms
proof (induction "n - k" arbitrary: k r rule: less_induct)
  case less
  show ?case
  proof (cases "st_consumers (ring_stats h r) < expected \<and> \<not> deadline < w_now W k")
    case False
    then show ?thesis by (subst await_loop.simps) auto
  next
    case True
    with less.prems have "k < n" by (metis order_le_less)
    with less.hyps [of "k + 1" "w_other W k r"] True less.prems(1) show ?thesis
      by (subst await_loop.simps) simp
  qed
qed

lemma sink_run_accounting:
  assumes "sink_run io plus_one cap calls (ingest_sink opts) r = Some (res, b, q)"
  shows "bs_published b = of_nat (length (bs_slot_trace b)) \<and>
    bs_first_sequence b = (case bs_slot_trace b of [] \<Rightarrow> None | p # _ \<Rightarrow> Some (fst p)) \<and>
    (bs_slot_trace b \<noteq> [] \<longrightarrow> bs_last_sequence b = fst (last (bs_slot_trace b))) \<and>
    (\<not> in_direct opts \<longrightarrow> bs_destinations_taken b = 0 \<and> bs_pending b = None \<and> bs_copied b = bs_published b)"
proof -
  have run: "sink_run io plus_one cap calls b0 r = Some (res, b, q) \<Longrightarrow> sink_ok b0 \<Longrightarrow>
      sink_ok b \<and> bs_direct b = bs_direct b0" for b0
  proof (induction calls arbitrary: b0 r)
    case (Cons call calls)
    obtain res1 b1 q1 where step: "sink_call io plus_one cap call b0 r = Some (res1, b1, q1)"
      using Cons.prems(1) by (auto split: option.splits)
    note ok = sink_call_ok [OF Cons.prems(2) step]
    show ?case
    proof (cases res1)
      case (Inl x)
      with Cons.prems(1) step ok show ?thesis by auto
    next
      case (Inr u)
      with Cons.prems(1) step have "sink_run io plus_one cap calls b1 q1 = Some (res, b, q)" by simp
      with Cons.IH [of b1 q1] ok show ?thesis by simp
    qed
  qed simp
  have "sink_ok (ingest_sink opts)" "bs_direct (ingest_sink opts) = in_direct opts"
    by (simp_all add: sink_ok_def ingest_sink_def bus_sink_new_def Let_def)
  with run [OF assms] have "sink_ok b" "bs_direct b = in_direct opts" by simp_all
  then show ?thesis
    by (simp add: sink_ok_def)
qed

text \<open>
  Claim C26. The program's report is right whatever the engine does: the published count is the number
  of slots in the trace, the first and last sequence are those of its ends, a sink on the copy path
  takes no destination and counts every publication as a copy; and \<^verbatim>\<open>main\<close> succeeds only if the trace has
  as many entries as the engine reports epochs, modulo \<open>2^64\<close>.
\<close>

theorem ingest_accounting:
  assumes "ingest io plus_one e W h args opts calls epochs r = Some (res, Some b, q)"
  shows "bs_published b = of_nat (length (bs_slot_trace b)) \<and>
    bs_first_sequence b = (case bs_slot_trace b of [] \<Rightarrow> None | p # _ \<Rightarrow> Some (fst p)) \<and>
    (bs_slot_trace b \<noteq> [] \<longrightarrow> bs_last_sequence b = fst (last (bs_slot_trace b))) \<and>
    (\<not> in_direct opts \<longrightarrow> bs_destinations_taken b = 0 \<and> bs_pending b = None \<and> bs_copied b = bs_published b) \<and>
    (res = Inr () \<longrightarrow> of_nat (length (bs_slot_trace b)) = epochs)"
proof -
  obtain res' r1 q1 where run: "sink_run io plus_one (i_slot_capacity h) calls (ingest_sink opts) r1 = Some (res', b, q1)"
    and res: "res = (case res' of Inl x \<Rightarrow> Inl x | Inr _ \<Rightarrow> ingest_verdict epochs b)"
    using assms by (auto simp: ingest_def split: option.splits sum.splits prod.splits)
  note acc = sink_run_accounting [OF run]
  then have "res = Inr () \<longrightarrow> of_nat (length (bs_slot_trace b)) = epochs"
    by (auto simp: res ingest_verdict_def split: sum.splits if_splits)
  with acc show ?thesis by blast
qed

theorem ingest_accounting_witness:
  "\<exists>opts b q. ingest (\<lambda>_. []) id (kill_env 7 [7, 9] 1) (demo_waits 7) demo_inner [] opts
      [Ready (kill_env 7 [7, 9] 1) (demo_waits 7) 0 40 (Some [1, 2, 3])] 1 demo_ring = Some (Inr (), Some b, q) \<and>
    bs_published b = 1 \<and> bs_first_sequence b \<noteq> None"
proof -
  define opts where "opts = \<lparr>in_media = [], in_ring = [], in_resolution = 1, in_slots = 8, in_frame_bytes = 12,
    in_slot_bytes = 12, in_timeout = 0, in_direct = False, in_corrupt_epoch = None, in_attach = False\<rparr>"
  let ?e = "kill_env 7 [7, 9] 1"
  have cap: "i_slot_capacity demo_inner = 64" "i_producers demo_inner = 0" by (simp_all add: demo_inner_def)
  obtain n q where claim: "producer_claim ?e 0 demo_ring = Some (Inr (), n, q)" "wf_ring 64 q" "lock_free q"
    and pick: "\<exists>s. pick_slot (swept ?e q) = Some s"
    using demo_claim by blast
  have len: "length (slice_bytes [1, 2, 3]) = 12" by (simp add: length_slice_bytes)
  obtain v where view: "tensor_view_contiguous F32 [3, 1, 1] (slice_bytes [1, 2, 3]) = Inr v" "v_data v = slice_bytes [1, 2, 3]"
    by (simp add: tensor_view_contiguous_def tensor_view_new_def tensor_bytes_def shape_elements_def
        contiguous_strides_def MAX_NDIM_def len usize_len_def)
  have "view_ok v" using view(1) len
    by (auto simp: tensor_view_contiguous_def intro!: tensor_view_new_ok)
  then have vt: "view_ok (with_timestamp_ns (media_ns 40) v)" "usize_len (v_data (with_timestamp_ns (media_ns 40) v)) \<le> 64"
    by (simp_all add: view_ok_def with_timestamp_ns_def view(2) len usize_len_def)
  obtain s where "pick_slot (swept (w_env (demo_waits 7) 0) q) = Some s" using pick by (auto simp: demo_waits_def)
  from publish_take [OF claim(2,3) vt this, of Block 0] obtain p q1 where
    pub: "publish (demo_waits 7) 64 (with_timestamp_ns (media_ns 40) v) Block 0 q = Some (Inr (Some p), q1)" by blast
  have "\<exists>b q2. ingest (\<lambda>_. []) id ?e (demo_waits 7) demo_inner [] opts
      [Ready ?e (demo_waits 7) 0 40 (Some [1, 2, 3])] 1 demo_ring = Some (Inr (), Some b, q2)"
    by (simp add: ingest_def cap claim(1) await_consumers_def ingest_sink_def bus_sink_new_def opts_def Let_def
        epoch_ready_def view(1) pub ingest_verdict_def record_sequence_def record_slot_def close_sink_def drop_pending_def)
  then obtain b q2 where run: "ingest (\<lambda>_. []) id ?e (demo_waits 7) demo_inner [] opts
      [Ready ?e (demo_waits 7) 0 40 (Some [1, 2, 3])] 1 demo_ring = Some (Inr (), Some b, q2)" by blast
  from ingest_accounting [OF run] have "bs_published b = 1" "bs_first_sequence b \<noteq> None"
    by (auto split: list.splits)
  with run show ?thesis by blast
qed

text \<open>
  Every frame fits: the ring the bridge creates has slots for the tensor of its resolution,
  for every resolution below \<open>2^32\<close> and whatever \<^verbatim>\<open>--slot-bytes\<close> says, so neither path can be refused for
  its size; and the length the sink expects is the number of elements of that tensor.
\<close>

theorem frames_fit_slots:
  assumes "ingest_args args = Inr opts" and "unat (in_resolution opts) < 2 ^ 32"
  shows "tensor_bytes F32 (bs_shape (ingest_sink opts)) = in_frame_bytes opts \<and>
    tensor_bytes F32 (bs_shape (ingest_sink opts)) \<le> o_slot_capacity (ingest_ring_options opts) \<and>
    bs_len (ingest_sink opts) = shape_elements (bs_shape (ingest_sink opts)) \<and>
    length (bs_shape (ingest_sink opts)) \<le> MAX_NDIM"
proof -
  have fb: "in_frame_bytes opts = 3 * in_resolution opts * in_resolution opts * 4"
    using assms(1) by (auto simp: ingest_args_def Let_def split: if_splits option.splits)
  have id: "ucast (ucast (in_resolution opts) :: u32) = in_resolution opts"
    using assms(2) by (simp add: word_unat_eq_iff unsigned_ucast_eq unsigned_take_bit_eq take_bit_nat_eq_self)
  have "tensor_bytes F32 (bs_shape (ingest_sink opts)) = in_frame_bytes opts"
    by (simp add: ingest_sink_def bus_sink_new_def tensor_bytes_def shape_elements_def id fb Let_def)
  then show ?thesis
    by (simp add: ingest_ring_options_def) (simp add: ingest_sink_def bus_sink_new_def shape_elements_def id Let_def MAX_NDIM_def)
qed

theorem frames_fit_slots_witness:
  "\<exists>opts. ingest_args (map ascii [''x'', ''stream'', ''--media'', ''m'', ''--ring'', ''r'', ''--slot-bytes'', ''1'']) = Inr opts \<and>
     tensor_bytes F32 (bs_shape (ingest_sink opts)) \<le> o_slot_capacity (ingest_ring_options opts)"
proof -
  obtain opts where opts: "ingest_args (map ascii [''x'', ''stream'', ''--media'', ''m'', ''--ring'', ''r'', ''--slot-bytes'', ''1'']) = Inr opts"
    "in_resolution opts = 224"
    by (simp add: ingest_args_def ascii_def number_after_def Let_def)
  have "unat (in_resolution opts) < 2 ^ 32" by (simp add: opts(2))
  from frames_fit_slots [OF opts(1) this] opts(1) show ?thesis by blast
qed

end
