(* ===== verification/Lab.thy ===== *)
theory Lab
  imports System
begin

text \<open>
  The stress driver, \<^verbatim>\<open>rust/tenzorbus/src/bin/tenzorbus-lab.rs\<close>: its payloads, its command line and its
  commands, each from the attached ring to the way it ends, with the counts it prints. Printing, the
  ready file and the timing of the report are left out. The duration a command sleeps is what the
  other processes are told: \<open>lw_within\<close> is what they do meanwhile.
\<close>

unbundle bit_operations_syntax

subsection \<open>Payloads that identify their sequence\<close>

definition fill :: "u64 \<Rightarrow> usize \<Rightarrow> u32 list" where
  "fill sequence elements =
     (let base = ucast (sequence * 1000003)
      in map (\<lambda>i. base + of_nat i) [0..<unat elements])"

fun verify_from :: "u32 \<Rightarrow> nat \<Rightarrow> u32 list \<Rightarrow> nat option" where
  "verify_from base i [] = None"
| "verify_from base i (v # vs) = (if v \<noteq> base + of_nat i then Some i else verify_from base (i + 1) vs)"

definition verify :: "u64 \<Rightarrow> u32 list \<Rightarrow> nat option" where
  "verify sequence data = (let base = ucast (sequence * 1000003) in verify_from base 0 data)"

subsection \<open>The random numbers\<close>

definition xorshift_new :: "u64 \<Rightarrow> u64" where
  "xorshift_new seed = seed OR 1"

definition xorshift_next :: "u64 \<Rightarrow> u64" where
  "xorshift_next state =
     (let x = state;
          x = x XOR push_bit 13 x;
          x = x XOR drop_bit 7 x;
          x = x XOR push_bit 17 x
      in x)"

subsection \<open>The command line\<close>

definition arg :: "rstring list \<Rightarrow> rstring \<Rightarrow> rstring option" where
  "arg args key =
     (case find (\<lambda>i. args ! i = key) [0..<length args] of
        None \<Rightarrow> None
      | Some i \<Rightarrow> (if i + 1 < length args then Some (args ! (i + 1)) else None))"

definition num :: "rstring list \<Rightarrow> rstring \<Rightarrow> u64 \<Rightarrow> rstring + u64" where
  "num args key dflt =
     (case arg args key of
        None \<Rightarrow> Inr dflt
      | Some v \<Rightarrow> (case parse_u64 v of None \<Rightarrow> Inl (ascii ''bad value for '' @ key) | Some n \<Rightarrow> Inr n))"

definition flag :: "rstring list \<Rightarrow> rstring \<Rightarrow> bool" where
  "flag args key = list_ex (\<lambda>a. a = key) args"

text \<open>How a command ends: by returning, with exit code 1 for an error, by a panic, or killed by itself.\<close>

datatype lab_end = Ended | Exited error | Panicked rstring | Killed

text \<open>
  What surrounds round \<open>k\<close> of a command: the waiting of its call into the ring, the environment of
  its release, the seconds since its start, what the other processes do before the round, and what
  they do within it while the command sleeps the given number of microseconds.
\<close>

record lab_world =
  lw_waits :: "nat \<Rightarrow> waits"
  lw_env :: "nat \<Rightarrow> env"
  lw_elapsed :: "nat \<Rightarrow> u64"
  lw_before :: "nat \<Rightarrow> ring \<Rightarrow> ring"
  lw_within :: "nat \<Rightarrow> u64 \<Rightarrow> ring \<Rightarrow> ring"

definition millis :: "u64 \<Rightarrow> nat" where
  "millis n = unat n * 10 ^ 6"

definition lab_attach :: "'k kernel \<Rightarrow> (mapping \<Rightarrow> ring) \<Rightarrow> rstring \<Rightarrow> 'k \<Rightarrow> 'k \<times> (rstring + inner)" where
  "lab_attach K contents name k =
     (case ring_attach K contents name k of
        (k1, Inl _) \<Rightarrow> (k1, Inl (ascii ''attach''))
      | (k1, Inr h) \<Rightarrow> (k1, Inr (keep_on_drop h)))"

subsection \<open>create, unlink, stats\<close>

definition lab_name :: "rstring list \<Rightarrow> rstring" where
  "lab_name args = (case arg args (ascii ''--ring'') of None \<Rightarrow> ascii ''lab'' | Some name \<Rightarrow> name)"

definition lab_create :: "'k kernel \<Rightarrow> rstring list \<Rightarrow> 'k \<Rightarrow> 'k \<times> (rstring + inner \<times> ring)" where
  "lab_create K args k =
     (case num args (ascii ''--slots'') 8 of
        Inl m \<Rightarrow> (k, Inl m)
      | Inr slot_count \<Rightarrow>
          (case num args (ascii ''--capacity'') (push_bit 20 1) of
             Inl m \<Rightarrow> (k, Inl m)
           | Inr slot_capacity \<Rightarrow>
               (case ring_create K (lab_name args)
                       \<lparr>o_slot_count = slot_count, o_slot_capacity = slot_capacity, o_force = True\<rparr> k of
                  (k1, Inl _) \<Rightarrow> (k1, Inl (ascii ''create''))
                | (k1, Inr (h, r)) \<Rightarrow> (k1, Inr (keep_on_drop h, r)))))"

definition lab_unlink :: "'k kernel \<Rightarrow> rstring list \<Rightarrow> 'k \<Rightarrow> 'k" where
  "lab_unlink K args k = fst (shm_unlink K (lab_name args) k)"

definition lab_stats ::
  "'k kernel \<Rightarrow> (mapping \<Rightarrow> ring) \<Rightarrow> rstring list \<Rightarrow> 'k \<Rightarrow> 'k \<times> (rstring + ring_stats)" where
  "lab_stats K contents args k =
     (case lab_attach K contents (lab_name args) k of
        (k1, Inl m) \<Rightarrow> (k1, Inl m)
      | (k1, Inr h) \<Rightarrow> (k1, Inr (ring_stats h (contents (i_map h)))))"

subsection \<open>produce\<close>

definition set_next_sequence :: "u64 \<Rightarrow> ring \<Rightarrow> ring" where
  "set_next_sequence sequence r = r\<lparr>g_next_seq := sequence\<rparr>"

record produce_options =
  po_count :: u64
  po_elements :: usize
  po_timeout :: nat
  po_policy :: backpressure
  po_vary :: bool
  po_start :: "u64 option"

definition produce_args :: "rstring list \<Rightarrow> rstring + produce_options" where
  "produce_args args =
     (case num args (ascii ''--count'') 1000 of Inl m \<Rightarrow> Inl m | Inr tensors \<Rightarrow>
     (case num args (ascii ''--elements'') 1024 of Inl m \<Rightarrow> Inl m | Inr elements \<Rightarrow>
     (case num args (ascii ''--timeout-ms'') 5000 of Inl m \<Rightarrow> Inl m | Inr timeout_ms \<Rightarrow>
     (case num args (ascii ''--stagger-us'') 0 of Inl m \<Rightarrow> Inl m | Inr stagger_us \<Rightarrow>
       (let policy = (if arg args (ascii ''--policy'') = Some (ascii ''drop_newest'') then DropNewest else Block);
            opts = \<lparr>po_count = tensors, po_elements = elements, po_timeout = millis timeout_ms, po_policy = policy,
                    po_vary = flag args (ascii ''--vary''), po_start = None\<rparr>
        in case arg args (ascii ''--start-sequence'') of
             None \<Rightarrow> Inr opts
           | Some sq \<Rightarrow> (case parse_u64 sq of
                 None \<Rightarrow> Inl (ascii ''start-sequence'')
               | Some n \<Rightarrow> Inr (opts\<lparr>po_start := Some n\<rparr>)))))))"

record produce_state =
  ps_ring :: ring
  ps_rng :: u64
  ps_published :: u64
  ps_dropped :: u64

text \<open>The number of elements of the next tensor and the state of the generator; \<open>None\<close> for \<^verbatim>\<open>% 0\<close>.\<close>

definition next_elements :: "produce_options \<Rightarrow> u64 \<Rightarrow> (usize \<times> u64) option" where
  "next_elements opts rng =
     (if po_vary opts
      then (let rng1 = xorshift_next rng
            in if po_elements opts = 0 then None else Some (1 + rng1 mod po_elements opts, rng1))
      else Some (po_elements opts, rng))"

definition lab_shape :: "bool \<Rightarrow> usize \<Rightarrow> u32 list" where
  "lab_shape vary elements =
     (if vary \<and> elements mod 4 = 0 then [ucast (elements div 4), 4] else [ucast elements])"

definition lab_view :: "bool \<Rightarrow> u64 \<Rightarrow> usize \<Rightarrow> error + tensor_view" where
  "lab_view vary sequence elements =
     tensor_view_contiguous I32 (lab_shape vary elements) (slice_bytes (fill sequence elements))"

fun produce_loop ::
  "lab_world \<Rightarrow> inner \<Rightarrow> produce_options \<Rightarrow> u64 \<Rightarrow> nat \<Rightarrow> nat \<Rightarrow> produce_state \<Rightarrow>
   (lab_end \<times> produce_state) option" where
  "produce_loop L h opts duration_s 0 k st = Some (Ended, st)"
| "produce_loop L h opts duration_s (Suc rest) k st0 =
     (let st = st0\<lparr>ps_ring := lw_before L k (ps_ring st0)\<rparr>
      in if 0 < duration_s \<and> duration_s \<le> lw_elapsed L k then Some (Ended, st)
         else
           (case next_elements opts (ps_rng st) of
              None \<Rightarrow> Some (Panicked (ascii ''attempt to calculate the remainder with a divisor of zero''), st)
            | Some (elements, rng) \<Rightarrow>
                (let st1 = st\<lparr>ps_rng := rng\<rparr>;
                     sequence = st_next_sequence (ring_stats h (ps_ring st1))
                 in case lab_view (po_vary opts) sequence elements of
                      Inl _ \<Rightarrow> Some (Panicked (ascii ''view''), st1)
                    | Inr view \<Rightarrow>
                        (case publish (lw_waits L k) (i_slot_capacity h) view (po_policy opts) (po_timeout opts)
                                (lw_within L k 0 (ps_ring st1)) of
                           None \<Rightarrow> None
                         | Some (Inl err, q) \<Rightarrow> Some (Exited err, st1\<lparr>ps_ring := q\<rparr>)
                         | Some (Inr (Some _), q) \<Rightarrow>
                             produce_loop L h opts duration_s rest (k + 1)
                               (st1\<lparr>ps_ring := q, ps_published := ps_published st1 + 1\<rparr>)
                         | Some (Inr None, q) \<Rightarrow>
                             produce_loop L h opts duration_s rest (k + 1)
                               (st1\<lparr>ps_ring := q, ps_dropped := ps_dropped st1 + 1\<rparr>)))))"

text \<open>
  \<^verbatim>\<open>produce\<close> once the ring is attached. A return or a panic drops the \<^verbatim>\<open>Producer\<close>, which gives the role
  back; \<^verbatim>\<open>process::exit\<close> does not.
\<close>

definition leave_role :: "env \<Rightarrow> usize \<Rightarrow> lab_end \<times> produce_state \<Rightarrow> lab_end \<times> produce_state" where
  "leave_role e n = (\<lambda>(how, st).
     (how, case how of Exited _ \<Rightarrow> st | _ \<Rightarrow> st\<lparr>ps_ring := snd (producer_drop e n (ps_ring st))\<rparr>))"

definition produce ::
  "lab_world \<Rightarrow> env \<Rightarrow> inner \<Rightarrow> rstring list \<Rightarrow> ring \<Rightarrow> (lab_end \<times> produce_state) option" where
  "produce L e h args r =
     (let start = (\<lambda>q. \<lparr>ps_ring = q, ps_rng = xorshift_new (0x5eed1234 XOR ucast (e_pid e)),
                         ps_published = 0, ps_dropped = 0\<rparr>)
      in case producer_claim e (i_producers h) r of
           None \<Rightarrow> None
         | Some (Inl _, _, q) \<Rightarrow> Some (Panicked (ascii ''producer''), start q)
         | Some (Inr _, n, q) \<Rightarrow>
             map_option (leave_role e n)
               (case produce_args args of
                  Inl m \<Rightarrow> Some (Panicked m, start q)
                | Inr opts \<Rightarrow>
                    (let q1 = (case po_start opts of None \<Rightarrow> q | Some sq \<Rightarrow> set_next_sequence sq q)
                     in case num args (ascii ''--hold-ms'') 0 of
                          Inl m \<Rightarrow> Some (Panicked m, start q1)
                        | Inr _ \<Rightarrow>
                            (case num args (ascii ''--duration-s'') 0 of
                               Inl m \<Rightarrow> Some (Panicked m, start q1)
                             | Inr duration_s \<Rightarrow>
                                 produce_loop L h opts duration_s (unat (po_count opts)) 0 (start q1)))))"

subsection \<open>consume\<close>

record consume_options =
  co_expect :: u64
  co_timeout_ms :: u64
  co_sleep_max_us :: u64
  co_die_after :: u64
  co_until_idle_ms :: u64

definition consume_args :: "rstring list \<Rightarrow> rstring + consume_options" where
  "consume_args args =
     (case num args (ascii ''--expect'') 1000 of Inl m \<Rightarrow> Inl m | Inr expect \<Rightarrow>
     (case num args (ascii ''--timeout-ms'') 10000 of Inl m \<Rightarrow> Inl m | Inr timeout_ms \<Rightarrow>
     (case num args (ascii ''--sleep-max-us'') 0 of Inl m \<Rightarrow> Inl m | Inr sleep_max_us \<Rightarrow>
     (case num args (ascii ''--die-after'') 0 of Inl m \<Rightarrow> Inl m | Inr die_after \<Rightarrow>
     (case num args (ascii ''--until-idle-ms'') 0 of Inl m \<Rightarrow> Inl m | Inr until_idle_ms \<Rightarrow>
        Inr \<lparr>co_expect = expect, co_timeout_ms = timeout_ms, co_sleep_max_us = sleep_max_us,
             co_die_after = die_after, co_until_idle_ms = until_idle_ms\<rparr>)))))"

definition wait_ms :: "consume_options \<Rightarrow> u64" where
  "wait_ms opts = (if 0 < co_until_idle_ms opts then co_until_idle_ms opts else co_timeout_ms opts)"

record tally =
  t_received :: u64
  t_bad :: u64
  t_first :: u64
  t_last :: u64
  t_gaps :: u64
  t_violations :: u64

definition tally_new :: tally where
  "tally_new = \<lparr>t_received = 0, t_bad = 0, t_first = 0, t_last = 0, t_gaps = 0, t_violations = 0\<rparr>"

definition tally_lease :: "u64 \<Rightarrow> u32 list \<Rightarrow> tally \<Rightarrow> tally" where
  "tally_lease sq data t =
     (let t1 = (if verify sq data \<noteq> None then t\<lparr>t_bad := t_bad t + 1\<rparr> else t);
          t2 = (if t_received t1 = 0 then t1\<lparr>t_first := sq\<rparr>
                else if sq \<noteq> t_last t1 + 1 then t1\<lparr>t_gaps := t_gaps t1 + 1\<rparr> else t1);
          t3 = t2\<lparr>t_last := sq\<rparr>
      in t3\<lparr>t_received := t_received t3 + 1\<rparr>)"

definition lease_words :: "lease \<Rightarrow> ring \<Rightarrow> u32 list" where
  "lease_words l r = slice_words (lease_data (l_meta l) r)"

text \<open>\<open>None\<close> when a call into the ring never returns, or the loop does not.\<close>

partial_function (option) consume_loop ::
  "lab_world \<Rightarrow> usize \<Rightarrow> consume_options \<Rightarrow> nat \<Rightarrow> u64 \<Rightarrow> tally \<Rightarrow> consumer \<Rightarrow> ring \<Rightarrow>
   (lab_end \<times> tally \<times> consumer \<times> ring) option" where
  "consume_loop L cap opts k rng t c r =
     (if \<not> t_received t < co_expect opts then Some (Ended, t, c, r)
      else
        (case consumer_next (lw_waits L k) cap c (millis (wait_ms opts)) (lw_before L k r) of
           None \<Rightarrow> None
         | Some (Inl err, c1, q) \<Rightarrow>
             Some (if 0 < co_until_idle_ms opts \<and> 0 < t_received t then Ended else Exited err, t, c1, q)
         | Some (Inr l, c1, q) \<Rightarrow>
             (let t1 = tally_lease (m_sequence (l_meta l)) (lease_words l q) t
              in if 0 < co_die_after opts \<and> t_received t1 = co_die_after opts then Some (Killed, t1, c1, q)
                 else
                   (let rng1 = (if 0 < co_sleep_max_us opts then xorshift_next rng else rng);
                        us = (if 0 < co_sleep_max_us opts then rng1 mod co_sleep_max_us opts else 0)
                    in case lease_release (lw_env L k) c1 l (lw_within L k us q) of
                         (l1, res, q1) \<Rightarrow>
                           consume_loop L cap opts (k + 1) rng1
                             (case res of Inl _ \<Rightarrow> t1\<lparr>t_violations := t_violations t1 + 1\<rparr> | Inr _ \<Rightarrow> t1) c1 q1))))"

text \<open>
  \<^verbatim>\<open>consume\<close> once the ring is attached: a return or a panic drops the \<^verbatim>\<open>Consumer\<close>, which closes it.
\<close>

definition leave_registry ::
  "env \<Rightarrow> lab_end \<times> tally \<times> consumer \<times> ring \<Rightarrow> (lab_end \<times> tally \<times> ring) option" where
  "leave_registry e = (\<lambda>(how, t, c, r).
     (case how of
        Ended \<Rightarrow> map_option (\<lambda>(_, q). (how, t, q)) (consumer_close e c r)
      | Panicked _ \<Rightarrow> map_option (\<lambda>(_, q). (how, t, q)) (consumer_close e c r)
      | _ \<Rightarrow> Some (how, t, r)))"

definition consume ::
  "lab_world \<Rightarrow> env \<Rightarrow> inner \<Rightarrow> rstring list \<Rightarrow> ring \<Rightarrow> (lab_end \<times> tally \<times> ring) option" where
  "consume L e h args r =
     (case consumer_register e r of
        None \<Rightarrow> None
      | Some (Inl _, q) \<Rightarrow> Some (Panicked (ascii ''consumer''), tally_new, q)
      | Some (Inr c, q) \<Rightarrow>
          (case (case consume_args args of
                   Inl m \<Rightarrow> Some (Panicked m, tally_new, c, q)
                 | Inr opts \<Rightarrow>
                     consume_loop L (i_slot_capacity h) opts 0 (xorshift_new (0xc0ffee XOR ucast (e_pid e))) tally_new c q) of
             None \<Rightarrow> None
           | Some out \<Rightarrow> leave_registry e out))"

subsection \<open>abandon\<close>

text \<open>A panic drops the \<^verbatim>\<open>Producer\<close>; the kill of the last line drops nothing.\<close>

definition abandon :: "env \<Rightarrow> inner \<Rightarrow> rstring list \<Rightarrow> ring \<Rightarrow> (lab_end \<times> nat option \<times> ring) option" where
  "abandon e h args r =
     (case producer_claim e (i_producers h) r of
        None \<Rightarrow> None
      | Some (Inl _, _, q) \<Rightarrow> Some (Panicked (ascii ''producer''), None, q)
      | Some (Inr _, n, q) \<Rightarrow>
          (case num args (ascii ''--elements'') 16 of
             Inl m \<Rightarrow> Some (Panicked m, None, snd (producer_drop e n q))
           | Inr elements \<Rightarrow>
               (case tensor_view_contiguous I32 [ucast elements] (slice_bytes (fill 1 elements)) of
                  Inl _ \<Rightarrow> Some (Panicked (ascii ''view''), None, snd (producer_drop e n q))
                | Inr view \<Rightarrow>
                    (case reserve_without_commit e view q of
                       None \<Rightarrow> None
                     | Some (Inl _, q1) \<Rightarrow> Some (Panicked (ascii ''reserve''), None, snd (producer_drop e n q1))
                     | Some (Inr s, q1) \<Rightarrow> Some (Killed, Some s, q1)))))"

subsection \<open>main\<close>

datatype lab_command = Create | Unlink | Produce | Consume | Abandon | Stats | Usage

definition lab_command :: "rstring list \<Rightarrow> lab_command" where
  "lab_command args =
     (let cmd = (if 1 < length args then args ! 1 else ascii ''help'')
      in if cmd = ascii ''create'' then Create
         else if cmd = ascii ''unlink'' then Unlink
         else if cmd = ascii ''produce'' then Produce
         else if cmd = ascii ''consume'' then Consume
         else if cmd = ascii ''abandon'' then Abandon
         else if cmd = ascii ''stats'' then Stats
         else Usage)"

subsection \<open>Arithmetic of the payloads and the generator\<close>

lemma ucast_mult_down: "(ucast (a * b :: u64) :: u32) = ucast a * ucast b"
proof -
  have "take_bit 32 (take_bit 64 (uint a * uint b)) = take_bit 32 (uint a * uint b)" by simp
  then have "uint (ucast (a * b :: u64) :: u32) = uint (ucast a * ucast b :: u32)"
    by (simp add: uint_word_ariths unsigned_ucast_eq take_bit_eq_mod mod_mult_eq mod_mod_cancel)
  then show ?thesis by (simp add: word_uint_eq_iff)
qed

lemma base_inj: "(ucast (s * 1000003 :: u64) :: u32) = ucast (s' * 1000003 :: u64) \<longleftrightarrow> (ucast s :: u32) = ucast s'"
proof
  have undo: "x * 1000003 * 2021759595 = x" for x :: u32
  proof -
    have "(1000003 :: u32) * 2021759595 = 1" by simp
    then have "x * (1000003 * 2021759595) = x" by (simp only: mult_1_right)
    then show ?thesis by (simp only: mult.assoc)
  qed
  assume "(ucast (s * 1000003 :: u64) :: u32) = ucast (s' * 1000003 :: u64)"
  then have "(ucast s :: u32) * 1000003 = ucast s' * 1000003" by (simp add: ucast_mult_down)
  then show "(ucast s :: u32) = ucast s'" by (metis undo)
qed (simp add: ucast_mult_down)

lemma verify_from_None: "verify_from base i xs = None \<longleftrightarrow> xs = map (\<lambda>j. base + of_nat (i + j)) [0..<length xs]"
proof (induction xs arbitrary: i)
  case (Cons x xs)
  have "map (\<lambda>j. base + of_nat (i + j)) [0..<length (x # xs)] =
      (base + of_nat i) # map (\<lambda>j. base + of_nat (i + 1 + j)) [0..<length xs]"
    by (simp add: upt_conv_Cons map_Suc_upt [symmetric] o_def algebra_simps del: upt_Suc map_Suc_upt)
  then show ?case using Cons.IH [of "i + 1"] by simp
qed simp

lemma verify_None:
  assumes "length data < 2 ^ 64"
  shows "verify s data = None \<longleftrightarrow> data = fill s (usize_len data)"
  using assms by (simp add: verify_def fill_def verify_from_None usize_len_def unat_of_nat_small Let_def)

lemma xorshift_push: 
  assumes "0 < n" "x XOR push_bit n x = (y :: u64) XOR push_bit n y"
  shows "x = y"
proof (rule bit_word_eqI)
  fix k assume "k < LENGTH(64)"
  then show "bit x k = bit y k"
  proof (induction k rule: less_induct)
    case (less k)
    have "bit (x XOR push_bit n x) k = bit (y XOR push_bit n y) k" using assms(2) by simp
    moreover have "n \<le> k \<Longrightarrow> bit x (k - n) = bit y (k - n)" using less assms(1) by auto
    ultimately show ?case using less.prems by (auto simp: bit_simps)
  qed
qed

lemma xorshift_drop: 
  assumes "0 < n" "x XOR drop_bit n x = (y :: u64) XOR drop_bit n y"
  shows "x = y"
proof (rule bit_word_eqI)
  fix k assume "k < LENGTH(64)"
  then show "bit x k = bit y k"
  proof (induction "64 - k" arbitrary: k rule: less_induct)
    case less
    have "bit (x XOR drop_bit n x) k = bit (y XOR drop_bit n y) k" using assms(2) by simp
    moreover have "bit x (k + n) = bit y (k + n)"
    proof (cases "k + n < 64")
      case True
      then show ?thesis using less.hyps [of "k + n"] assms(1) less.prems by simp
    next
      case False
      then show ?thesis by (simp add: impossible_bit)
    qed
    ultimately show ?case by (auto simp: bit_simps add.commute)
  qed
qed

lemma xorshift_inj: "xorshift_next x = xorshift_next y \<Longrightarrow> x = y"
  unfolding xorshift_next_def Let_def by (blast dest: xorshift_push [rotated] xorshift_drop [rotated] intro: zero_less_numeral)

lemma xorshift_new_nonzero: "xorshift_new seed \<noteq> 0"
proof
  assume "xorshift_new seed = 0"
  then have "bit (seed OR 1) 0 = bit (0 :: u64) 0" by (simp add: xorshift_new_def)
  then show False by (simp add: bit_simps)
qed

subsection \<open>Slots that hold what their sequence says\<close>

definition stamped_slot :: "slot_header \<Rightarrow> u8 list \<Rightarrow> bool" where
  "stamped_slot h p \<longleftrightarrow>
     (s_state h = STATE_COMMITTED \<longrightarrow> verify (s_sequence h) (slice_words (take (unat (s_nbytes h)) p)) = None)"

definition stamped :: "ring \<Rightarrow> bool" where
  "stamped r \<longleftrightarrow> (\<forall>s<length (slots r). stamped_slot (slots r ! s) (payloads r ! s))"

lemma stamped_cong: "slots q = slots r \<Longrightarrow> payloads q = payloads r \<Longrightarrow> stamped q = stamped r"
  by (simp add: stamped_def)

lemma stamped_slots:
  assumes "stamped r" "length (slots q) = length (slots r)"
    and "\<And>s. s < length (slots r) \<Longrightarrow> s_state (slots q ! s) = STATE_COMMITTED \<Longrightarrow>
      s_state (slots r ! s) = STATE_COMMITTED \<and> s_sequence (slots q ! s) = s_sequence (slots r ! s) \<and>
      s_nbytes (slots q ! s) = s_nbytes (slots r ! s) \<and> payloads q ! s = payloads r ! s"
  shows "stamped q"
  using assms unfolding stamped_def stamped_slot_def by metis

lemma stamped_swept: "stamped r \<Longrightarrow> slots q = slots (swept e r) \<Longrightarrow> payloads q = payloads r \<Longrightarrow> stamped q"
  by (rule stamped_slots) (auto split: if_splits)

lemma stamped_clear:
  "stamped r \<Longrightarrow> slots q = map (clear_reader i) (slots r) \<Longrightarrow> payloads q = payloads r \<Longrightarrow> stamped q"
  by (rule stamped_slots) (auto simp: clear_reader_def split: if_splits)

lemma clear_reader_keeps:
  "s_state (clear_reader i h) = s_state h" "s_sequence (clear_reader i h) = s_sequence h"
  "s_nbytes (clear_reader i h) = s_nbytes h"
  by (simp_all add: clear_reader_def)

lemma stamped_released: "stamped r \<Longrightarrow> stamped (released_ring e c s r)"
  by (rule stamped_slots, assumption, simp)
    (cases "s < length (slots r)", auto simp: nth_list_update clear_reader_keeps list_update_beyond split: if_splits)

lemma lab_view_ok:
  assumes "lab_view vary sq n = Inr v" "unat n < 2 ^ 62"
  shows "view_ok v \<and> v_data v = slice_bytes (fill sq n)"
proof -
  have "length (slice_bytes (fill sq n)) < 2 ^ 64"
    using assms(2) by (simp add: length_slice_bytes fill_def Let_def)
  then show ?thesis
    using assms(1) tensor_view_new_ok
    by (auto simp: lab_view_def tensor_view_contiguous_def tensor_view_new_def split: if_splits)
qed

lemma verify_fill: "verify sq (fill sq n) = None"
  by (simp add: verify_def fill_def verify_from_None Let_def)


text \<open>What a producer needs of the ring, and keeps.\<close>

definition good :: "usize \<Rightarrow> ring \<Rightarrow> bool" where
  "good cap r \<longleftrightarrow> wf_ring cap r \<and> lock_free r \<and> stamped r"

lemma good_failed: "good cap r \<Longrightarrow> good cap (failed_ring e r)"
  using wf_failed_ring [of cap r e] stamped_swept [of r "failed_ring e r" e]
  by (simp add: good_def) (simp add: failed_ring_def)

lemma good_published:
  assumes "good cap r" and v: "view_ok v" "usize_len (v_data v) \<le> cap"
    and data: "verify (g_next_seq r) (slice_words (v_data v)) = None"
    and pick: "pick_slot (swept e r) = Some s"
  shows "good cap (commit_slot s (copy_payload s (v_data v)
    (reserved_ring e (v_dtype v) (v_ndim v) (v_shape v) (v_strides v) (usize_len (v_data v)) (v_timestamp_ns v) s r)))"
    (is "good cap ?q")
proof -
  from assms have r: "wf_ring cap r" "lock_free r" "stamped r" by (simp_all add: good_def)
  have s: "s < length (slots r)" "s < length (payloads r)"
    using pick_slot_reclaimable [OF pick] wf_ringD(4) [OF r(1)] by simp_all
  have "stamped (swept e r)" using r(3) by (rule stamped_swept) simp_all
  moreover have "take (unat (usize_len (v_data v))) (v_data v @ drop (length (v_data v)) p) = v_data v" for p
    using v(1) by (simp add: usize_len_def view_ok_def unat_of_nat_small)
  ultimately have "stamped ?q"
    using s data by (auto simp: stamped_def stamped_slot_def nth_list_update reserved_header_def)
  then show ?thesis
    using wf_published [OF r(1,2) v pick] by (simp add: good_def lock_free_def free_lock_def)
qed

text \<open>The others keep the ring good and, while a producer works, its sequence counter.\<close>

definition keeps_good :: "usize \<Rightarrow> (ring \<Rightarrow> ring) \<Rightarrow> bool" where
  "keeps_good cap f \<longleftrightarrow> (\<forall>r. good cap r \<longrightarrow> good cap (f r) \<and> g_next_seq (f r) = g_next_seq r)"

lemma publish_good:
  assumes others: "\<And>j. keeps_good cap (w_other W j)"
    and good: "good cap r" and v: "view_ok v"
    and data: "verify (g_next_seq r) (slice_words (v_data v)) = None"
    and op: "publish W cap v policy timeout r = Some (res, q)"
  shows "good cap q"
proof (cases "usize_len (v_data v) \<le> cap")
  case False
  with op good show ?thesis by (simp add: publish_def not_le)
next
  case le: True
  define I where "I q \<longleftrightarrow> good cap q \<and> g_next_seq q = g_next_seq r" for q
  have dims: "length (v_shape v) = MAX_NDIM" "length (v_strides v) = MAX_NDIM" using v by (simp_all add: view_ok_def)
  have loop: "case res of
      Inr (Some x) \<Rightarrow> good cap (commit_slot (fst x) (copy_payload (fst x) (v_data v) q)) | _ \<Rightarrow> good cap q"
    if "reserve_loop W (\<lambda>e. reserve_for_copy e v) policy (w_start W + timeout) 0 r = Some (res, q)" for res q
  proof (rule reserve_loop_rule [OF that, of I])
    show "I r" by (simp add: I_def good)
    fix k p
    assume "I p"
    then have p: "good cap p" "wf_ring cap p" "lock_free p" "g_next_seq p = g_next_seq r" by (simp_all add: I_def good_def)
    have failed: "good cap (failed_ring (w_env W k) p)" using p(1) by (rule good_failed)
    then have dropped: "good cap ((failed_ring (w_env W k) p)\<lparr>g_drop_count := n\<rparr>)" for n
      by (simp add: good_def lock_free_def stamped_def)
    have "I (w_other W k (failed_ring (w_env W k) p))"
      using others [of k] failed p(4) by (simp add: keeps_good_def I_def) (simp add: failed_ring_def)
    with failed dropped show "\<exists>r1 r2 x. lock_registry (w_env W k) p = Some r1 \<and>
      reserve_for_copy (w_env W k) v r1 = (x, r2) \<and>
      (case x of Some y \<Rightarrow> good cap (commit_slot (fst y) (copy_payload (fst y) (v_data v) (unlock_registry r2)))
       | None \<Rightarrow> good cap (unlock_registry r2) \<and>
           good cap ((unlock_registry r2)\<lparr>g_drop_count := g_drop_count r2 + 1\<rparr>) \<and>
           I (w_other W k (unlock_registry r2)))"
      using reserve_attempt [OF p(2,3) dims, of "w_env W k" "v_dtype v" "v_ndim v" "usize_len (v_data v)" "v_timestamp_ns v"]
        good_published [OF p(1) v le, of "w_env W k"] data p(4)
      by (fastforce simp: reserve_for_copy_def split: option.splits)
  qed
  show ?thesis
    using op le loop by (auto simp: publish_def split: if_splits option.splits sum.splits prod.splits)
qed

lemma good_cong:
  "g_consumers q = g_consumers r \<Longrightarrow> registry q = registry r \<Longrightarrow> slots q = slots r \<Longrightarrow> payloads q = payloads r \<Longrightarrow> lock_free q \<Longrightarrow> good cap r \<Longrightarrow> good cap q"
  using wf_ring_cong [of q r cap] stamped_cong [of q r] active_mask_cong [of q r] by (simp add: good_def)

text \<open>A world whose other processes keep the ring good and leave the sequence counter to the producer.\<close>

definition producer_world :: "usize \<Rightarrow> lab_world \<Rightarrow> bool" where
  "producer_world cap L \<longleftrightarrow>
     (\<forall>k j us. keeps_good cap (w_other (lw_waits L k) j) \<and> keeps_good cap (lw_before L k) \<and> keeps_good cap (lw_within L k us))"

lemma next_elements_small:
  assumes "next_elements opts rng = Some (n, rng1)" "unat (po_elements opts) < 2 ^ 62"
  shows "unat n < 2 ^ 62"
proof (cases "po_vary opts")
  case True
  with assms(1) have nz: "po_elements opts \<noteq> 0" and n: "n = 1 + xorshift_next rng mod po_elements opts"
    by (auto simp: next_elements_def Let_def split: if_splits)
  have "unat (xorshift_next rng mod po_elements opts) < unat (po_elements opts)"
    using nz by (simp add: unat_mod unat_gt_0)
  then have "unat n \<le> unat (po_elements opts)"
    using assms(2) unat_plus_if' [of "1 :: u64" "xorshift_next rng mod po_elements opts"] by (auto simp: n)
  with assms(2) show ?thesis by simp
qed (use assms in \<open>auto simp: next_elements_def\<close>)

lemma produce_loop_good:
  assumes world: "producer_world (i_slot_capacity h) L" and small: "unat (po_elements opts) < 2 ^ 62"
    and good: "good (i_slot_capacity h) (ps_ring st)"
    and run: "produce_loop L h opts d n k st = Some (how, st')"
  shows "good (i_slot_capacity h) (ps_ring st')"
  using good run
proof (induction n arbitrary: k st)
  case (Suc n)
  let ?r = "lw_before L k (ps_ring st)"
  let ?sq = "g_next_seq ?r"
  have before: "good (i_slot_capacity h) ?r"
    using world Suc.prems(1) by (simp add: producer_world_def keeps_good_def)
  have within: "good (i_slot_capacity h) (lw_within L k 0 ?r)" "g_next_seq (lw_within L k 0 ?r) = ?sq"
    using world before by (simp_all add: producer_world_def keeps_good_def)
  have sq: "st_next_sequence (ring_stats h r) = g_next_seq r" for r
    by (simp add: ring_stats_def split: prod.split)
  have pub: "good (i_slot_capacity h) q"
    if "next_elements opts (ps_rng st) = Some (m, rng1)" "lab_view (po_vary opts) ?sq m = Inr view"
      "publish (lw_waits L k) (i_slot_capacity h) view (po_policy opts) (po_timeout opts) (lw_within L k 0 ?r) = Some (res, q)"
    for m rng1 view res q
  proof (rule publish_good [OF _ within(1) _ _ that(3)])
    have v: "view_ok view \<and> v_data view = slice_bytes (fill ?sq m)"
      using lab_view_ok [OF that(2) next_elements_small [OF that(1) small]] .
    then show "view_ok view" "verify (g_next_seq (lw_within L k 0 ?r)) (slice_words (v_data view)) = None"
      by (simp_all add: within(2) slice_words_bytes verify_fill)
    show "keeps_good (i_slot_capacity h) (w_other (lw_waits L k) j)" for j using world by (simp add: producer_world_def)
  qed
  show ?case
    using Suc.prems(2) before
    by (auto simp: Let_def sq split: if_splits option.splits prod.splits sum.splits dest: pub)
      (rule Suc.IH [rotated], assumption, simp, erule (2) pub)+
qed simp

text \<open>The same for a consumer, which reads what is there and clears its bit.\<close>

definition keeps_stamped :: "(ring \<Rightarrow> ring) \<Rightarrow> bool" where
  "keeps_stamped f \<longleftrightarrow> (\<forall>r. stamped r \<longrightarrow> stamped (f r))"

definition consumer_world :: "lab_world \<Rightarrow> bool" where
  "consumer_world L \<longleftrightarrow>
     (\<forall>k j us. keeps_stamped (w_other (lw_waits L k) j) \<and> keeps_stamped (lw_before L k) \<and> keeps_stamped (lw_within L k us))"

lemma stamped_upd_slot:
  assumes "stamped r" and same: "\<And>h. s_state (f h) = s_state h \<and> s_sequence (f h) = s_sequence h \<and> s_nbytes (f h) = s_nbytes h"
  shows "stamped (upd_slot s f r)"
proof (rule stamped_slots [OF assms(1)])
  fix j assume "j < length (slots r)"
  then have "slots (upd_slot s f r) ! j = (if j = s then f (slots r ! j) else slots r ! j)"
    by (auto simp: upd_slot_def nth_list_update)
  moreover assume "s_state (slots (upd_slot s f r) ! j) = STATE_COMMITTED"
  ultimately show "s_state (slots r ! j) = STATE_COMMITTED \<and>
      s_sequence (slots (upd_slot s f r) ! j) = s_sequence (slots r ! j) \<and>
      s_nbytes (slots (upd_slot s f r) ! j) = s_nbytes (slots r ! j) \<and> payloads (upd_slot s f r) ! j = payloads r ! j"
    using same by (auto simp: upd_slot_def)
qed (simp add: upd_slot_def)

lemma stamped_upd_entry [simp]: "stamped (upd_entry i f r) = stamped r"
  by (rule stamped_cong) simp_all

lemma stamped_heartbeat [simp]: "stamped (heartbeat e c r) = stamped r"
  by (simp add: heartbeat_def)

lemma stamped_signal_reclaim [simp]: "stamped (signal_reclaim r) = stamped r"
  by (rule stamped_cong) (simp_all add: signal_reclaim_def)

lemma stamped_release: "stamped r \<Longrightarrow> stamped (snd (consumer_release e c m r))"
  by (simp add: consumer_release_def Let_def stamped_upd_slot)

lemma taken_verifies:
  assumes "stamped p" and take: "try_take cap c (length (slots p)) (\<lambda>_. still p) = Some m"
    and q: "(c', q) = take_meta e c m p"
  shows "verify (m_sequence m) (slice_words (lease_data m q)) = None \<and> stamped q"
proof -
  have m: "m_slot_index m < length (slots p)" "read_validated cap c (still p) (m_slot_index m) (m_sequence m) = Some m"
    using try_take_any [OF take] by simp_all
  then have "s_state (slots p ! m_slot_index m) = STATE_COMMITTED" "s_sequence (slots p ! m_slot_index m) = m_sequence m"
    "m_nbytes m = s_nbytes (slots p ! m_slot_index m)"
    by (auto simp: read_validated_def still_def Let_def split: if_splits option.splits dest: arg_cong [of _ m m_nbytes])
  with assms(1) m(1) have "verify (m_sequence m) (slice_words (lease_data m p)) = None"
    by (auto simp: stamped_def stamped_slot_def lease_data_def)
  moreover have "payloads q = payloads p" "stamped q = stamped p"
    using q by (simp_all add: take_meta_def heartbeat_def)
  ultimately show ?thesis using assms(1) by (simp add: lease_data_def)
qed

lemma consumer_next_stamped:
  assumes others: "\<And>j. keeps_stamped (w_other W j)" and "stamped r"
    and op: "consumer_next W cap c timeout r = Some (res, c', q)"
  shows "stamped q \<and> (case res of Inl err \<Rightarrow> err = Timeout | Inr l \<Rightarrow> verify (m_sequence (l_meta l)) (lease_words l q) = None)"
proof -
  obtain out where out: "next_raw W cap c timeout r = Some (out, c', q)"
    "res = map_sum id (\<lambda>m. \<lparr>l_meta = m, l_released = False\<rparr>) out"
    using op by (auto simp: consumer_next_def split: option.splits sum.splits)
  have "\<exists>p j. stamped p \<and> (case out of
      Inl err \<Rightarrow> err = Timeout \<and> c' = c \<and> q = p
    | Inr m \<Rightarrow> try_take cap c (length (slots p)) (\<lambda>_. still p) = Some m \<and> (c', q) = take_meta (w_env W j) c m p)"
    by (rule next_loop_rule [where I = stamped, OF out(1) [unfolded next_raw_def] assms(2)]) (use others in \<open>simp add: keeps_stamped_def\<close>)
  then show ?thesis
    using out(2) taken_verifies by (fastforce simp: lease_words_def split: sum.splits)
qed

text \<open>What is true of the tally whatever the loop has seen.\<close>

definition tally_ok :: "consume_options \<Rightarrow> tally \<Rightarrow> ring \<Rightarrow> bool" where
  "tally_ok opts t r \<longleftrightarrow> t_bad t = 0 \<and> t_received t \<le> co_expect opts \<and> stamped r"

lemma tally_lease_sel [simp]:
  "t_received (tally_lease sq data t) = t_received t + 1"
  "t_bad (tally_lease sq data t) = t_bad t + (if verify sq data = None then 0 else 1)"
  "t_violations (tally_lease sq data t) = t_violations t"
  by (auto simp: tally_lease_def Let_def)

lemma consume_loop_ok:
  assumes run: "consume_loop L cap opts k rng t c r = Some (how, t', c', q)"
    and world: "consumer_world L" and ok: "tally_ok opts t r"
  shows "tally_ok opts t' q \<and>
    (how = Ended \<longrightarrow> t_received t' = co_expect opts \<or> 0 < co_until_idle_ms opts \<and> 0 < t_received t') \<and>
    (\<forall>err. how = Exited err \<longrightarrow> err = Timeout)"
proof -
  define post where "post z \<longleftrightarrow> (case z of (how, t', c', q) \<Rightarrow> tally_ok opts t' q \<and>
    (how = Ended \<longrightarrow> t_received t' = co_expect opts \<or> 0 < co_until_idle_ms opts \<and> 0 < t_received t') \<and>
    (\<forall>err. how = Exited err \<longrightarrow> err = Timeout))" for z :: "lab_end \<times> tally \<times> consumer \<times> ring"
  have "M = L \<longrightarrow> o' = opts \<longrightarrow> tally_ok opts t r \<longrightarrow> post z" if "consume_loop M cap o' k rng t c r = Some z" for M o' z
  proof (rule consume_loop.raw_induct [where P = "\<lambda>M cap o' k rng t c r z. M = L \<longrightarrow> o' = opts \<longrightarrow> tally_ok opts t r \<longrightarrow> post z",
        OF _ that], intro impI, goal_cases)
    case (1 loop M cap o' k rng t c r z)
    then have ok: "tally_ok opts t r" and IH: "\<And>k rng t c r z. loop L cap opts k rng t c r = Some z \<Longrightarrow> tally_ok opts t r \<Longrightarrow> post z"
      by blast+
    show ?case
    proof (cases "t_received t < co_expect opts")
      case False
      with 1 ok show ?thesis by (auto simp: post_def tally_ok_def)
    next
      case True
      have nxt: "stamped q \<and> (case res of Inl err \<Rightarrow> err = Timeout | Inr l \<Rightarrow> verify (m_sequence (l_meta l)) (lease_words l q) = None)"
        if "consumer_next (lw_waits L k) cap c (millis (wait_ms opts)) (lw_before L k r) = Some (res, c1, q)" for res c1 q
        by (rule consumer_next_stamped [OF _ _ that]) (use world ok in \<open>auto simp: consumer_world_def keeps_stamped_def tally_ok_def\<close>)
      have le: "t_received t + 1 \<le> co_expect opts" using True by (simp add: inc_le)
      have rel: "stamped (snd (consumer_release e c1 m (lw_within L k us q)))" if "stamped q" for e c1 m us q
        using world that by (intro stamped_release) (auto simp: consumer_world_def keeps_stamped_def)
      show ?thesis
      proof (cases "consumer_next (lw_waits L k) cap c (millis (wait_ms opts)) (lw_before L k r)")
        case None
        with 1 True show ?thesis by simp
      next
        case (Some y)
        obtain res c1 q where y: "y = (res, c1, q)" by (cases y)
        show ?thesis
        proof (cases res)
          case (Inl err)
          with 1 True Some y nxt ok show ?thesis by (fastforce simp: post_def tally_ok_def split: if_splits)
        next
          case (Inr l)
          then have l: "stamped q" "verify (m_sequence (l_meta l)) (lease_words l q) = None"
            using nxt [OF Some [unfolded y]] by simp_all
          let ?t1 = "tally_lease (m_sequence (l_meta l)) (lease_words l q) t"
          have t1: "tally_ok opts ?t1 q" using l ok le by (simp add: tally_ok_def)
          then have killed: "post (Killed, ?t1, c1, q)" by (simp add: post_def)
          have after: "tally_ok opts (case rr of Inl err \<Rightarrow> ?t1\<lparr>t_violations := t_violations ?t1 + 1\<rparr> | Inr u \<Rightarrow> ?t1) q1"
            if "consumer_release e c1 m (lw_within L k us q) = (rr, q1)" for rr q1 e m us
            using t1 rel [OF l(1), of e c1 m us] that by (auto simp: tally_ok_def split: sum.split)
          show ?thesis
            using 1(2-4) True Some y Inr killed
            by (auto simp: Let_def lease_release_def split: if_splits prod.splits dest!: IH [OF _ after])
        qed
      qed
    qed
  qed
  from this [OF run] ok show ?thesis by (simp add: post_def)
qed

lemma left_shrinks:
  assumes "(a :: u64) < b"
  shows "unat (b - (a + 1)) < unat (b - a)"
proof -
  have "b - a \<noteq> 0" using assms by auto
  then have "unat (b - a - 1) = unat (b - a) - 1" "0 < unat (b - a)" by (simp_all add: unat_minus_one unat_gt_0)
  moreover have eq: "b - (a + 1) = b - a - 1" by simp
  ultimately show ?thesis unfolding eq by linarith
qed

lemma consume_loop_total:
  assumes late: "\<And>k. \<exists>n. w_start (lw_waits L k) + millis (wait_ms opts) \<le> w_now (lw_waits L k) n"
  shows "\<exists>z. consume_loop L cap opts k rng t c r = Some z"
proof (induction "unat (co_expect opts - t_received t)" arbitrary: k rng t c r rule: less_induct)
  case less
  show ?case
  proof (cases "t_received t < co_expect opts")
    case False
    then show ?thesis by (subst consume_loop.simps) simp
  next
    case True
    from late [of k] obtain n where n: "w_start (lw_waits L k) + millis (wait_ms opts) \<le> w_now (lw_waits L k) n" by blast
    have "\<exists>y. consumer_next (lw_waits L k) cap c (millis (wait_ms opts)) (lw_before L k r) = Some y"
      using next_loop_returns [OF n, of 0 cap c "lw_before L k r"]
      by (auto simp: consumer_next_def next_raw_def split: sum.split)
    then obtain res c1 q where step: "consumer_next (lw_waits L k) cap c (millis (wait_ms opts)) (lw_before L k r) = Some (res, c1, q)"
      by (metis prod_cases3)
    have "unat (co_expect opts - (t_received t + 1)) < unat (co_expect opts - t_received t)"
      using True by (rule left_shrinks)
    then have "\<exists>z. consume_loop L cap opts (k + 1) rng' (case x of Inl (a :: error) \<Rightarrow>
        tally_lease (m_sequence (l_meta l)) (lease_words l q) t\<lparr>t_violations := v\<rparr> |
        Inr (u :: unit) \<Rightarrow> tally_lease (m_sequence (l_meta l)) (lease_words l q) t) c1 q1 = Some z" for rng' x v l q1
      by (intro less.hyps) (simp split: sum.split)
    then show ?thesis
      using step True by (subst consume_loop.simps) (auto simp: Let_def lease_release_def split: sum.split prod.split)
  qed
qed

lemma lab_publish_drop:
  assumes "wf_ring cap r" "lock_free r" and v: "view_ok v"
  shows "\<exists>out. publish W cap v DropNewest timeout r = Some out"
proof -
  have dims: "length (v_shape v) = MAX_NDIM" "length (v_strides v) = MAX_NDIM" using v by (simp_all add: view_ok_def)
  show ?thesis
    using reserve_loop_full [OF assms(1,2) dims, of W 0] reserve_loop_take [OF assms(1,2) dims, of W 0]
    by (cases "pick_slot (swept (w_env W 0) r)")
      (auto simp: publish_def reserve_for_copy_def split: sum.split option.split)
qed

lemma produce_loop_count:
  "produce_loop L h opts 0 n k st = Some (Ended, st') \<Longrightarrow>
   ps_published st' + ps_dropped st' = ps_published st + ps_dropped st + of_nat n"
  by (induction n arbitrary: k st) (force simp: Let_def split: option.splits prod.splits sum.splits)+

lemma good_unlocked: "good cap r \<Longrightarrow> good cap (unlock_registry (r\<lparr>g_lock := l, g_producer_pid := p\<rparr>))"
  "good cap r \<Longrightarrow> good cap (unlock_registry (r\<lparr>g_lock := l\<rparr>))"
  by (rule good_cong; simp add: unlock_registry_eq)+

lemma claim_good:
  assumes "good cap r" "producer_claim e n r = Some (res, m, q)"
  shows "good cap q"
  using assms good_unlocked [OF assms(1)]
  by (auto simp: producer_claim_def Let_def split: option.splits if_splits dest!: lock_registry_SomeD)

lemma drop_good: "good cap r \<Longrightarrow> good cap (snd (producer_drop e n r))"
  using good_cong [of "r\<lparr>g_producer_pid := 0\<rparr>" r cap] by (auto simp: producer_drop_def good_def lock_free_def)

lemma set_next_sequence_good: "good cap r \<Longrightarrow> good cap (set_next_sequence sq r)"
  using good_cong [of "set_next_sequence sq r" r cap] by (simp add: set_next_sequence_def good_def lock_free_def)

lemma good_demo_ring: "good 64 demo_ring"
  using wf_demo_ring
  by (auto simp: good_def stamped_def slots_demo_ring stamped_slot_def nth_Cons split: nat.split)

definition quiet_world :: lab_world where
  "quiet_world = \<lparr>lw_waits = (\<lambda>_. demo_waits 9), lw_env = (\<lambda>_. kill_env 9 [7, 9] 1), lw_elapsed = (\<lambda>_. 0),
     lw_before = (\<lambda>_ r. r), lw_within = (\<lambda>_ _ r. r)\<rparr>"

lemma quiet_worlds: "producer_world cap quiet_world" "consumer_world quiet_world"
  by (simp_all add: producer_world_def consumer_world_def quiet_world_def keeps_good_def keeps_stamped_def demo_waits_def)

lemma produce_loop_total:
  assumes world: "producer_world (i_slot_capacity h) L" and small: "unat (po_elements opts) < 2 ^ 62"
    and drop: "po_policy opts = DropNewest" and good: "good (i_slot_capacity h) (ps_ring st)"
  shows "\<exists>out. produce_loop L h opts d n k st = Some out"
  using good
proof (induction n arbitrary: k st)
  case (Suc n)
  let ?r = "lw_within L k 0 (lw_before L k (ps_ring st))"
  have r: "good (i_slot_capacity h) ?r" "g_next_seq ?r = g_next_seq (lw_before L k (ps_ring st))"
    using world Suc.prems by (simp_all add: producer_world_def keeps_good_def)
  have sq: "st_next_sequence (ring_stats h r) = g_next_seq r" for r
    by (simp add: ring_stats_def split: prod.split)
  have "\<exists>res q. publish (lw_waits L k) (i_slot_capacity h) v DropNewest (po_timeout opts) ?r = Some (res, q) \<and>
      good (i_slot_capacity h) q"
    if el: "next_elements opts (ps_rng st) = Some (m, rng1)" and v: "lab_view (po_vary opts) (g_next_seq ?r) m = Inr v" for m rng1 v
  proof -
    have vk: "view_ok v \<and> v_data v = slice_bytes (fill (g_next_seq ?r) m)"
      using lab_view_ok [OF v next_elements_small [OF el small]] .
    have "wf_ring (i_slot_capacity h) ?r" "lock_free ?r" using r(1) by (simp_all add: good_def)
    from lab_publish_drop [OF this] vk obtain res q where
      run: "publish (lw_waits L k) (i_slot_capacity h) v DropNewest (po_timeout opts) ?r = Some (res, q)" by fast
    have "good (i_slot_capacity h) q"
    proof (rule publish_good [OF _ r(1) _ _ run])
      show "keeps_good (i_slot_capacity h) (w_other (lw_waits L k) j)" for j using world by (simp add: producer_world_def)
    qed (use vk in \<open>simp_all add: slice_words_bytes verify_fill\<close>)
    with run show ?thesis by blast
  qed
  then show ?case
    using Suc.IH r(2) by (fastforce simp: Let_def sq drop split: option.splits prod.splits sum.splits)
qed simp

subsection \<open>Properties\<close>

text \<open>
  The generator of the stress runs never gets stuck: its state is not 0 after any number of
  draws, whatever the process id it was seeded from, and two different states never meet, so it runs
  through a cycle.
\<close>

theorem xorshift_never_stuck:
  "(xorshift_next ^^ n) (xorshift_new seed) \<noteq> 0 \<and> bij xorshift_next"
proof -
  have inj: "inj xorshift_next" by (simp add: inj_def xorshift_inj)
  have zero: "xorshift_next 0 = 0" by (simp add: xorshift_next_def)
  have "(xorshift_next ^^ n) (xorshift_new seed) \<noteq> 0"
  proof (induction n)
    case (Suc n)
    then show ?case using xorshift_inj [of _ 0] zero by auto
  qed (simp add: xorshift_new_nonzero)
  with inj show ?thesis by (simp add: bij_def finite_UNIV_inj_surj)
qed

text \<open>
  A payload names its sequence: what \<^verbatim>\<open>fill\<close> writes for one sequence passes \<^verbatim>\<open>verify\<close> for another
  exactly when it is empty or the two agree modulo \<open>2^32\<close>, and otherwise the very first element is
  reported; and a payload passes exactly when it is, element for element, what \<^verbatim>\<open>fill\<close> writes.
\<close>

theorem fill_identifies:
  "verify s (fill s' n) = (if n = 0 \<or> (ucast s :: u32) = ucast s' then None else Some 0) \<and>
   (length data < 2 ^ 64 \<longrightarrow> verify s data = None \<longleftrightarrow> data = fill s (usize_len data))"
proof -
  have "verify s (fill s' n) = (if n = 0 \<or> (ucast s :: u32) = ucast s' then None else Some 0)"
  proof (cases "n = 0 \<or> (ucast s :: u32) = ucast s'")
    case True
    then have "n = 0 \<or> (ucast (s * 1000003 :: u64) :: u32) = ucast (s' * 1000003 :: u64)" by (simp only: base_inj)
    with True show ?thesis by (auto simp: verify_def fill_def verify_from_None Let_def)
  next
    case False
    then have b: "(ucast (s * 1000003 :: u64) :: u32) \<noteq> ucast (s' * 1000003 :: u64)" by (simp only: base_inj) simp
    have "unat n \<noteq> 0" using False by (simp add: unat_eq_zero)
    then obtain m where "unat n = Suc m" using not0_implies_Suc by blast
    with False b show ?thesis by (simp add: verify_def fill_def Let_def upt_conv_Cons del: upt_Suc)
  qed
  then show ?thesis using verify_None by blast
qed

theorem fill_identifies_witness:
  "verify 8 (fill 7 3) = Some 0 \<and> (verify 7 [7000021, 7000022] = None \<longleftrightarrow> [7000021, 7000022] = fill 7 2)"
  using fill_identifies [of 8 7 3] fill_identifies [of 7 0 0 "[7000021, 7000022]"] by (simp add: usize_len_def)

text \<open>
  The producing command only ever publishes payloads that pass the check of their own
  sequence: if every committed slot passes it before the run and the other processes keep that so, it
  is so after the run, however the command ends; and when it returns without a time limit, every
  tensor it was told to send was either published or dropped.
\<close>

theorem produce_publishes_good:
  assumes good: "good (i_slot_capacity h) r" and world: "producer_world (i_slot_capacity h) L"
    and small: "\<forall>opts. produce_args args = Inr opts \<longrightarrow> unat (po_elements opts) < 2 ^ 62"
    and run: "produce L e h args r = Some (how, st)"
  shows "good (i_slot_capacity h) (ps_ring st) \<and>
    (\<forall>opts. how = Ended \<and> produce_args args = Inr opts \<and> num args (ascii ''--duration-s'') 0 = Inr 0 \<longrightarrow>
       ps_published st + ps_dropped st = po_count opts)"
proof -
  define start where "start = (\<lambda>q. \<lparr>ps_ring = q, ps_rng = xorshift_new (0x5eed1234 XOR ucast (e_pid e)),
    ps_published = 0, ps_dropped = 0\<rparr>)"
  have left: "good (i_slot_capacity h) (ps_ring st')"
    if "leave_role e n (how', st'') = (how, st')" "good (i_slot_capacity h) (ps_ring st'')" for n how' st' st''
    using that drop_good [OF that(2)] by (auto simp: leave_role_def split: lab_end.splits)
  have counts: "how' = how \<and> ps_published st' = ps_published st'' \<and> ps_dropped st' = ps_dropped st''"
    if "leave_role e n (how', st'') = (how, st')" for n how' st' st''
    using that by (auto simp: leave_role_def split: lab_end.splits)
  obtain res n q where claim: "producer_claim e (i_producers h) r = Some (res, n, q)"
    using run by (auto simp: produce_def split: option.splits)
  have q: "good (i_slot_capacity h) q" by (rule claim_good [OF good claim])
  note run' = run [unfolded produce_def claim Let_def start_def [symmetric] option.case prod.case]
  show ?thesis
  proof (cases res)
    case (Inl err)
    with run' q show ?thesis by (auto simp: start_def)
  next
    case (Inr u)
    show ?thesis
    proof (cases "produce_args args")
      case (Inl m)
      with run' Inr q left show ?thesis by (fastforce simp: start_def)
    next
      case opts: (Inr opts)
      define q1 where "q1 = (case po_start opts of None \<Rightarrow> q | Some sq \<Rightarrow> set_next_sequence sq q)"
      have q1: "good (i_slot_capacity h) q1" using q by (simp add: q1_def set_next_sequence_good split: option.split)
      then have s1: "good (i_slot_capacity h) (ps_ring (start q1))" by (simp add: start_def)
      let ?body = "case num args (ascii ''--hold-ms'') 0 of
           Inl m \<Rightarrow> Some (Panicked m, start q1)
         | Inr _ \<Rightarrow> (case num args (ascii ''--duration-s'') 0 of
             Inl m \<Rightarrow> Some (Panicked m, start q1)
           | Inr duration_s \<Rightarrow> produce_loop L h opts duration_s (unat (po_count opts)) 0 (start q1))"
      have "map_option (leave_role e n) ?body = Some (how, st)"
        using run' unfolding q1_def by (simp add: Inr opts)
      then obtain out where out: "leave_role e n out = (how, st)" "?body = Some out"
        unfolding map_option_eq_Some by blast
      obtain how' st' where o: "out = (how', st')" by (cases out)
      from small opts have "unat (po_elements opts) < 2 ^ 62" by simp
      note loop = produce_loop_good [OF world this s1]
      have "good (i_slot_capacity h) (ps_ring st')"
        using out(2) s1 loop by (auto simp: o split: sum.splits)
      then have "good (i_slot_capacity h) (ps_ring st)" using out(1) left by (simp add: o)
      moreover have "ps_published st + ps_dropped st = po_count opts"
        if "how = Ended" "num args (ascii ''--duration-s'') 0 = Inr 0"
        using out that counts [of n how' st' st] produce_loop_count [of L h opts "unat (po_count opts)" 0 "start q1" st']
        by (auto simp: o start_def split: sum.splits)
      ultimately show ?thesis using opts by simp
    qed
  qed
qed

theorem produce_publishes_good_witness:
  "\<exists>how st. produce quiet_world (kill_env 7 [7, 9] 1) demo_inner
      (map ascii [''x'', ''produce'', ''--count'', ''5'', ''--elements'', ''3'', ''--policy'', ''drop_newest'']) demo_ring = Some (how, st) \<and>
     good 64 (ps_ring st)"
proof -
  define args where "args = map ascii [''x'', ''produce'', ''--count'', ''5'', ''--elements'', ''3'', ''--policy'', ''drop_newest'']"
  let ?opts = "\<lparr>po_count = 5, po_elements = 3, po_timeout = millis 5000, po_policy = DropNewest, po_vary = False, po_start = None\<rparr>"
  have cap: "i_slot_capacity demo_inner = 64" by (simp add: demo_inner_def)
  have opts: "produce_args args = Inr ?opts"
    by (simp add: args_def produce_args_def num_def arg_def flag_def ascii_def upt_rec Let_def parse_u64_def parse_unsigned_def)
  have other: "num args (ascii ''--hold-ms'') 0 = Inr 0" "num args (ascii ''--duration-s'') 0 = Inr 0"
    by (simp_all add: args_def num_def arg_def ascii_def upt_rec)
  obtain n q where claim: "producer_claim (kill_env 7 [7, 9] 1) (i_producers demo_inner) demo_ring = Some (Inr (), n, q)"
    using lock_registry_free [OF wf_demo_ring(2)] by (simp add: producer_claim_def Let_def)
  have "good 64 q" by (rule claim_good [OF good_demo_ring claim])
  let ?st = "\<lparr>ps_ring = q, ps_rng = xorshift_new (0x5eed1234 XOR ucast (e_pid (kill_env 7 [7, 9] 1))),
    ps_published = 0, ps_dropped = 0\<rparr>"
  have "\<exists>out. produce_loop quiet_world demo_inner ?opts 0 (unat (po_count ?opts)) 0 ?st = Some out"
    using \<open>good 64 q\<close> by (intro produce_loop_total) (simp_all add: quiet_worlds cap)
  then obtain out where "produce_loop quiet_world demo_inner ?opts 0 (unat (po_count ?opts)) 0 ?st = Some out" by blast
  then have "produce quiet_world (kill_env 7 [7, 9] 1) demo_inner args demo_ring = Some (leave_role (kill_env 7 [7, 9] 1) n out)"
    by (simp add: produce_def claim opts other Let_def)
  then obtain how st where run: "produce quiet_world (kill_env 7 [7, 9] 1) demo_inner args demo_ring = Some (how, st)"
    by (metis surj_pair)
  have "good 64 (ps_ring st)"
    using produce_publishes_good [OF _ _ _ run] by (simp add: opts cap good_demo_ring quiet_worlds)
  with run show ?thesis unfolding args_def by blast
qed



text \<open>
  The consuming loop ends, whatever the others do, when in every round some instant its wait
  reads is past the deadline: each round either ends the loop or brings the count closer to the one
  expected.
\<close>

theorem consume_loop_ends:
  assumes "\<forall>k. \<exists>n. w_start (lw_waits L k) + millis (wait_ms opts) \<le> w_now (lw_waits L k) n"
  shows "\<exists>how t c' q. consume_loop L cap opts 0 rng tally_new c r = Some (how, t, c', q)"
  using consume_loop_total [of L opts cap 0 rng tally_new c r] assms by (metis prod_cases4)

theorem consume_loop_ends_witness:
  "\<exists>how t c' q. consume_loop quiet_world 64
     \<lparr>co_expect = 2, co_timeout_ms = 1, co_sleep_max_us = 0, co_die_after = 0, co_until_idle_ms = 0\<rparr>
     0 7 tally_new demo_consumer pending_ring = Some (how, t, c', q)"
proof (rule consume_loop_ends, intro allI)
  fix k
  show "\<exists>n. w_start (lw_waits quiet_world k) + millis (wait_ms
     \<lparr>co_expect = 2, co_timeout_ms = 1, co_sleep_max_us = 0, co_die_after = 0, co_until_idle_ms = 0\<rparr>)
     \<le> w_now (lw_waits quiet_world k) n"
    by (intro exI [of _ "10 ^ 6"]) (simp add: quiet_world_def demo_waits_def millis_def wait_ms_def)
qed

text \<open>
  The report of a consuming run is a function of what it received: the number of leases, the
  number whose payload fails the check, the first and the last sequence, and as gaps the number of
  neighbours that are not consecutive.
\<close>

theorem report_spec:
  assumes "length ls < 2 ^ 64"
  shows "fold (\<lambda>(sq, data). tally_lease sq data) ls tally_new =
    \<lparr>t_received = of_nat (length ls),
     t_bad = of_nat (length (filter (\<lambda>(sq, data). verify sq data \<noteq> None) ls)),
     t_first = (if ls = [] then 0 else fst (hd ls)), t_last = (if ls = [] then 0 else fst (last ls)),
     t_gaps = of_nat (length (filter (\<lambda>(x, y). fst y \<noteq> fst x + 1) (zip ls (tl ls)))), t_violations = 0\<rparr>"
  using assms
proof (induction ls rule: rev_induct)
  case Nil
  then show ?case by (simp add: tally_new_def)
next
  case (snoc l ls)
  obtain sq data where l: "l = (sq, data)" by force
  have "(of_nat (length ls) :: u64) = 0 \<longleftrightarrow> ls = []"
    using snoc.prems by (simp add: word_unat_eq_iff unat_of_nat_small)
  moreover have "zip (ls @ [l]) (tl (ls @ [l])) = zip ls (tl ls) @ (if ls = [] then [] else [(last ls, l)])"
    by (induction ls rule: induct_list012) simp_all
  ultimately show ?case
    using snoc by (auto simp: tally_lease_def Let_def l tally_new_def split: if_splits)
qed

theorem report_spec_witness:
  "t_gaps (fold (\<lambda>(sq, data). tally_lease sq data) [(5, fill 5 2), (6, fill 6 2), (9, fill 8 2)] tally_new) = 1 \<and>
   t_bad (fold (\<lambda>(sq, data). tally_lease sq data) [(5, fill 5 2), (6, fill 6 2), (9, fill 8 2)] tally_new) = 1"
proof -
  have len: "length [(5 :: u64, fill 5 2), (6, fill 6 2), (9, fill 8 2)] < 2 ^ 64" by simp
  have "verify 5 (fill 5 2) = None" "verify 6 (fill 6 2) = None" "verify 9 (fill 8 2) = Some 0"
    by (simp_all add: verify_fill) (simp add: verify_def fill_def Let_def upt_conv_Cons)
  then show ?thesis unfolding report_spec [OF len] by simp
qed

text \<open>
  A slot abandoned by a killed producer comes back: after \<^verbatim>\<open>abandon\<close> the slot is being written and
  holds the producer role of a process that no longer runs, and the next sweep by any other process
  frees it, addressed to nobody, and lets that process take the role.
\<close>

theorem abandoned_slot_recovered:
  assumes wf: "wf_ring cap r" "lock_free r" and run: "abandon e h args r = Some (Killed, Some s, q)"
    and dead: "e_pid e' \<noteq> e_pid e" "\<not> pid_alive e' (e_pid e)"
  shows "s < length (slots q) \<and> s_state (slots q ! s) = STATE_WRITING \<and>
    (\<exists>p m p'. sweep e' q = Some p \<and> s_state (slots p ! s) = STATE_FREE \<and> s_readers_mask (slots p ! s) = 0 \<and>
       producer_claim e' n p = Some (Inr (), m, p') \<and> g_producer_pid p' = e_pid e')"
proof -
  obtain n' q0 where claim: "producer_claim e (i_producers h) r = Some (Inr (), n', q0)"
    using run by (auto simp: abandon_def split: option.splits sum.splits)
  have q0: "q0 = unlock_registry (r\<lparr>g_lock := take_lock LOCKED (e_pid e) (pid_start_token e (e_pid e)), g_producer_pid := e_pid e\<rparr>)"
    using claim lock_registry_free [OF wf(2), of e] by (auto simp: producer_claim_def Let_def split: if_splits)
  then have wf0: "wf_ring cap q0" "lock_free q0"
    using wf wf_ring_cong [of q0 r cap] by (simp_all add: unlock_registry_eq)
  obtain elements view where view: "tensor_view_contiguous I32 [ucast elements] (slice_bytes (fill 1 elements)) = Inr view"
    and res: "reserve_without_commit e view q0 = Some (Inr s, q)"
    using run claim by (auto simp: abandon_def split: option.splits sum.splits)
  have dims: "length (v_shape view) = MAX_NDIM" "length (v_strides view) = MAX_NDIM"
    using view by (auto simp: tensor_view_contiguous_def tensor_view_new_def length_pad_dims split: if_splits)
  have pick: "pick_slot (swept e q0) = Some s" and q: "q = reserved_ring e (v_dtype view) (v_ndim view) (v_shape view)
      (v_strides view) (usize_len (v_data view)) (v_timestamp_ns view) s q0"
    using res reserve_attempt [OF wf0 dims, of e "v_dtype view" "v_ndim view" "usize_len (v_data view)" "v_timestamp_ns view"]
    by (auto simp: reserve_without_commit_def reserve_for_copy_def split: option.splits)
  have s: "s < length (slots q0)" using pick_slot_reclaimable [OF pick] by simp
  have pid: "g_producer_pid q = e_pid e" by (simp add: q reserved_ring_def upd_slot_def swept_def q0 unlock_registry_eq)
  have free: "lock_free q" by (simp add: q lock_free_def free_lock_def)
  have "length (registry q) = 64" using wf_ringD(1) [OF wf0(1)] by (simp add: q swept_def)
  then obtain p where p: "sweep e' q = Some p" "p = (swept e' q)\<lparr>g_lock := free_lock\<rparr>"
    using lock_registry_free [OF free, of e'] by (simp add: sweep_def reap_dead_eq unlock_registry_eq)
  have "abandoned_slot e' (slots q ! s)"
    using s dead pid_alive_with_token_alive [of e' "e_pid e"] by (auto simp: q abandoned_slot_def reserved_header_def)
  then have "s_state (slots p ! s) = STATE_FREE \<and> s_readers_mask (slots p ! s) = 0"
    using s by (simp add: p(2) q) (simp add: swept_slot_def recover_slot_def abandoned_clear_readers)
  moreover have "lock_free p" "g_producer_pid p = e_pid e" using pid by (simp_all add: p(2) swept_def)
  then have "\<exists>m p'. producer_claim e' n p = Some (Inr (), m, p') \<and> g_producer_pid p' = e_pid e'"
    using dead lock_registry_free [of p e'] by (simp add: producer_claim_def Let_def unlock_registry_def)
  ultimately show ?thesis using s p(1) by (auto simp: q reserved_header_def)
qed

theorem abandoned_slot_recovered_witness:
  "\<exists>s q p. abandon (kill_env 7 [7, 9] 1) demo_inner (map ascii [''x'', ''abandon'']) demo_ring = Some (Killed, Some s, q) \<and>
     sweep (kill_env 9 [9] 1) q = Some p \<and> s_state (slots p ! s) = STATE_FREE"
proof -
  define args where "args = map ascii [''x'', ''abandon'']"
  let ?e = "kill_env 7 [7, 9] 1"
  have elements: "num args (ascii ''--elements'') 16 = Inr 16"
    by (simp add: args_def num_def arg_def ascii_def upt_rec)
  have len: "usize_len (slice_bytes (fill 1 16)) = 64"
    by (simp add: usize_len_def length_slice_bytes fill_def Let_def)
  obtain view where view: "tensor_view_contiguous I32 [16] (slice_bytes (fill 1 16)) = Inr view"
      "length (v_shape view) = MAX_NDIM" "length (v_strides view) = MAX_NDIM"
    using len by (simp add: tensor_view_contiguous_def tensor_view_new_def tensor_bytes_def shape_elements_def
        contiguous_strides_def length_pad_dims MAX_NDIM_def)
  have "i_producers demo_inner = 0" by (simp add: demo_inner_def)
  then obtain n q where claim: "producer_claim ?e (i_producers demo_inner) demo_ring = Some (Inr (), n, q)"
    and q: "wf_ring 64 q" "lock_free q" and "\<exists>s. pick_slot (swept ?e q) = Some s"
    using demo_claim by auto
  then obtain s p where "reserve_without_commit ?e view q = Some (Inr s, p)"
    using reserve_attempt [OF q view(2,3), of ?e "v_dtype view" "v_ndim view" "usize_len (v_data view)" "v_timestamp_ns view"]
    by (auto simp: reserve_without_commit_def reserve_for_copy_def)
  then have run: "abandon ?e demo_inner args demo_ring = Some (Killed, Some s, p)"
    by (simp add: abandon_def claim elements view(1))
  have "e_pid (kill_env 9 [9] 1) \<noteq> e_pid ?e" "\<not> pid_alive (kill_env 9 [9] 1) (e_pid ?e)"
    by (simp_all add: kill_env_def pid_alive_def pid_alive_with_token_def proc_stat_def EPERM_def)
  from abandoned_slot_recovered [OF wf_demo_ring run this] run show ?thesis unfolding args_def by blast
qed

end
