(* ===== verification/WaitSteps.thy ===== *)
theory WaitSteps
  imports SlotSteps
begin

text \<open>
  Sleeping and waking: the \<^verbatim>\<open>wait\<close>, \<^verbatim>\<open>wake\<close>, \<^verbatim>\<open>wake_all\<close> and \<^verbatim>\<open>signal\<close> of \<^verbatim>\<open>futex.rs\<close> over a kernel that is
  a parameter, and the two loops that sleep, \<^verbatim>\<open>Consumer::next_raw\<close> and \<^verbatim>\<open>Producer::publish\<close>, cut at
  every access, with the parties that wake them. A consumer loads the publish word before it scans and
  cannot miss a wake-up; a producer loads the reclaim word after it has failed and can.
\<close>

unbundle bit_operations_syntax

subsection \<open>The system call\<close>

definition FUTEX_WAIT :: nat where "FUTEX_WAIT = 0"
definition FUTEX_WAKE :: nat where "FUTEX_WAKE = 1"

record timespec =
  tv_sec :: nat
  tv_nsec :: nat

text \<open>
  The kernel's side of one word: \<open>fk_futex i op val expected ts q\<close> is the call of thread \<open>i\<close> when the
  word holds \<open>val\<close>, \<open>fk_return i q\<close> the return of thread \<open>i\<close> from its sleep, and \<open>fk_asleep\<close> the
  threads that sleep.
\<close>

record 'q futex_kernel =
  fk_futex :: "nat \<Rightarrow> nat \<Rightarrow> u32 \<Rightarrow> u32 \<Rightarrow> timespec option \<Rightarrow> 'q \<Rightarrow> 'q"
  fk_return :: "nat \<Rightarrow> 'q \<Rightarrow> 'q"
  fk_asleep :: "'q \<Rightarrow> nat set"

text \<open>
  What \<^verbatim>\<open>futex(2)\<close> documents of the two operations: a wait compares the word and goes to sleep in one
  atomic step, and only if the word still holds the expected value; a wake of \<^verbatim>\<open>INT_MAX\<close> threads wakes
  every thread that sleeps on the word.
\<close>

definition futex_documented :: "'q futex_kernel \<Rightarrow> bool" where
  "futex_documented K \<longleftrightarrow>
     (\<forall>i val expected ts q. fk_asleep K (fk_futex K i FUTEX_WAIT val expected (Some ts) q) =
        (if val = expected then insert i (fk_asleep K q) else fk_asleep K q)) \<and>
     (\<forall>i val q. fk_asleep K (fk_futex K i FUTEX_WAKE val 2147483647 None q) = {}) \<and>
     (\<forall>i q. fk_asleep K (fk_return K i q) = fk_asleep K q - {i})"

text \<open>A duration is in nanoseconds.\<close>

definition futex_wait :: "'q futex_kernel \<Rightarrow> nat \<Rightarrow> u32 \<Rightarrow> u32 \<Rightarrow> nat \<Rightarrow> 'q \<Rightarrow> 'q" where
  "futex_wait K i word expected timeout q =
     (let ts = \<lparr>tv_sec = timeout div 1000000000, tv_nsec = timeout mod 1000000000\<rparr>
      in fk_futex K i FUTEX_WAIT word expected (Some ts) q)"

definition wake :: "'q futex_kernel \<Rightarrow> nat \<Rightarrow> u32 \<Rightarrow> u32 \<Rightarrow> 'q \<Rightarrow> 'q" where
  "wake K i word n q = fk_futex K i FUTEX_WAKE word n None q"

definition wake_all :: "'q futex_kernel \<Rightarrow> nat \<Rightarrow> u32 \<Rightarrow> 'q \<Rightarrow> 'q" where
  "wake_all K i word q = wake K i word 2147483647 q"

text \<open>The sleep of one round of the loops that wait: what is left of the deadline, at most 5 ms.\<close>

definition wait_remaining :: "nat \<Rightarrow> nat \<Rightarrow> nat" where
  "wait_remaining deadline now = min (deadline - now) 5000000"

lemma asleep_wait:
  "futex_documented K \<Longrightarrow> fk_asleep K (futex_wait K i word expected timeout q) =
     (if word = expected then insert i (fk_asleep K q) else fk_asleep K q)"
  by (simp add: futex_documented_def futex_wait_def Let_def)

lemma asleep_wake_all: "futex_documented K \<Longrightarrow> fk_asleep K (wake_all K i word q) = {}"
  by (simp add: futex_documented_def wake_all_def wake_def)

lemma asleep_return: "futex_documented K \<Longrightarrow> fk_asleep K (fk_return K i q) = fk_asleep K q - {i}"
  by (simp add: futex_documented_def)

subsection \<open>Consumers that wait, publishers that wake them\<close>

text \<open>
  A consumer's program points in the loop of \<^verbatim>\<open>next_raw\<close>: \<open>Observe\<close> loads the word, \<open>Scan v k\<close> has found
  the first \<open>k\<close> slots without anything for it, \<open>Clock v\<close> reads the time, \<open>Enter v t\<close> calls \<^verbatim>\<open>wait\<close>,
  \<open>Asleep\<close> is in the kernel. A publisher's, from the commit on: the count, the bump of the word, the
  wake; a publisher that died between them would leave the sleepers to the 5 ms of their round.
  \<open>ws_bumps\<close> and \<open>ws_seen\<close> are ghosts: the bumps so far, and the bumps when a consumer last
  loaded the word.
\<close>

datatype wait_pc = Observe | Scan u32 nat | Clock u32 | Enter u32 nat | Asleep | Returned

datatype signal_pc = Quiet | CountUp | Bump | Wake

record 'q wait_sys =
  ws_ring :: ring
  ws_queue :: 'q
  ws_pc :: "nat \<Rightarrow> wait_pc"
  ws_sig :: "nat \<Rightarrow> signal_pc"
  ws_bumps :: nat
  ws_seen :: "nat \<Rightarrow> nat"

text \<open>
  The stores anybody may make that hand no consumer anything: those to a slot that is not committed, but
  the commit; taking a committed slot back; clearing bits of a mask; and the mirror count.
\<close>

definition quiet_store :: "slot_header \<Rightarrow> store \<Rightarrow> bool" where
  "quiet_store h st \<longleftrightarrow>
     (s_state h \<noteq> STATE_COMMITTED \<and> st \<noteq> StState STATE_COMMITTED) \<or>
     (\<exists>v. st = StState v \<and> v \<noteq> STATE_COMMITTED) \<or>
     (\<exists>m. st = StMask (s_readers_mask h AND m)) \<or> (\<exists>n. st = StReaders n)"

inductive wait_step ::
  "'q futex_kernel \<Rightarrow> (nat \<Rightarrow> consumer) \<Rightarrow> 'q wait_sys \<Rightarrow> 'q wait_sys \<Rightarrow> bool" for K C where
  wt_observe:
    "ws_pc w i = Observe \<Longrightarrow>
     wait_step K C w (w\<lparr>ws_pc := (ws_pc w)(i := Scan (g_publish_futex (ws_ring w)) 0), ws_seen := (ws_seen w)(i := ws_bumps w)\<rparr>)"
| wt_hit:
    "ws_pc w i = Scan v k \<Longrightarrow> k < length (slots (ws_ring w)) \<Longrightarrow> eligible (C i) (slots (ws_ring w) ! k) \<Longrightarrow>
     wait_step K C w (w\<lparr>ws_pc := (ws_pc w)(i := Returned)\<rparr>)"
| wt_miss:
    "ws_pc w i = Scan v k \<Longrightarrow> k < length (slots (ws_ring w)) \<Longrightarrow> \<not> eligible (C i) (slots (ws_ring w) ! k) \<Longrightarrow>
     wait_step K C w (w\<lparr>ws_pc := (ws_pc w)(i := Scan v (Suc k))\<rparr>)"
| wt_scanned:
    "ws_pc w i = Scan v k \<Longrightarrow> k = length (slots (ws_ring w)) \<Longrightarrow>
     wait_step K C w (w\<lparr>ws_pc := (ws_pc w)(i := Clock v)\<rparr>)"
| wt_timeout:
    "ws_pc w i = Clock v \<Longrightarrow> wait_step K C w (w\<lparr>ws_pc := (ws_pc w)(i := Returned)\<rparr>)"
| wt_clock:
    "ws_pc w i = Clock v \<Longrightarrow> now < deadline \<Longrightarrow>
     wait_step K C w (w\<lparr>ws_pc := (ws_pc w)(i := Enter v (wait_remaining deadline now))\<rparr>)"
| wt_wait:
    "ws_pc w i = Enter v t \<Longrightarrow> ws_bumps w < ws_seen w i + 2 ^ 32 \<Longrightarrow>
     wait_step K C w (w\<lparr>ws_queue := futex_wait K i (g_publish_futex (ws_ring w)) v t (ws_queue w), ws_pc := (ws_pc w)(i := Asleep)\<rparr>)"
| wt_return:
    "ws_pc w i = Asleep \<Longrightarrow>
     wait_step K C w (w\<lparr>ws_queue := fk_return K i (ws_queue w), ws_pc := (ws_pc w)(i := Observe)\<rparr>)"
| wt_commit:
    "ws_sig w p = Quiet \<Longrightarrow> s < length (slots (ws_ring w)) \<Longrightarrow>
     wait_step K C w (w\<lparr>ws_ring := store_at s (StState STATE_COMMITTED) (ws_ring w), ws_sig := (ws_sig w)(p := CountUp)\<rparr>)"
| wt_count:
    "ws_sig w p = CountUp \<Longrightarrow>
     wait_step K C w (w\<lparr>ws_ring := (ws_ring w)\<lparr>g_publish_count := g_publish_count (ws_ring w) + 1\<rparr>, ws_sig := (ws_sig w)(p := Bump)\<rparr>)"
| wt_bump:
    "ws_sig w p = Bump \<Longrightarrow>
     wait_step K C w (w\<lparr>ws_ring := (ws_ring w)\<lparr>g_publish_futex := signal (g_publish_futex (ws_ring w))\<rparr>,
       ws_sig := (ws_sig w)(p := Wake), ws_bumps := Suc (ws_bumps w)\<rparr>)"
| wt_wake:
    "ws_sig w p = Wake \<Longrightarrow>
     wait_step K C w (w\<lparr>ws_queue := wake_all K p (g_publish_futex (ws_ring w)) (ws_queue w), ws_sig := (ws_sig w)(p := Quiet)\<rparr>)"
| wt_store:
    "s < length (slots (ws_ring w)) \<Longrightarrow> quiet_store (slots (ws_ring w) ! s) st \<Longrightarrow>
     wait_step K C w (w\<lparr>ws_ring := store_at s st (ws_ring w)\<rparr>)"
| wt_word:
    "slots r = slots (ws_ring w) \<Longrightarrow> g_publish_futex r = g_publish_futex (ws_ring w) \<Longrightarrow>
     wait_step K C w (w\<lparr>ws_ring := r\<rparr>)"

definition wait_init :: "'q futex_kernel \<Rightarrow> ring \<Rightarrow> 'q wait_sys \<Rightarrow> bool" where
  "wait_init K r w \<longleftrightarrow>
     ws_ring w = r \<and> fk_asleep K (ws_queue w) = {} \<and> (\<forall>i. ws_pc w i = Observe) \<and> (\<forall>p. ws_sig w p = Quiet) \<and> ws_bumps w = 0"

lemma quiet_eligible:
  assumes "quiet_store h st" "eligible c (head_store st h)"
  shows "eligible c h"
proof -
  have "(s_readers_mask h AND m) AND consumer_bit c = m AND (s_readers_mask h AND consumer_bit c)" for m
    by (simp add: ac_simps)
  with assms show ?thesis
    by (cases st) (auto simp: quiet_store_def eligible_def)
qed

text \<open>
  \<open>wake_coming\<close>: some publisher has committed and not yet bumped the word. \<open>passed\<close>: what a consumer
  that loaded the word at \<open>n\<close> bumps and has found nothing in the slots of \<open>S\<close> may rely on.
\<close>

definition bump_coming :: "'q wait_sys \<Rightarrow> bool" where
  "bump_coming w \<longleftrightarrow> (\<exists>p. ws_sig w p = CountUp \<or> ws_sig w p = Bump)"

definition passed :: "(nat \<Rightarrow> consumer) \<Rightarrow> 'q wait_sys \<Rightarrow> nat \<Rightarrow> nat \<Rightarrow> bool" where
  "passed C w i k \<longleftrightarrow>
     ws_seen w i \<le> ws_bumps w \<and>
     (ws_seen w i < ws_bumps w \<or> bump_coming w \<or>
      (\<forall>j<k. j < length (slots (ws_ring w)) \<longrightarrow> \<not> eligible (C i) (slots (ws_ring w) ! j)))"

fun wait_ok :: "(nat \<Rightarrow> consumer) \<Rightarrow> u32 \<Rightarrow> 'q wait_sys \<Rightarrow> nat \<Rightarrow> wait_pc \<Rightarrow> bool" where
  "wait_ok C w0 w i (Scan v k) \<longleftrightarrow> v = w0 + of_nat (ws_seen w i) \<and> passed C w i k"
| "wait_ok C w0 w i (Clock v) \<longleftrightarrow> v = w0 + of_nat (ws_seen w i) \<and> passed C w i (length (slots (ws_ring w)))"
| "wait_ok C w0 w i (Enter v t) \<longleftrightarrow> v = w0 + of_nat (ws_seen w i) \<and> passed C w i (length (slots (ws_ring w)))"
| "wait_ok C w0 w i _ \<longleftrightarrow> True"

definition wait_inv :: "'q futex_kernel \<Rightarrow> (nat \<Rightarrow> consumer) \<Rightarrow> u32 \<Rightarrow> 'q wait_sys \<Rightarrow> bool" where
  "wait_inv K C w0 w \<longleftrightarrow>
     g_publish_futex (ws_ring w) = w0 + of_nat (ws_bumps w) \<and>
     (\<forall>i. wait_ok C w0 w i (ws_pc w i)) \<and>
     (\<forall>i\<in>fk_asleep K (ws_queue w). ws_pc w i = Asleep \<and>
        ((\<exists>p. ws_sig w p \<noteq> Quiet) \<or> (\<forall>h\<in>set (slots (ws_ring w)). \<not> eligible (C i) h)))"


lemma passed_mono:
  assumes "passed C w i k" "ws_seen w' i = ws_seen w i" "ws_bumps w \<le> ws_bumps w'"
    "ws_bumps w' = ws_bumps w \<Longrightarrow> bump_coming w \<Longrightarrow> bump_coming w'"
    "length (slots (ws_ring w')) = length (slots (ws_ring w))"
    "\<And>j. ws_bumps w' = ws_bumps w \<Longrightarrow> j < length (slots (ws_ring w)) \<Longrightarrow> eligible (C i) (slots (ws_ring w') ! j) \<Longrightarrow>
       bump_coming w' \<or> eligible (C i) (slots (ws_ring w) ! j)"
  shows "passed C w' i k"
proof (cases "ws_bumps w' = ws_bumps w")
  case True
  with assms show ?thesis unfolding passed_def by metis
next
  case False
  with assms show ?thesis unfolding passed_def by fastforce
qed

lemma wait_ok_mono:
  assumes "wait_ok C w0 w i pc" "ws_seen w' i = ws_seen w i" "ws_bumps w \<le> ws_bumps w'"
    "ws_bumps w' = ws_bumps w \<Longrightarrow> bump_coming w \<Longrightarrow> bump_coming w'"
    "length (slots (ws_ring w')) = length (slots (ws_ring w))"
    "\<And>j. ws_bumps w' = ws_bumps w \<Longrightarrow> j < length (slots (ws_ring w)) \<Longrightarrow> eligible (C i) (slots (ws_ring w') ! j) \<Longrightarrow>
       bump_coming w' \<or> eligible (C i) (slots (ws_ring w) ! j)"
  shows "wait_ok C w0 w' i pc"
  using assms(1,2,5) passed_mono [where C = C and w = w and w' = w' and i = i, OF _ assms(2-6)] by (cases pc) auto

lemma bump_coming_upd:
  "bump_coming (w\<lparr>ws_pc := a\<rparr>) = bump_coming w" "bump_coming (w\<lparr>ws_seen := b\<rparr>) = bump_coming w"
  "bump_coming (w\<lparr>ws_queue := q\<rparr>) = bump_coming w" "bump_coming (w\<lparr>ws_ring := r\<rparr>) = bump_coming w"
  by (simp_all add: bump_coming_def)

lemma passed_upd [simp]:
  "passed C (w\<lparr>ws_pc := a\<rparr>) = passed C w" "passed C (w\<lparr>ws_queue := q\<rparr>) = passed C w"
  by (simp_all add: passed_def bump_coming_upd fun_eq_iff)

lemma wait_ok_upd [simp]:
  "wait_ok C w0 (w\<lparr>ws_pc := a\<rparr>) i pc = wait_ok C w0 w i pc"
  "wait_ok C w0 (w\<lparr>ws_queue := q\<rparr>) i pc = wait_ok C w0 w i pc"
  by (cases pc; simp)+

lemma wait_inv_pc:
  assumes "wait_inv K C w0 w" "ws_pc w i \<noteq> Asleep" "wait_ok C w0 w i pc"
  shows "wait_inv K C w0 (w\<lparr>ws_pc := (ws_pc w)(i := pc)\<rparr>)"
  using assms by (auto simp: wait_inv_def)

lemma wait_inv_ring:
  assumes inv: "wait_inv K C w0 w" and word: "g_publish_futex r = g_publish_futex (ws_ring w)"
    and len: "length (slots r) = length (slots (ws_ring w))"
    and sig: "\<And>p. g p = Quiet \<Longrightarrow> ws_sig w p = Quiet" "bump_coming w \<Longrightarrow> bump_coming (w\<lparr>ws_sig := g\<rparr>)"
    and el: "\<And>i j. j < length (slots r) \<Longrightarrow> eligible (C i) (slots r ! j) \<Longrightarrow>
      bump_coming (w\<lparr>ws_sig := g\<rparr>) \<or> eligible (C i) (slots (ws_ring w) ! j)"
  shows "wait_inv K C w0 (w\<lparr>ws_ring := r, ws_sig := g\<rparr>)"
proof -
  let ?w = "w\<lparr>ws_ring := r, ws_sig := g\<rparr>"
  have bc: "bump_coming ?w = bump_coming (w\<lparr>ws_sig := g\<rparr>)" by (simp add: bump_coming_def)
  have "wait_ok C w0 ?w i (ws_pc w i)" for i
  proof (rule wait_ok_mono [of C w0 w])
    show "wait_ok C w0 w i (ws_pc w i)" using inv by (simp add: wait_inv_def)
    show "bump_coming ?w \<or> eligible (C i) (slots (ws_ring w) ! j)"
      if "j < length (slots (ws_ring w))" "eligible (C i) (slots (ws_ring ?w) ! j)" for j
      using el [of j i] that len by (simp add: bc)
  qed (use len sig(2) in \<open>simp_all add: bc\<close>)
  moreover have "(\<exists>p. g p \<noteq> Quiet) \<or> (\<forall>h\<in>set (slots r). \<not> eligible (C i) h)"
    if "i \<in> fk_asleep K (ws_queue w)" for i
  proof (cases "\<exists>p. g p \<noteq> Quiet")
    case False
    then have none: "\<not> bump_coming (w\<lparr>ws_sig := g\<rparr>)" by (auto simp: bump_coming_def)
    from False sig(1) have "\<forall>p. ws_sig w p = Quiet" by blast
    with inv that have "\<forall>h\<in>set (slots (ws_ring w)). \<not> eligible (C i) h"
      by (auto simp: wait_inv_def)
    moreover have "eligible (C i) (slots (ws_ring w) ! j) \<and> slots (ws_ring w) ! j \<in> set (slots (ws_ring w))"
      if "j < length (slots r)" "eligible (C i) (slots r ! j)" for j
      using el [OF that] none that(1) len by simp
    ultimately have "\<not> eligible (C i) (slots r ! j)" if "j < length (slots r)" for j
      using that by blast
    then show ?thesis by (auto simp: in_set_conv_nth)
  qed blast
  ultimately show ?thesis using inv word by (auto simp: wait_inv_def)
qed


lemma same_count: "n < m + 2 ^ 32 \<Longrightarrow> (of_nat n :: u32) = of_nat m \<Longrightarrow> m \<le> n \<Longrightarrow> n = m"
proof -
  assume n: "n < m + 2 ^ 32" and eq: "(of_nat n :: u32) = of_nat m" and le: "m \<le> n"
  have "(of_nat (n - m) :: u32) = 0" using eq le by (simp add: of_nat_diff)
  moreover have "n - m < 2 ^ 32" using n by simp
  then have "unat (of_nat (n - m) :: u32) = n - m" by (simp add: unat_of_nat)
  ultimately show "n = m" using le by simp
qed

lemma wait_inv_step:
  assumes K: "futex_documented K" and step: "wait_step K C w w'" and inv: "wait_inv K C w0 w"
  shows "wait_inv K C w0 w'"
  using step
proof cases
  case (wt_observe i)
  have "wait_ok C w0 w' j (ws_pc w' j)" for j
  proof (cases "j = i")
    case True
    then show ?thesis using inv wt_observe by (simp add: wait_inv_def passed_def)
  next
    case False
    show ?thesis
    proof (rule wait_ok_mono [of C w0 w])
      show "wait_ok C w0 w j (ws_pc w' j)" using inv False wt_observe(1) by (simp add: wait_inv_def)
    qed (use False wt_observe(1) in \<open>simp_all add: bump_coming_upd\<close>)
  qed
  moreover have "g_publish_futex (ws_ring w') = w0 + of_nat (ws_bumps w')"
    "\<forall>j\<in>fk_asleep K (ws_queue w'). ws_pc w' j = Asleep \<and>
       ((\<exists>p. ws_sig w' p \<noteq> Quiet) \<or> (\<forall>h\<in>set (slots (ws_ring w')). \<not> eligible (C j) h))"
    using inv wt_observe by (auto simp: wait_inv_def)
  ultimately show ?thesis unfolding wait_inv_def by blast
next
  case (wt_hit i v k)
  then show ?thesis using inv by (auto intro!: wait_inv_pc)
next
  case (wt_miss i v k)
  have "wait_ok C w0 w i (Scan v (Suc k))"
    using inv wt_miss by (auto simp: wait_inv_def passed_def less_Suc_eq dest: spec [of _ i])
  then show ?thesis using inv wt_miss by (auto intro!: wait_inv_pc)
next
  case (wt_scanned i v k)
  have "wait_ok C w0 w i (Clock v)" using inv wt_scanned by (auto simp: wait_inv_def dest: spec [of _ i])
  then show ?thesis using inv wt_scanned by (auto intro!: wait_inv_pc)
next
  case (wt_timeout i v)
  then show ?thesis using inv by (auto intro!: wait_inv_pc)
next
  case (wt_clock i v now deadline)
  have "wait_ok C w0 w i (Enter v (wait_remaining deadline now))"
    using inv wt_clock by (auto simp: wait_inv_def dest: spec [of _ i])
  then show ?thesis using inv wt_clock by (auto intro!: wait_inv_pc)
next
  case (wt_wait i v t)
  let ?n = "ws_bumps w" and ?m = "ws_seen w i"
  have v: "v = w0 + of_nat ?m" and passed: "passed C w i (length (slots (ws_ring w)))"
    using inv wt_wait by (auto simp: wait_inv_def dest: spec [of _ i])
  have word: "g_publish_futex (ws_ring w) = w0 + of_nat ?n" using inv by (simp add: wait_inv_def)
  have "(\<exists>p. ws_sig w p \<noteq> Quiet) \<or> (\<forall>h\<in>set (slots (ws_ring w)). \<not> eligible (C i) h)"
    if "g_publish_futex (ws_ring w) = v"
  proof -
    have "(of_nat ?n :: u32) = of_nat ?m" using that v word by simp
    moreover have "?m \<le> ?n" using passed by (simp add: passed_def)
    ultimately have "?n = ?m" using wt_wait(3) same_count by blast
    with passed show ?thesis by (auto simp: passed_def bump_coming_def in_set_conv_nth)
  qed
  then show ?thesis
    using inv wt_wait K by (auto simp: wait_inv_def asleep_wait)
next
  case (wt_return i)
  then show ?thesis using inv K by (auto simp: wait_inv_def asleep_return)
next
  case (wt_commit p s)
  have "bump_coming (w\<lparr>ws_sig := (ws_sig w)(p := CountUp)\<rparr>)" by (auto simp: bump_coming_def)
  then show ?thesis
    unfolding wt_commit(1) using wt_commit(2)
    by (intro wait_inv_ring inv) (auto simp: upd_slot_def split: if_splits)
next
  case (wt_count p)
  then show ?thesis
    unfolding wt_count(1)
    by (intro wait_inv_ring inv) (auto simp: bump_coming_def split: if_splits)
next
  case (wt_bump p)
  have "wait_ok C w0 w' i (ws_pc w i)" for i
    unfolding wt_bump(1) by (rule wait_ok_mono [of C w0 w]) (use inv in \<open>auto simp: wait_inv_def\<close>)
  moreover have "\<exists>q. ws_sig w' q \<noteq> Quiet" unfolding wt_bump(1) by (intro exI [of _ p]) simp
  ultimately show ?thesis using inv unfolding wt_bump(1) by (auto simp: wait_inv_def signal_def)
next
  case (wt_wake p)
  have "q \<noteq> p" if "ws_sig w q = CountUp \<or> ws_sig w q = Bump" for q
    using that wt_wake(2) by auto
  then have bc: "bump_coming w \<Longrightarrow> bump_coming w'"
    unfolding bump_coming_def wt_wake(1) by fastforce
  have "wait_ok C w0 w' i (ws_pc w i)" for i
    by (rule wait_ok_mono [of C w0 w]) (use inv bc in \<open>auto simp: wait_inv_def wt_wake(1)\<close>)
  then show ?thesis using inv K unfolding wt_wake(1) by (auto simp: wait_inv_def asleep_wake_all)
next
  case (wt_store s st)
  have "wait_inv K C w0 (w\<lparr>ws_ring := store_at s st (ws_ring w), ws_sig := ws_sig w\<rparr>)"
    using wt_store(2,3) by (intro wait_inv_ring inv)
      (auto simp: store_at_def nth_list_update bump_coming_def dest: quiet_eligible split: if_splits)
  then show ?thesis unfolding wt_store(1) by simp
next
  case (wt_word r)
  have "wait_inv K C w0 (w\<lparr>ws_ring := r, ws_sig := ws_sig w\<rparr>)"
    using wt_word(2,3) by (intro wait_inv_ring inv) (auto simp: bump_coming_def)
  then show ?thesis unfolding wt_word(1) by simp
qed


lemma wait_inv_init: "wait_init K r w \<Longrightarrow> wait_inv K C (g_publish_futex r) w"
  by (simp add: wait_init_def wait_inv_def)

interpretation waits: preserved_by "wait_step K C" "\<lambda>w. futex_documented K \<and> wait_inv K C w0 w" for K C w0
  by unfold_locales (blast intro: wait_inv_step)


subsection \<open>A concrete kernel and a run\<close>

definition set_kernel :: "nat set futex_kernel" where
  "set_kernel =
     \<lparr>fk_futex = (\<lambda>i op val expected ts q.
        if op = FUTEX_WAIT then (if val = expected then insert i q else q) else {}),
      fk_return = (\<lambda>i q. q - {i}), fk_asleep = (\<lambda>q. q)\<rparr>"

lemma set_kernel_documented: "futex_documented set_kernel"
  by (simp add: futex_documented_def set_kernel_def FUTEX_WAIT_def FUTEX_WAKE_def)

text \<open>The pending ring of the examples, its publication not yet committed.\<close>

definition writing_ring :: ring where
  "writing_ring = store_at 0 (StState STATE_WRITING) pending_ring"

definition asleep_sys :: "nat set wait_sys" where
  "asleep_sys = \<lparr>ws_ring = writing_ring, ws_queue = {}, ws_pc = (\<lambda>_. Observe), ws_sig = (\<lambda>_. Quiet), ws_bumps = 0, ws_seen = (\<lambda>_. 0)\<rparr>"

lemma slots_writing_ring:
  "slots writing_ring = [pending_slot\<lparr>s_state := STATE_WRITING\<rparr>, zero_slot\<lparr>s_magic := SLOT_MAGIC, s_state := STATE_FREE\<rparr>]"
  by (simp add: writing_ring_def upd_slot_def slots_pending_ring)

abbreviation demo_wait_step :: "nat set wait_sys \<Rightarrow> nat set wait_sys \<Rightarrow> bool" where
  "demo_wait_step \<equiv> wait_step set_kernel (\<lambda>_. demo_consumer)"

lemma demo_sleep:
  "\<exists>w. demo_wait_step\<^sup>*\<^sup>* asleep_sys w \<and> 0 \<in> fk_asleep set_kernel (ws_queue w) \<and> pending_slot \<in> set (slots (ws_ring w))"
proof -
  let ?v = "g_publish_futex writing_ring"
  let ?pc = "\<lambda>pc. asleep_sys\<lparr>ws_pc := (\<lambda>_. Observe)(0 := pc)\<rparr>"
  have sel: "ws_ring asleep_sys = writing_ring" "ws_queue asleep_sys = {}" "ws_pc asleep_sys = (\<lambda>_. Observe)"
    "ws_sig asleep_sys = (\<lambda>_. Quiet)" "ws_bumps asleep_sys = 0" "ws_seen asleep_sys = (\<lambda>_. 0)"
    by (simp_all add: asleep_sys_def)
  have idem: "(\<lambda>_ :: nat. 0 :: nat)(0 := 0) = (\<lambda>_. 0)" by (rule ext) simp
  have "demo_wait_step\<^sup>*\<^sup>* asleep_sys (?pc (Scan ?v 0))"
    by (rule r_into_rtranclp) (use wt_observe [of asleep_sys 0 set_kernel "\<lambda>_. demo_consumer"] in \<open>simp add: asleep_sys_def idem\<close>)
  also have "demo_wait_step\<^sup>*\<^sup>* (?pc (Scan ?v 0)) (?pc (Scan ?v 1))"
    by (rule r_into_rtranclp) (use wt_miss [of "?pc (Scan ?v 0)" 0 ?v 0 "\<lambda>_. demo_consumer" set_kernel] in \<open>simp add: sel slots_writing_ring eligible_def\<close>)
  also have "demo_wait_step\<^sup>*\<^sup>* (?pc (Scan ?v 1)) (?pc (Scan ?v 2))"
    by (rule r_into_rtranclp) (use wt_miss [of "?pc (Scan ?v 1)" 0 ?v 1 "\<lambda>_. demo_consumer" set_kernel] in \<open>simp add: sel slots_writing_ring eligible_def numeral_2_eq_2\<close>)
  also have "demo_wait_step\<^sup>*\<^sup>* (?pc (Scan ?v 2)) (?pc (Clock ?v))"
    by (rule r_into_rtranclp) (use wt_scanned [of "?pc (Scan ?v 2)" 0 ?v 2 set_kernel "\<lambda>_. demo_consumer"] in \<open>simp add: sel slots_writing_ring\<close>)
  also have "demo_wait_step\<^sup>*\<^sup>* (?pc (Clock ?v)) (?pc (Enter ?v 5000000))"
    by (rule r_into_rtranclp) (use wt_clock [of "?pc (Clock ?v)" 0 ?v 0 9000000 set_kernel "\<lambda>_. demo_consumer"] in \<open>simp add: sel wait_remaining_def\<close>)
  also have "demo_wait_step\<^sup>*\<^sup>* (?pc (Enter ?v 5000000)) (?pc Asleep\<lparr>ws_queue := {0}\<rparr>)"
    by (rule r_into_rtranclp) (use wt_wait [of "?pc (Enter ?v 5000000)" 0 ?v 5000000 set_kernel "\<lambda>_. demo_consumer"] in \<open>simp add: sel futex_wait_def set_kernel_def asleep_sys_def\<close>)
  also have "demo_wait_step\<^sup>*\<^sup>* (?pc Asleep\<lparr>ws_queue := {0}\<rparr>)
      (?pc Asleep\<lparr>ws_queue := {0}, ws_ring := store_at 0 (StState STATE_COMMITTED) writing_ring, ws_sig := (\<lambda>_. Quiet)(3 := CountUp)\<rparr>)"
    by (rule r_into_rtranclp) (use wt_commit [of "?pc Asleep\<lparr>ws_queue := {0}\<rparr>" 3 0 set_kernel "\<lambda>_. demo_consumer"] in \<open>simp add: sel slots_writing_ring\<close>)
  finally have "demo_wait_step\<^sup>*\<^sup>* asleep_sys
      (?pc Asleep\<lparr>ws_queue := {0}, ws_ring := store_at 0 (StState STATE_COMMITTED) writing_ring, ws_sig := (\<lambda>_. Quiet)(3 := CountUp)\<rparr>)" .
  then show ?thesis
    by (intro exI conjI) (assumption, simp_all add: set_kernel_def upd_slot_def slots_writing_ring pending_slot_def)
qed



subsection \<open>Producers that wait, consumers that wake them\<close>

text \<open>
  The loop of \<^verbatim>\<open>publish\<close> and \<^verbatim>\<open>reserve\<close>: \<open>Try\<close> makes the attempt under the registry lock, \<open>TimeUp\<close>
  reads the clock, \<open>Look t\<close> loads the reclaim word, \<open>Going v t\<close> calls \<^verbatim>\<open>wait\<close>. The word is loaded after
  the attempt has failed. A consumer that releases the last lease of a slot clears its bit, bumps the
  word and wakes.
\<close>

datatype reserve_pc = Try | TimeUp | Look nat | Going u32 nat | Sleeping | Finished

record 'q reserve_sys =
  rs_ring :: ring
  rs_queue :: 'q
  rs_pc :: "nat \<Rightarrow> reserve_pc"
  rs_sig :: "nat \<Rightarrow> signal_pc"

inductive reserve_step ::
  "'q futex_kernel \<Rightarrow> (nat \<Rightarrow> ring \<Rightarrow> (nat \<times> u64 \<times> u64) option \<times> ring) \<Rightarrow> 'q reserve_sys \<Rightarrow> 'q reserve_sys \<Rightarrow> bool"
  for K attempt where
  rt_fail:
    "rs_pc w i = Try \<Longrightarrow> attempt i (rs_ring w) = (None, q) \<Longrightarrow>
     reserve_step K attempt w (w\<lparr>rs_ring := q, rs_pc := (rs_pc w)(i := TimeUp)\<rparr>)"
| rt_reserved:
    "rs_pc w i = Try \<Longrightarrow> attempt i (rs_ring w) = (Some x, q) \<Longrightarrow>
     reserve_step K attempt w (w\<lparr>rs_ring := q, rs_pc := (rs_pc w)(i := Finished)\<rparr>)"
| rt_full: "rs_pc w i = TimeUp \<Longrightarrow> reserve_step K attempt w (w\<lparr>rs_pc := (rs_pc w)(i := Finished)\<rparr>)"
| rt_clock:
    "rs_pc w i = TimeUp \<Longrightarrow> now < deadline \<Longrightarrow>
     reserve_step K attempt w (w\<lparr>rs_pc := (rs_pc w)(i := Look (wait_remaining deadline now))\<rparr>)"
| rt_look:
    "rs_pc w i = Look t \<Longrightarrow>
     reserve_step K attempt w (w\<lparr>rs_pc := (rs_pc w)(i := Going (g_reclaim_futex (rs_ring w)) t)\<rparr>)"
| rt_wait:
    "rs_pc w i = Going v t \<Longrightarrow>
     reserve_step K attempt w (w\<lparr>rs_queue := futex_wait K i (g_reclaim_futex (rs_ring w)) v t (rs_queue w), rs_pc := (rs_pc w)(i := Sleeping)\<rparr>)"
| rt_return:
    "rs_pc w i = Sleeping \<Longrightarrow>
     reserve_step K attempt w (w\<lparr>rs_queue := fk_return K i (rs_queue w), rs_pc := (rs_pc w)(i := Try)\<rparr>)"
| rt_release:
    "rs_sig w p = Quiet \<Longrightarrow> s < length (slots (rs_ring w)) \<Longrightarrow>
     s_readers_mask (slots (rs_ring w) ! s) = one_bit b \<Longrightarrow>
     reserve_step K attempt w (w\<lparr>rs_ring := store_at s (StReaders 0) (store_at s (StMask 0) (rs_ring w)), rs_sig := (rs_sig w)(p := Bump)\<rparr>)"
| rt_bump:
    "rs_sig w p = Bump \<Longrightarrow>
     reserve_step K attempt w (w\<lparr>rs_ring := signal_reclaim (rs_ring w), rs_sig := (rs_sig w)(p := Wake)\<rparr>)"
| rt_wake:
    "rs_sig w p = Wake \<Longrightarrow>
     reserve_step K attempt w (w\<lparr>rs_queue := wake_all K p (g_reclaim_futex (rs_ring w)) (rs_queue w), rs_sig := (rs_sig w)(p := Quiet)\<rparr>)"

definition full_sys :: "'q \<Rightarrow> 'q reserve_sys" where
  "full_sys q = \<lparr>rs_ring = full_ring, rs_queue = q, rs_pc = (\<lambda>_. Try), rs_sig = (\<lambda>_. Quiet)\<rparr>"

abbreviation demo_attempt :: "nat \<Rightarrow> ring \<Rightarrow> (nat \<times> u64 \<times> u64) option \<times> ring" where
  "demo_attempt \<equiv> \<lambda>_. reserve_for_copy (kill_env 7 [7, 9] 1) demo_view"

lemma demo_attempt_full:
  obtains q where "demo_attempt i full_ring = (None, q)" "slots q = slots full_ring"
proof -
  let ?e = "kill_env 7 [7, 9] 1"
  have "dead_consumers ?e full_ring = []"
  proof -
    have "\<not> dead_entry ?e (registry full_ring ! i)" if "i < 64" for i
      using that by (cases "i = 0") (simp_all add: dead_entry_def fresh_entry_def pending_ring_eq
        zero_entry_def REGISTRY_ACTIVE_def)
    then show ?thesis by (simp add: dead_consumers_def dead_below_def MAX_CONSUMERS_def filter_empty_conv)
  qed
  then have slots: "slots (swept ?e full_ring) = slots full_ring"
    by (simp add: swept_def swept_slot_def recover_slot_def abandoned_slot_def pending_slot_def)
  have reap: "reap_dead ?e full_ring = swept ?e full_ring"
    using wf_ringD(1) [OF wf_full_ring(1)] by (simp add: reap_dead_eq)
  have "pick_slot (swept ?e full_ring) = None"
    by (simp add: pick_slot_eq slots oldest_in_def upt_rec unread_def pending_slot_def)
  then have "demo_attempt i full_ring = (None, swept ?e full_ring)"
    using reap by (simp add: reserve_for_copy_def reserve_header_None)
  with slots that show ?thesis by blast
qed


text \<open>
  Claim C37. A producer can miss a wake-up: on a ring whose slots are all waiting for their reader, the
  producer's attempt fails, the reader then releases a slot, bumps the reclaim word and wakes nobody,
  and the producer, which only now loads the word, finds it unchanged in \<^verbatim>\<open>wait\<close> and goes to sleep: a
  slot is reclaimable, nobody is about to wake it, and what bounds its sleep is the 5 ms of the round.
\<close>

theorem producer_can_miss_wakeup:
  assumes "futex_documented K"
  shows "\<exists>w. (reserve_step K demo_attempt)\<^sup>*\<^sup>* (full_sys q0) w \<and> 0 \<in> fk_asleep K (rs_queue w) \<and>
    (\<exists>h\<in>set (slots (rs_ring w)). reclaimable h) \<and> (\<forall>p. rs_sig w p = Quiet)"
proof -
  obtain q where q: "demo_attempt 0 full_ring = (None, q)" "slots q = slots full_ring"
    by (rule demo_attempt_full)
  let ?step = "reserve_step K demo_attempt"
  let ?r1 = "store_at 0 (StReaders 0) (store_at 0 (StMask 0) q)"
  let ?r2 = "signal_reclaim ?r1"
  let ?v = "g_reclaim_futex ?r2"
  let ?w = "\<lambda>r x pc sg. \<lparr>rs_ring = r, rs_queue = x, rs_pc = (\<lambda>_. Try)(0 := pc), rs_sig = (\<lambda>_. Quiet)(5 := sg)\<rparr>"
  let ?q1 = "wake_all K 5 ?v q0"
  have idem: "(\<lambda>_ :: nat. Try)(0 := Try) = (\<lambda>_. Try)" "(\<lambda>_ :: nat. Quiet)(5 := Quiet) = (\<lambda>_. Quiet)"
    by (rule ext, simp)+
  have sl: "slots ?r2 = [pending_slot\<lparr>s_readers_mask := 0, s_readers_remaining := 0\<rparr>, pending_slot\<lparr>s_sequence := 2\<rparr>]"
    by (simp add: upd_slot_def q(2) signal_reclaim_def)
  have s1: "?step (full_sys q0) (?w q q0 TimeUp Quiet)"
    using rt_fail [of "full_sys q0" 0 demo_attempt q K] q(1) by (simp add: full_sys_def idem)
  have s2: "?step (?w q q0 TimeUp Quiet) (?w q q0 (Look 5000000) Quiet)"
    using rt_clock [of "?w q q0 TimeUp Quiet" 0 0 9000000 K demo_attempt] by (simp add: wait_remaining_def)
  have s3: "?step (?w q q0 (Look 5000000) Quiet) (?w ?r1 q0 (Look 5000000) Bump)"
    using rt_release [of "?w q q0 (Look 5000000) Quiet" 5 0 0 K demo_attempt] by (simp add: q(2) pending_slot_def one_bit_def)
  have s4: "?step (?w ?r1 q0 (Look 5000000) Bump) (?w ?r2 q0 (Look 5000000) Wake)"
    using rt_bump [of "?w ?r1 q0 (Look 5000000) Bump" 5 K demo_attempt] by simp
  have s5: "?step (?w ?r2 q0 (Look 5000000) Wake) (?w ?r2 ?q1 (Look 5000000) Quiet)"
    using rt_wake [of "?w ?r2 q0 (Look 5000000) Wake" 5 K demo_attempt] by simp
  have s6: "?step (?w ?r2 ?q1 (Look 5000000) Quiet) (?w ?r2 ?q1 (Going ?v 5000000) Quiet)"
    using rt_look [of "?w ?r2 ?q1 (Look 5000000) Quiet" 0 5000000 K demo_attempt] by simp
  have s7: "?step (?w ?r2 ?q1 (Going ?v 5000000) Quiet) (?w ?r2 (futex_wait K 0 ?v ?v 5000000 ?q1) Sleeping Quiet)"
    using rt_wait [of "?w ?r2 ?q1 (Going ?v 5000000) Quiet" 0 ?v 5000000 K demo_attempt] by simp
  have run: "?step\<^sup>*\<^sup>* (full_sys q0) (?w ?r2 (futex_wait K 0 ?v ?v 5000000 ?q1) Sleeping Quiet)"
    by (rule converse_rtranclp_into_rtranclp, rule s1, rule converse_rtranclp_into_rtranclp, rule s2, rule converse_rtranclp_into_rtranclp, rule s3, rule converse_rtranclp_into_rtranclp, rule s4, rule converse_rtranclp_into_rtranclp, rule s5, rule converse_rtranclp_into_rtranclp, rule s6, rule converse_rtranclp_into_rtranclp, rule s7, rule rtranclp.rtrancl_refl)
  have "reclaimable (pending_slot\<lparr>s_readers_mask := 0, s_readers_remaining := 0\<rparr>)"
    by (simp add: reclaimable_def unread_def pending_slot_def)
  then show ?thesis
    using run asleep_wait [OF assms] sl
    by (intro exI [of _ "?w ?r2 (futex_wait K 0 ?v ?v 5000000 ?q1) Sleeping Quiet"]) simp
qed

theorem producer_can_miss_wakeup_witness:
  "\<exists>w. (reserve_step set_kernel demo_attempt)\<^sup>*\<^sup>* (full_sys {}) w \<and> 0 \<in> rs_queue w \<and> (\<forall>p. rs_sig w p = Quiet)"
  using producer_can_miss_wakeup [OF set_kernel_documented, of "{}"] by (auto simp: set_kernel_def)

end
