(* ===== verification/Image.thy ===== *)
theory Image
  imports Bytes RingState
begin

text \<open>
  A mapping as the bytes it is: the raw accessors of \<^verbatim>\<open>ring.rs\<close> (\<^verbatim>\<open>au16\<close>, \<^verbatim>\<open>au32\<close>, \<^verbatim>\<open>au64\<close>, \<^verbatim>\<open>slot_off\<close> and
  what is built on them), the fields the code reaches through them with their offsets and widths, and
  the record of type \<^typ>\<open>ring\<close> that the bytes hold. No offset computation wraps, no two fields overlap,
  every field is aligned, and a store through an accessor changes in the record that one field.
\<close>

unbundle bit_operations_syntax

type_synonym image = "u8 list"

subsection \<open>Accessors\<close>

definition au16_load :: "usize \<Rightarrow> image \<Rightarrow> u16" where
  "au16_load off m = word_of_bytes (peek (unat off) 2 m)"

definition au32_load :: "usize \<Rightarrow> image \<Rightarrow> u32" where
  "au32_load off m = word_of_bytes (peek (unat off) 4 m)"

definition au64_load :: "usize \<Rightarrow> image \<Rightarrow> u64" where
  "au64_load off m = word_of_bytes (peek (unat off) 8 m)"

definition au16_store :: "usize \<Rightarrow> u16 \<Rightarrow> image \<Rightarrow> image" where
  "au16_store off v m = poke (unat off) (word_bytes v) m"

definition au32_store :: "usize \<Rightarrow> u32 \<Rightarrow> image \<Rightarrow> image" where
  "au32_store off v m = poke (unat off) (word_bytes v) m"

definition au64_store :: "usize \<Rightarrow> u64 \<Rightarrow> image \<Rightarrow> image" where
  "au64_store off v m = poke (unat off) (word_bytes v) m"

definition byte_load :: "usize \<Rightarrow> image \<Rightarrow> u8" where
  "byte_load off m = m ! unat off"

definition byte_put :: "usize \<Rightarrow> u8 \<Rightarrow> image \<Rightarrow> image" where
  "byte_put off v m = m[unat off := v]"

definition slot_off :: "inner \<Rightarrow> usize \<Rightarrow> usize" where
  "slot_off h index = GLOBAL_HEADER_SIZE + index * i_slot_stride h"

definition payload_off :: "inner \<Rightarrow> usize \<Rightarrow> usize" where
  "payload_off h index = slot_off h index + SLOT_HEADER_SIZE"

definition slot_state :: "inner \<Rightarrow> usize \<Rightarrow> usize" where
  "slot_state h index = slot_off h index + S_STATE"

definition slot_seq :: "inner \<Rightarrow> usize \<Rightarrow> usize" where
  "slot_seq h index = slot_off h index + S_SEQUENCE"

definition slot_mask :: "inner \<Rightarrow> usize \<Rightarrow> usize" where
  "slot_mask h index = slot_off h index + S_READERS_MASK"

definition slot_readers :: "inner \<Rightarrow> usize \<Rightarrow> usize" where
  "slot_readers h index = slot_off h index + S_READERS"

definition slot_producer_pid :: "inner \<Rightarrow> usize \<Rightarrow> usize" where
  "slot_producer_pid h index = slot_off h index + S_PRODUCER_PID"

definition entry :: "usize \<Rightarrow> usize \<Rightarrow> usize" where
  "entry index field = registry_entry_offset index + field"

subsection \<open>Fields and where the code finds them\<close>

text \<open>
  Every word of the mapping that has an owner: the coordination words, the registry entries (\<open>R\<close>), the
  slot headers (\<open>S\<close>) and the payload bytes. \<open>field_off\<close> is the expression the source writes for it.
\<close>

datatype field =
    GMagic | GVersion | GSlotCount | GSlotCapacity | GNextSeq | GConsumers | GMaxConsumers | GPublishCount
  | GDropCount | GPublishFutex | GReclaimFutex | GRegistryLock | GProducerPid | GRegistryEpoch
  | GLockOwner | GReapedCount | GProducerToken | GLockToken
  | RState nat | RPid nat | RGeneration nat | RFlags nat | RHeartbeat nat | RLast nat
  | SMagic nat | SState nat | SSequence nat | STimestamp nat | SNbytes nat | SDtype nat | SNdim nat
  | SReaders nat | SFlags nat | SShape nat nat | SStride nat nat | SPid nat | SMask nat
  | SToken nat | SPad nat | SReserved nat | SByte nat nat

fun field_off :: "inner \<Rightarrow> field \<Rightarrow> usize" where
  "field_off h GMagic = G_MAGIC"
| "field_off h GVersion = G_VERSION"
| "field_off h GSlotCount = G_SLOT_COUNT"
| "field_off h GSlotCapacity = G_SLOT_CAPACITY"
| "field_off h GNextSeq = G_NEXT_SEQ"
| "field_off h GConsumers = G_CONSUMERS"
| "field_off h GMaxConsumers = G_MAX_CONSUMERS"
| "field_off h GPublishCount = G_PUBLISH_COUNT"
| "field_off h GDropCount = G_DROP_COUNT"
| "field_off h GPublishFutex = G_PUBLISH_FUTEX"
| "field_off h GReclaimFutex = G_RECLAIM_FUTEX"
| "field_off h GRegistryLock = G_REGISTRY_LOCK"
| "field_off h GProducerPid = G_PRODUCER_PID"
| "field_off h GRegistryEpoch = G_REGISTRY_EPOCH"
| "field_off h GLockOwner = G_REGISTRY_LOCK_OWNER"
| "field_off h GReapedCount = G_REAPED_COUNT"
| "field_off h GProducerToken = G_PRODUCER_START_TOKEN"
| "field_off h GLockToken = G_REGISTRY_LOCK_OWNER_TOKEN"
| "field_off h (RState i) = entry (of_nat i) R_STATE"
| "field_off h (RPid i) = entry (of_nat i) R_PID"
| "field_off h (RGeneration i) = entry (of_nat i) R_GENERATION"
| "field_off h (RFlags i) = entry (of_nat i) R_FLAGS"
| "field_off h (RHeartbeat i) = entry (of_nat i) R_HEARTBEAT_NS"
| "field_off h (RLast i) = entry (of_nat i) R_LAST_SEQUENCE"
| "field_off h (SMagic s) = slot_off h (of_nat s) + S_MAGIC"
| "field_off h (SState s) = slot_state h (of_nat s)"
| "field_off h (SSequence s) = slot_seq h (of_nat s)"
| "field_off h (STimestamp s) = slot_off h (of_nat s) + S_TIMESTAMP_NS"
| "field_off h (SNbytes s) = slot_off h (of_nat s) + S_NBYTES"
| "field_off h (SDtype s) = slot_off h (of_nat s) + S_DTYPE"
| "field_off h (SNdim s) = slot_off h (of_nat s) + S_NDIM"
| "field_off h (SReaders s) = slot_readers h (of_nat s)"
| "field_off h (SFlags s) = slot_off h (of_nat s) + S_FLAGS"
| "field_off h (SShape s d) = slot_off h (of_nat s) + S_SHAPE + of_nat d * 4"
| "field_off h (SStride s d) = slot_off h (of_nat s) + S_STRIDES + of_nat d * 4"
| "field_off h (SPid s) = slot_producer_pid h (of_nat s)"
| "field_off h (SMask s) = slot_mask h (of_nat s)"
| "field_off h (SToken s) = slot_off h (of_nat s) + S_PRODUCER_START_TOKEN"
| "field_off h (SPad s) = slot_off h (of_nat s) + (S_PRODUCER_PID + 4)"
| "field_off h (SReserved s) = slot_off h (of_nat s) + (S_PRODUCER_START_TOKEN + 4)"
| "field_off h (SByte s k) = payload_off h (of_nat s) + of_nat k"

fun field_width :: "field \<Rightarrow> nat" where
  "field_width GMagic = 8"
| "field_width GSlotCapacity = 8"
| "field_width GNextSeq = 8"
| "field_width GPublishCount = 8"
| "field_width GDropCount = 8"
| "field_width GReapedCount = 8"
| "field_width (RHeartbeat i) = 8"
| "field_width (RLast i) = 8"
| "field_width (SSequence s) = 8"
| "field_width (STimestamp s) = 8"
| "field_width (SNbytes s) = 8"
| "field_width (SMask s) = 8"
| "field_width (SDtype s) = 1"
| "field_width (SNdim s) = 1"
| "field_width (SReaders s) = 2"
| "field_width (SByte s k) = 1"
| "field_width _ = 4"

fun field_valid :: "inner \<Rightarrow> field \<Rightarrow> bool" where
  "field_valid h (RState i) = (i < MAX_CONSUMERS)"
| "field_valid h (RPid i) = (i < MAX_CONSUMERS)"
| "field_valid h (RGeneration i) = (i < MAX_CONSUMERS)"
| "field_valid h (RFlags i) = (i < MAX_CONSUMERS)"
| "field_valid h (RHeartbeat i) = (i < MAX_CONSUMERS)"
| "field_valid h (RLast i) = (i < MAX_CONSUMERS)"
| "field_valid h (SMagic s) = (s < unat (i_slot_count h))"
| "field_valid h (SPad s) = (s < unat (i_slot_count h))"
| "field_valid h (SReserved s) = (s < unat (i_slot_count h))"
| "field_valid h (SState s) = (s < unat (i_slot_count h))"
| "field_valid h (SSequence s) = (s < unat (i_slot_count h))"
| "field_valid h (STimestamp s) = (s < unat (i_slot_count h))"
| "field_valid h (SNbytes s) = (s < unat (i_slot_count h))"
| "field_valid h (SDtype s) = (s < unat (i_slot_count h))"
| "field_valid h (SNdim s) = (s < unat (i_slot_count h))"
| "field_valid h (SReaders s) = (s < unat (i_slot_count h))"
| "field_valid h (SFlags s) = (s < unat (i_slot_count h))"
| "field_valid h (SShape s d) = (s < unat (i_slot_count h) \<and> d < MAX_NDIM)"
| "field_valid h (SStride s d) = (s < unat (i_slot_count h) \<and> d < MAX_NDIM)"
| "field_valid h (SPid s) = (s < unat (i_slot_count h))"
| "field_valid h (SMask s) = (s < unat (i_slot_count h))"
| "field_valid h (SToken s) = (s < unat (i_slot_count h))"
| "field_valid h (SByte s k) = (s < unat (i_slot_count h) \<and> k < payload_len (i_slot_capacity h))"
| "field_valid h _ = True"

definition geometry_ok :: "inner \<Rightarrow> bool" where
  "geometry_ok h \<longleftrightarrow>
     i_slot_stride h = slot_stride (i_slot_capacity h) \<and> ring_fits (i_slot_count h) (i_slot_capacity h)"

subsection \<open>Positions\<close>

text \<open>The same offsets in the naturals: where slot \<open>s\<close>, registry entry \<open>i\<close> and their fields begin.\<close>

definition slot_pos :: "inner \<Rightarrow> nat \<Rightarrow> nat" where
  "slot_pos h s = 4096 + s * stride_nat (unat (i_slot_capacity h))"

definition entry_pos :: "nat \<Rightarrow> nat" where
  "entry_pos i = 128 + i * 32"

fun field_pos :: "inner \<Rightarrow> field \<Rightarrow> nat" where
  "field_pos h (RState i) = entry_pos i"
| "field_pos h (RPid i) = entry_pos i + 4"
| "field_pos h (RGeneration i) = entry_pos i + 8"
| "field_pos h (RFlags i) = entry_pos i + 12"
| "field_pos h (RHeartbeat i) = entry_pos i + 16"
| "field_pos h (RLast i) = entry_pos i + 24"
| "field_pos h (SMagic s) = slot_pos h s"
| "field_pos h (SPad s) = slot_pos h s + 108"
| "field_pos h (SReserved s) = slot_pos h s + 124"
| "field_pos h (SState s) = slot_pos h s + 4"
| "field_pos h (SSequence s) = slot_pos h s + 8"
| "field_pos h (STimestamp s) = slot_pos h s + 16"
| "field_pos h (SNbytes s) = slot_pos h s + 24"
| "field_pos h (SDtype s) = slot_pos h s + 32"
| "field_pos h (SNdim s) = slot_pos h s + 33"
| "field_pos h (SReaders s) = slot_pos h s + 34"
| "field_pos h (SFlags s) = slot_pos h s + 36"
| "field_pos h (SShape s d) = slot_pos h s + 40 + d * 4"
| "field_pos h (SStride s d) = slot_pos h s + 72 + d * 4"
| "field_pos h (SPid s) = slot_pos h s + 104"
| "field_pos h (SMask s) = slot_pos h s + 112"
| "field_pos h (SToken s) = slot_pos h s + 120"
| "field_pos h (SByte s k) = slot_pos h s + 128 + k"
| "field_pos h g = unat (field_off h g)"

lemma entry_bound: "i < MAX_CONSUMERS \<Longrightarrow> entry_pos i + 32 \<le> 2176"
  by (simp add: entry_pos_def MAX_CONSUMERS_def)

lemma unat_entry:
  assumes "i < MAX_CONSUMERS" "unat f < 32"
  shows "unat (entry (of_nat i) f) = entry_pos i + unat f"
proof -
  have "unat (of_nat i :: usize) = i"
    using assms(1) by (simp add: unat_of_nat MAX_CONSUMERS_def)
  then have "unat (of_nat i * 32 :: usize) = i * 32"
    using assms(1) by (simp add: unat_word_ariths MAX_CONSUMERS_def)
  then show ?thesis
    using assms entry_bound [of i]
    by (simp add: entry_def registry_entry_offset_def G_REGISTRY_OFF_def REGISTRY_ENTRY_SIZE_def
        unat_word_ariths entry_pos_def)
qed

lemma slot_pos_end:
  assumes "geometry_ok h" "s < unat (i_slot_count h)"
  shows "slot_pos h s + stride_nat (unat (i_slot_capacity h)) \<le> unat (total_bytes (i_slot_count h) (i_slot_capacity h))"
    and "unat (slot_off h (of_nat s)) = slot_pos h s"
    and "payload_len (i_slot_capacity h) + 128 = stride_nat (unat (i_slot_capacity h))"
proof -
  let ?c = "i_slot_capacity h" and ?n = "i_slot_count h"
  have fits: "ring_fits ?n ?c" and stride: "i_slot_stride h = slot_stride ?c"
    using assms(1) by (simp_all add: geometry_ok_def)
  have s: "unat (of_nat s :: usize) = s"
    using assms(2) unat_u64_less [of ?n] by (simp add: unat_of_nat)
  then have "unat (slot_base (of_nat s) ?c) = 4096 + s * stride_nat (unat ?c)"
    using unat_slot_base [OF fits, of "of_nat s"] assms(2) by (simp add: GLOBAL_HEADER_SIZE_def)
  then show off: "unat (slot_off h (of_nat s)) = slot_pos h s"
    by (simp add: slot_off_def slot_base_def stride slot_pos_def)
  have "unat (total_bytes ?n ?c) = 4096 + unat ?n * stride_nat (unat ?c)"
    unfolding total_bytes_slot_base using unat_slot_base [OF fits] by (simp add: GLOBAL_HEADER_SIZE_def)
  moreover have "Suc s * stride_nat (unat ?c) \<le> unat ?n * stride_nat (unat ?c)"
    using assms(2) by (intro mult_le_mono1) simp
  ultimately show "slot_pos h s + stride_nat (unat ?c) \<le> unat (total_bytes ?n ?c)"
    by (simp add: slot_pos_def)
  show "payload_len ?c + 128 = stride_nat (unat ?c)"
    using fits stride_nat_ge [of "unat ?c"]
    by (simp add: payload_len_def SLOT_HEADER_SIZE_def unat_slot_stride ring_fits_def)
qed

lemma unat_slot_field:
  assumes "geometry_ok h" "s < unat (i_slot_count h)" "unat f < stride_nat (unat (i_slot_capacity h))"
  shows "unat (slot_off h (of_nat s) + f) = slot_pos h s + unat f"
  using slot_pos_end [OF assms(1,2)] assms(3) unat_u64_less [of "total_bytes (i_slot_count h) (i_slot_capacity h)"]
  by (simp add: unat_word_ariths)


lemma slot_room: "geometry_ok h \<Longrightarrow> s < unat (i_slot_count h) \<Longrightarrow> 128 \<le> stride_nat (unat (i_slot_capacity h))"
  using slot_pos_end(3) by fastforce

lemma unat_small: "k < 2 ^ 64 \<Longrightarrow> unat (of_nat k :: usize) = k"
  by (simp add: unat_of_nat)

lemma unat_dim: "d < MAX_NDIM \<Longrightarrow> unat (c :: usize) < 128 \<Longrightarrow> unat (c + of_nat d * 4) = unat c + d * 4"
  by (simp add: unat_word_ariths unat_of_nat MAX_NDIM_def)

text \<open>The words of the code's offset arithmetic do not wrap.\<close>

lemma unat_field_off:
  assumes geo: "geometry_ok h" and v: "field_valid h f"
  shows "unat (field_off h f) = field_pos h f"
proof (cases f)
  case (SShape s d)
  with v have s: "s < unat (i_slot_count h)" and d: "d < MAX_NDIM" by simp_all
  have "unat (S_SHAPE + of_nat d * 4) = 40 + d * 4" using unat_dim [OF d, of S_SHAPE] by (simp add: S_SHAPE_def)
  moreover from this d have "unat (S_SHAPE + of_nat d * 4) < stride_nat (unat (i_slot_capacity h))"
    using slot_room [OF geo s] by (simp add: MAX_NDIM_def)
  ultimately show ?thesis using unat_slot_field [OF geo s, of "S_SHAPE + of_nat d * 4"] SShape by (simp add: add.assoc)
next
  case (SStride s d)
  with v have s: "s < unat (i_slot_count h)" and d: "d < MAX_NDIM" by simp_all
  have "unat (S_STRIDES + of_nat d * 4) = 72 + d * 4" using unat_dim [OF d, of S_STRIDES] by (simp add: S_STRIDES_def)
  moreover from this d have "unat (S_STRIDES + of_nat d * 4) < stride_nat (unat (i_slot_capacity h))"
    using slot_room [OF geo s] by (simp add: MAX_NDIM_def)
  ultimately show ?thesis using unat_slot_field [OF geo s, of "S_STRIDES + of_nat d * 4"] SStride by (simp add: add.assoc)
next
  case (SByte s k)
  with v have s: "s < unat (i_slot_count h)" and k: "k < payload_len (i_slot_capacity h)" by simp_all
  note e = slot_pos_end [OF geo s]
  have t: "k < 2 ^ 64" using k e(1,3) unat_u64_less [of "total_bytes (i_slot_count h) (i_slot_capacity h)"] by linarith
  have "unat (SLOT_HEADER_SIZE + of_nat k :: usize) = 128 + k"
    using k e(1,3) unat_u64_less [of "total_bytes (i_slot_count h) (i_slot_capacity h)"]
    by (simp add: unat_word_ariths unat_small [OF t] SLOT_HEADER_SIZE_def)
  with k e(3) show ?thesis
    using unat_slot_field [OF geo s, of "SLOT_HEADER_SIZE + of_nat k"] SByte
    by (simp add: payload_off_def add.assoc)
qed (insert geo v, auto simp: unat_entry unat_slot_field slot_state_def slot_seq_def slot_mask_def
    slot_readers_def slot_producer_pid_def slot_pos_end(2) layout_defs less_le_trans [OF _ slot_room])

text \<open>Where a field lives: the coordination words, a registry entry or a slot.\<close>

fun home :: "field \<Rightarrow> (nat + nat) option" where
  "home (RState i) = Some (Inl i)"
| "home (RPid i) = Some (Inl i)"
| "home (RGeneration i) = Some (Inl i)"
| "home (RFlags i) = Some (Inl i)"
| "home (RHeartbeat i) = Some (Inl i)"
| "home (RLast i) = Some (Inl i)"
| "home (SMagic s) = Some (Inr s)"
| "home (SPad s) = Some (Inr s)"
| "home (SReserved s) = Some (Inr s)"
| "home (SState s) = Some (Inr s)"
| "home (SSequence s) = Some (Inr s)"
| "home (STimestamp s) = Some (Inr s)"
| "home (SNbytes s) = Some (Inr s)"
| "home (SDtype s) = Some (Inr s)"
| "home (SNdim s) = Some (Inr s)"
| "home (SReaders s) = Some (Inr s)"
| "home (SFlags s) = Some (Inr s)"
| "home (SShape s d) = Some (Inr s)"
| "home (SStride s d) = Some (Inr s)"
| "home (SPid s) = Some (Inr s)"
| "home (SMask s) = Some (Inr s)"
| "home (SToken s) = Some (Inr s)"
| "home (SByte s k) = Some (Inr s)"
| "home _ = None"

fun home_range :: "inner \<Rightarrow> (nat + nat) option \<Rightarrow> nat \<times> nat" where
  "home_range h None = (0, 128)"
| "home_range h (Some (Inl i)) = (entry_pos i, entry_pos i + 32)"
| "home_range h (Some (Inr s)) = (slot_pos h s, slot_pos h s + stride_nat (unat (i_slot_capacity h)))"

fun home_valid :: "inner \<Rightarrow> (nat + nat) option \<Rightarrow> bool" where
  "home_valid h None = True"
| "home_valid h (Some (Inl i)) = (i < MAX_CONSUMERS)"
| "home_valid h (Some (Inr s)) = (s < unat (i_slot_count h))"

lemma field_in_home:
  assumes geo: "geometry_ok h" and v: "field_valid h f"
  shows "home_valid h (home f)" and "fst (home_range h (home f)) \<le> field_pos h f"
    and "field_pos h f + field_width f \<le> snd (home_range h (home f))"
  using v slot_room [OF geo] slot_pos_end(3) [OF geo]
  by (cases f; fastforce simp: layout_defs)+

lemma homes_disjoint:
  assumes geo: "geometry_ok h" and v: "home_valid h a" "home_valid h b" and ne: "a \<noteq> b"
  shows "snd (home_range h a) \<le> fst (home_range h b) \<or> snd (home_range h b) \<le> fst (home_range h a)"
proof -
  have e: "i \<noteq> j \<Longrightarrow> entry_pos i + 32 \<le> entry_pos j \<or> entry_pos j + 32 \<le> entry_pos i" for i j
    unfolding entry_pos_def by linarith
  have s: "i \<noteq> j \<Longrightarrow> slot_pos h i + stride_nat (unat (i_slot_capacity h)) \<le> slot_pos h j \<or>
      slot_pos h j + stride_nat (unat (i_slot_capacity h)) \<le> slot_pos h i" for i j
    using mult_le_mono1 [of "Suc i" j "stride_nat (unat (i_slot_capacity h))"]
      mult_le_mono1 [of "Suc j" i "stride_nat (unat (i_slot_capacity h))"]
    by (cases "i < j") (auto simp: slot_pos_def)
  have "i < MAX_CONSUMERS \<Longrightarrow> entry_pos i + 32 \<le> slot_pos h j" for i j
    using entry_bound [of i] by (simp add: slot_pos_def)
  moreover have "128 \<le> entry_pos i" "128 \<le> slot_pos h i" for i
    by (simp_all add: entry_pos_def slot_pos_def)
  ultimately show ?thesis
    using v ne e s
    by (cases "(h, a)" rule: home_range.cases; cases "(h, b)" rule: home_range.cases) fastforce+
qed

text \<open>The field that owns a byte of its home, counted from the start of the home.\<close>

fun owner :: "(nat + nat) option \<Rightarrow> nat \<Rightarrow> field" where
  "owner None q =
     (if q < 8 then GMagic else if q < 12 then GVersion else if q < 16 then GSlotCount
      else if q < 24 then GSlotCapacity else if q < 32 then GNextSeq else if q < 36 then GConsumers
      else if q < 40 then GMaxConsumers else if q < 48 then GPublishCount else if q < 56 then GDropCount
      else if q < 60 then GPublishFutex else if q < 64 then GReclaimFutex else if q < 68 then GRegistryLock
      else if q < 72 then GProducerPid else if q < 76 then GRegistryEpoch else if q < 80 then GLockOwner
      else if q < 88 then GReapedCount else if q < 92 then GProducerToken else GLockToken)"
| "owner (Some (Inl i)) q =
     (if q < 4 then RState i else if q < 8 then RPid i else if q < 12 then RGeneration i
      else if q < 16 then RFlags i else if q < 24 then RHeartbeat i else RLast i)"
| "owner (Some (Inr s)) q =
     (if q < 4 then SMagic s else if q < 8 then SState s else if q < 16 then SSequence s
      else if q < 24 then STimestamp s else if q < 32 then SNbytes s else if q < 33 then SDtype s
      else if q < 34 then SNdim s else if q < 36 then SReaders s else if q < 40 then SFlags s
      else if q < 72 then SShape s ((q - 40) div 4) else if q < 104 then SStride s ((q - 72) div 4)
      else if q < 108 then SPid s else if q < 112 then SPad s else if q < 120 then SMask s
      else if q < 124 then SToken s else if q < 128 then SReserved s else SByte s (q - 128))"

lemma owner_field:
  assumes "field_valid h f" "field_pos h f \<le> p" "p < field_pos h f + field_width f"
  shows "owner (home f) (p - fst (home_range h (home f))) = f"
proof -
  define q where "q = p - fst (home_range h (home f))"
  have "fst (home_range h (home f)) \<le> field_pos h f"
    by (cases f) (simp_all add: layout_defs)
  with assms(2) have p: "p = fst (home_range h (home f)) + q" by (simp add: q_def)
  have div4: "d * 4 \<le> j \<Longrightarrow> j < d * 4 + 4 \<Longrightarrow> j div 4 = d" for d j :: nat
    by (simp add: div_nat_eqI)
  show ?thesis
    unfolding q_def [symmetric]
    using assms unfolding p by (cases f) (auto simp: layout_defs MAX_NDIM_def intro!: div4)
qed

lemma disjoint_fields:
  assumes "geometry_ok h" "field_valid h f" "field_valid h g" "f \<noteq> g"
  shows "{unat (field_off h f) ..< unat (field_off h f) + field_width f} \<inter>
    {unat (field_off h g) ..< unat (field_off h g) + field_width g} = {}"
proof -
  { fix p assume p: "field_pos h f \<le> p" "p < field_pos h f + field_width f"
      "field_pos h g \<le> p" "p < field_pos h g + field_width g"
    then have "home f = home g"
      using homes_disjoint [OF assms(1) field_in_home(1) field_in_home(1), of f g]
        field_in_home(2,3) [OF assms(1,2)] field_in_home(2,3) [OF assms(1,3)] assms by fastforce
    then have False using owner_field [OF assms(2) p(1,2)] owner_field [OF assms(3) p(3,4)] assms(4) by simp }
  then show ?thesis using assms by (fastforce simp: unat_field_off)
qed


subsection \<open>Alignment and bounds\<close>

definition image_ok :: "inner \<Rightarrow> image \<Rightarrow> bool" where
  "image_ok h m \<longleftrightarrow>
     geometry_ok h \<and> 0 < i_slot_count h \<and> unat (total_bytes (i_slot_count h) (i_slot_capacity h)) \<le> length m"

lemma header_below_total:
  assumes "geometry_ok h" "0 < i_slot_count h"
  shows "4096 \<le> unat (total_bytes (i_slot_count h) (i_slot_capacity h))"
proof -
  have "0 < unat (i_slot_count h)" using assms(2) by (simp add: word_less_nat_alt)
  then show ?thesis using slot_pos_end(1) [OF assms(1), of 0] by (simp add: slot_pos_def)
qed

lemma home_below_total:
  assumes "geometry_ok h" "0 < i_slot_count h" "home_valid h a"
  shows "snd (home_range h a) \<le> unat (total_bytes (i_slot_count h) (i_slot_capacity h))"
proof (cases "(h, a)" rule: home_range.cases)
  case 1
  then show ?thesis using header_below_total [OF assms(1,2)] by simp
next
  case (2 _ i)
  then show ?thesis using header_below_total [OF assms(1,2)] entry_bound [of i] assms(3) by simp
next
  case (3 _ s)
  then show ?thesis using slot_pos_end(1) [OF assms(1), of s] assms(3) by simp
qed

lemma field_below_total:
  assumes "geometry_ok h" "0 < i_slot_count h" "field_valid h f"
  shows "field_pos h f + field_width f \<le> unat (total_bytes (i_slot_count h) (i_slot_capacity h))"
  using field_in_home(1,3) [OF assms(1,3)] home_below_total [OF assms(1,2), of "home f"] by linarith

lemma field_pos_aligned: "field_width f dvd field_pos h f"
proof -
  obtain q where "stride_nat (unat (i_slot_capacity h)) = 64 * q"
    using stride_nat_aligned [of "unat (i_slot_capacity h)"] by (elim dvdE)
  then have slot: "slot_pos h s = 8 * (512 + 8 * q * s)" for s by (simp add: slot_pos_def)
  have entry: "entry_pos i = 8 * (16 + 4 * i)" for i by (simp add: entry_pos_def)
  show ?thesis unfolding dvd_def
    by (cases f) (simp_all add: slot entry layout_defs, presburger+)
qed

theorem fields_aligned_in_bounds:
  assumes "geometry_ok h" "0 < i_slot_count h" "field_valid h f"
  shows "field_width f dvd unat (field_off h f)
    \<and> unat (field_off h f) + field_width f \<le> unat (total_bytes (i_slot_count h) (i_slot_capacity h))"
  using field_pos_aligned [of f h] field_below_total [OF assms] unat_field_off [OF assms(1,3)] by simp


subsection \<open>The record a mapping holds\<close>

definition field_bytes :: "inner \<Rightarrow> field \<Rightarrow> image \<Rightarrow> u8 list" where
  "field_bytes h f m = peek (unat (field_off h f)) (field_width f) m"

definition put :: "inner \<Rightarrow> field \<Rightarrow> u8 list \<Rightarrow> image \<Rightarrow> image" where
  "put h f bs m = poke (unat (field_off h f)) bs m"

definition image_entry :: "inner \<Rightarrow> image \<Rightarrow> nat \<Rightarrow> consumer_entry" where
  "image_entry h m i =
     \<lparr>r_state = word_of_bytes (field_bytes h (RState i) m), r_pid = word_of_bytes (field_bytes h (RPid i) m),
      r_generation = word_of_bytes (field_bytes h (RGeneration i) m),
      r_flags = word_of_bytes (field_bytes h (RFlags i) m),
      r_heartbeat_ns = word_of_bytes (field_bytes h (RHeartbeat i) m),
      r_last_sequence = word_of_bytes (field_bytes h (RLast i) m)\<rparr>"

definition image_slot :: "inner \<Rightarrow> image \<Rightarrow> nat \<Rightarrow> slot_header" where
  "image_slot h m s =
     \<lparr>s_magic = field_bytes h (SMagic s) m, s_state = word_of_bytes (field_bytes h (SState s) m),
      s_sequence = word_of_bytes (field_bytes h (SSequence s) m),
      s_timestamp_ns = word_of_bytes (field_bytes h (STimestamp s) m),
      s_nbytes = word_of_bytes (field_bytes h (SNbytes s) m),
      s_dtype = word_of_bytes (field_bytes h (SDtype s) m),
      s_ndim = word_of_bytes (field_bytes h (SNdim s) m),
      s_readers_remaining = word_of_bytes (field_bytes h (SReaders s) m),
      s_flags = word_of_bytes (field_bytes h (SFlags s) m),
      s_shape = map (\<lambda>d. word_of_bytes (field_bytes h (SShape s d) m)) [0..<MAX_NDIM],
      s_strides = map (\<lambda>d. word_of_bytes (field_bytes h (SStride s d) m)) [0..<MAX_NDIM],
      s_producer_pid = word_of_bytes (field_bytes h (SPid s) m),
      s_pad0 = word_of_bytes (field_bytes h (SPad s) m),
      s_readers_mask = word_of_bytes (field_bytes h (SMask s) m),
      s_producer_start_token = word_of_bytes (field_bytes h (SToken s) m),
      s_reserved = field_bytes h (SReserved s) m\<rparr>"

definition image_payload :: "inner \<Rightarrow> image \<Rightarrow> nat \<Rightarrow> u8 list" where
  "image_payload h m s =
     map (\<lambda>k. word_of_bytes (field_bytes h (SByte s k) m)) [0..<payload_len (i_slot_capacity h)]"

definition image_ring :: "inner \<Rightarrow> image \<Rightarrow> ring" where
  "image_ring h m =
     \<lparr>g_magic = field_bytes h GMagic m, g_version = word_of_bytes (field_bytes h GVersion m),
      g_slot_count = word_of_bytes (field_bytes h GSlotCount m),
      g_slot_capacity = word_of_bytes (field_bytes h GSlotCapacity m),
      g_next_seq = word_of_bytes (field_bytes h GNextSeq m),
      g_consumers = word_of_bytes (field_bytes h GConsumers m),
      g_max_consumers = word_of_bytes (field_bytes h GMaxConsumers m),
      g_publish_count = word_of_bytes (field_bytes h GPublishCount m),
      g_drop_count = word_of_bytes (field_bytes h GDropCount m),
      g_publish_futex = word_of_bytes (field_bytes h GPublishFutex m),
      g_reclaim_futex = word_of_bytes (field_bytes h GReclaimFutex m),
      g_lock = \<lparr>lk_word = word_of_bytes (field_bytes h GRegistryLock m),
                lk_owner = word_of_bytes (field_bytes h GLockOwner m),
                lk_token = word_of_bytes (field_bytes h GLockToken m)\<rparr>,
      g_producer_pid = word_of_bytes (field_bytes h GProducerPid m),
      g_registry_epoch = word_of_bytes (field_bytes h GRegistryEpoch m),
      g_reaped_count = word_of_bytes (field_bytes h GReapedCount m),
      g_producer_start_token = word_of_bytes (field_bytes h GProducerToken m),
      registry = map (image_entry h m) [0..<MAX_CONSUMERS],
      slots = map (image_slot h m) [0..<unat (i_slot_count h)],
      payloads = map (image_payload h m) [0..<unat (i_slot_count h)]\<rparr>"

text \<open>What a store to one field does to the record.\<close>

fun field_update :: "field \<Rightarrow> u8 list \<Rightarrow> ring \<Rightarrow> ring" where
  "field_update GMagic bs r = r\<lparr>g_magic := bs\<rparr>"
| "field_update GVersion bs r = r\<lparr>g_version := word_of_bytes bs\<rparr>"
| "field_update GSlotCount bs r = r\<lparr>g_slot_count := word_of_bytes bs\<rparr>"
| "field_update GSlotCapacity bs r = r\<lparr>g_slot_capacity := word_of_bytes bs\<rparr>"
| "field_update GNextSeq bs r = r\<lparr>g_next_seq := word_of_bytes bs\<rparr>"
| "field_update GConsumers bs r = r\<lparr>g_consumers := word_of_bytes bs\<rparr>"
| "field_update GMaxConsumers bs r = r\<lparr>g_max_consumers := word_of_bytes bs\<rparr>"
| "field_update GPublishCount bs r = r\<lparr>g_publish_count := word_of_bytes bs\<rparr>"
| "field_update GDropCount bs r = r\<lparr>g_drop_count := word_of_bytes bs\<rparr>"
| "field_update GPublishFutex bs r = r\<lparr>g_publish_futex := word_of_bytes bs\<rparr>"
| "field_update GReclaimFutex bs r = r\<lparr>g_reclaim_futex := word_of_bytes bs\<rparr>"
| "field_update GRegistryLock bs r = r\<lparr>g_lock := (g_lock r)\<lparr>lk_word := word_of_bytes bs\<rparr>\<rparr>"
| "field_update GProducerPid bs r = r\<lparr>g_producer_pid := word_of_bytes bs\<rparr>"
| "field_update GRegistryEpoch bs r = r\<lparr>g_registry_epoch := word_of_bytes bs\<rparr>"
| "field_update GLockOwner bs r = r\<lparr>g_lock := (g_lock r)\<lparr>lk_owner := word_of_bytes bs\<rparr>\<rparr>"
| "field_update GReapedCount bs r = r\<lparr>g_reaped_count := word_of_bytes bs\<rparr>"
| "field_update GProducerToken bs r = r\<lparr>g_producer_start_token := word_of_bytes bs\<rparr>"
| "field_update GLockToken bs r = r\<lparr>g_lock := (g_lock r)\<lparr>lk_token := word_of_bytes bs\<rparr>\<rparr>"
| "field_update (RState i) bs r = upd_entry i (\<lambda>e. e\<lparr>r_state := word_of_bytes bs\<rparr>) r"
| "field_update (RPid i) bs r = upd_entry i (\<lambda>e. e\<lparr>r_pid := word_of_bytes bs\<rparr>) r"
| "field_update (RGeneration i) bs r = upd_entry i (\<lambda>e. e\<lparr>r_generation := word_of_bytes bs\<rparr>) r"
| "field_update (RFlags i) bs r = upd_entry i (\<lambda>e. e\<lparr>r_flags := word_of_bytes bs\<rparr>) r"
| "field_update (RHeartbeat i) bs r = upd_entry i (\<lambda>e. e\<lparr>r_heartbeat_ns := word_of_bytes bs\<rparr>) r"
| "field_update (RLast i) bs r = upd_entry i (\<lambda>e. e\<lparr>r_last_sequence := word_of_bytes bs\<rparr>) r"
| "field_update (SMagic s) bs r = upd_slot s (\<lambda>h. h\<lparr>s_magic := bs\<rparr>) r"
| "field_update (SState s) bs r = upd_slot s (\<lambda>h. h\<lparr>s_state := word_of_bytes bs\<rparr>) r"
| "field_update (SSequence s) bs r = upd_slot s (\<lambda>h. h\<lparr>s_sequence := word_of_bytes bs\<rparr>) r"
| "field_update (STimestamp s) bs r = upd_slot s (\<lambda>h. h\<lparr>s_timestamp_ns := word_of_bytes bs\<rparr>) r"
| "field_update (SNbytes s) bs r = upd_slot s (\<lambda>h. h\<lparr>s_nbytes := word_of_bytes bs\<rparr>) r"
| "field_update (SDtype s) bs r = upd_slot s (\<lambda>h. h\<lparr>s_dtype := word_of_bytes bs\<rparr>) r"
| "field_update (SNdim s) bs r = upd_slot s (\<lambda>h. h\<lparr>s_ndim := word_of_bytes bs\<rparr>) r"
| "field_update (SReaders s) bs r = upd_slot s (\<lambda>h. h\<lparr>s_readers_remaining := word_of_bytes bs\<rparr>) r"
| "field_update (SFlags s) bs r = upd_slot s (\<lambda>h. h\<lparr>s_flags := word_of_bytes bs\<rparr>) r"
| "field_update (SShape s d) bs r = upd_slot s (\<lambda>h. h\<lparr>s_shape := (s_shape h)[d := word_of_bytes bs]\<rparr>) r"
| "field_update (SStride s d) bs r = upd_slot s (\<lambda>h. h\<lparr>s_strides := (s_strides h)[d := word_of_bytes bs]\<rparr>) r"
| "field_update (SPid s) bs r = upd_slot s (\<lambda>h. h\<lparr>s_producer_pid := word_of_bytes bs\<rparr>) r"
| "field_update (SPad s) bs r = upd_slot s (\<lambda>h. h\<lparr>s_pad0 := word_of_bytes bs\<rparr>) r"
| "field_update (SMask s) bs r = upd_slot s (\<lambda>h. h\<lparr>s_readers_mask := word_of_bytes bs\<rparr>) r"
| "field_update (SToken s) bs r = upd_slot s (\<lambda>h. h\<lparr>s_producer_start_token := word_of_bytes bs\<rparr>) r"
| "field_update (SReserved s) bs r = upd_slot s (\<lambda>h. h\<lparr>s_reserved := bs\<rparr>) r"
| "field_update (SByte s k) bs r =
     r\<lparr>payloads := (payloads r)[s := (payloads r ! s)[k := word_of_bytes bs]]\<rparr>"

lemma field_in_image:
  "image_ok h m \<Longrightarrow> field_valid h f \<Longrightarrow> unat (field_off h f) + field_width f \<le> length m"
  using field_below_total [of h f] by (fastforce simp: image_ok_def unat_field_off)

lemma put_same:
  "image_ok h m \<Longrightarrow> field_valid h f \<Longrightarrow> length bs = field_width f \<Longrightarrow> field_bytes h f (put h f bs m) = bs"
  using field_in_image [of h m f] peek_poke_same [of "unat (field_off h f)" bs m]
  by (simp add: field_bytes_def put_def)

lemma put_other:
  assumes "image_ok h m" "field_valid h f" "length bs = field_width f" "field_valid h g" "g \<noteq> f"
  shows "field_bytes h g (put h f bs m) = field_bytes h g m"
proof -
  let ?f = "unat (field_off h f)" and ?g = "unat (field_off h g)"
  have "0 < field_width f" "0 < field_width g" by (cases f; simp) (cases g; simp)
  moreover have "{?g ..< ?g + field_width g} \<inter> {?f ..< ?f + field_width f} = {}"
    using assms by (intro disjoint_fields) (auto simp: image_ok_def)
  ultimately have "?g + field_width g \<le> ?f \<or> ?f + field_width f \<le> ?g"
    by (auto simp: disjoint_iff)
  then show ?thesis
    using field_in_image [OF assms(1,2)] assms(3) by (auto simp: field_bytes_def put_def intro!: peek_poke_other)
qed

lemma image_ok_put [simp]:
  "image_ok h m \<Longrightarrow> field_valid h f \<Longrightarrow> length bs = field_width f \<Longrightarrow> image_ok h (put h f bs m)"
  using field_in_image [of h m f] by (simp add: image_ok_def put_def)

lemma map_upt_update:
  "i < n \<Longrightarrow> (\<And>j. j < n \<Longrightarrow> j \<noteq> i \<Longrightarrow> f j = g j) \<Longrightarrow> map f [0..<n] = (map g [0..<n])[i := f i]"
  by (rule nth_equalityI) (auto simp: nth_list_update)

lemma image_entry_frame:
  assumes "image_ok h m" "field_valid h f" "length bs = field_width f" "home f \<noteq> Some (Inl i)" "i < MAX_CONSUMERS"
  shows "image_entry h (put h f bs m) i = image_entry h m i"
  using assms by (auto simp: image_entry_def intro!: arg_cong [where f = word_of_bytes] put_other)

lemma image_slot_frame:
  assumes "image_ok h m" "field_valid h f" "length bs = field_width f" "home f \<noteq> Some (Inr s)" "s < unat (i_slot_count h)"
  shows "image_slot h (put h f bs m) s = image_slot h m s"
  using assms by (auto simp: image_slot_def intro!: arg_cong [where f = word_of_bytes] put_other)

lemma image_payload_frame:
  assumes "image_ok h m" "field_valid h f" "length bs = field_width f" "s < unat (i_slot_count h)"
    "\<And>k. f \<noteq> SByte s k"
  shows "image_payload h (put h f bs m) s = image_payload h m s"
  using assms by (auto simp: image_payload_def intro!: arg_cong [where f = word_of_bytes] put_other)


lemma registry_frame:
  assumes "image_ok h m" "field_valid h f" "length bs = field_width f" "\<And>i. home f \<noteq> Some (Inl i)"
  shows "map (image_entry h (put h f bs m)) [0..<MAX_CONSUMERS] = map (image_entry h m) [0..<MAX_CONSUMERS]"
  using assms by (intro map_cong refl image_entry_frame) auto

lemma registry_put:
  assumes "image_ok h m" "field_valid h f" "length bs = field_width f" "home f = Some (Inl i)"
  shows "map (image_entry h (put h f bs m)) [0..<MAX_CONSUMERS] =
    (map (image_entry h m) [0..<MAX_CONSUMERS])[i := image_entry h (put h f bs m) i]"
  using assms field_in_home(1) [of h f] by (intro map_upt_update image_entry_frame) (auto simp: image_ok_def)

lemma slots_frame:
  assumes "image_ok h m" "field_valid h f" "length bs = field_width f" "\<And>s. home f \<noteq> Some (Inr s)"
  shows "map (image_slot h (put h f bs m)) [0..<unat (i_slot_count h)] = map (image_slot h m) [0..<unat (i_slot_count h)]"
  using assms by (intro map_cong refl image_slot_frame) auto

lemma slots_put:
  assumes "image_ok h m" "field_valid h f" "length bs = field_width f" "home f = Some (Inr s)"
  shows "map (image_slot h (put h f bs m)) [0..<unat (i_slot_count h)] =
    (map (image_slot h m) [0..<unat (i_slot_count h)])[s := image_slot h (put h f bs m) s]"
  using assms field_in_home(1) [of h f] by (intro map_upt_update image_slot_frame) (auto simp: image_ok_def)

lemma payloads_frame:
  assumes "image_ok h m" "field_valid h f" "length bs = field_width f" "\<And>s k. f \<noteq> SByte s k"
  shows "map (image_payload h (put h f bs m)) [0..<unat (i_slot_count h)] =
    map (image_payload h m) [0..<unat (i_slot_count h)]"
  using assms by (intro map_cong refl image_payload_frame) auto

lemma global_put:
  assumes "image_ok h m" "length bs = field_width f" "home f = None" "field_valid h f"
  shows "image_ring h (put h f bs m) = field_update f bs (image_ring h m)"
proof -
  note frame = registry_frame [OF assms(1,4,2)] slots_frame [OF assms(1,4,2)] payloads_frame [OF assms(1,4,2)]
    put_same [OF assms(1,4,2)] put_other [OF assms(1,4,2)]
  show ?thesis
    using assms(3) frame by (cases f) (simp_all add: image_ring_def)
qed

lemma entry_put:
  assumes "image_ok h m" "length bs = field_width f" "home f = Some (Inl i)" "field_valid h f"
  shows "image_ring h (put h f bs m) = field_update f bs (image_ring h m)"
proof -
  note frame = registry_put [OF assms(1,4,2,3)] slots_frame [OF assms(1,4,2)] payloads_frame [OF assms(1,4,2)]
    put_same [OF assms(1,4,2)] put_other [OF assms(1,4,2)]
  show ?thesis
    using assms(3,4) frame by (cases f) (simp_all add: image_ring_def upd_entry_def, simp_all add: image_entry_def)
qed


lemma dims_put:
  assumes "image_ok h m" "field_valid h (SShape s d)" "length bs = 4"
  shows "map (\<lambda>j. word_of_bytes (field_bytes h (SShape s j) (put h (SShape s d) bs m))) [0..<MAX_NDIM] =
    (map (\<lambda>j. word_of_bytes (field_bytes h (SShape s j) m)) [0..<MAX_NDIM])[d := word_of_bytes bs]"
  using assms map_upt_update [where n = MAX_NDIM and i = d
      and f = "\<lambda>j. word_of_bytes (field_bytes h (SShape s j) (put h (SShape s d) bs m))"
      and g = "\<lambda>j. word_of_bytes (field_bytes h (SShape s j) m)"]
  by (simp add: put_same put_other)

lemma strides_put:
  assumes "image_ok h m" "field_valid h (SStride s d)" "length bs = 4"
  shows "map (\<lambda>j. word_of_bytes (field_bytes h (SStride s j) (put h (SStride s d) bs m))) [0..<MAX_NDIM] =
    (map (\<lambda>j. word_of_bytes (field_bytes h (SStride s j) m)) [0..<MAX_NDIM])[d := word_of_bytes bs]"
  using assms map_upt_update [where n = MAX_NDIM and i = d
      and f = "\<lambda>j. word_of_bytes (field_bytes h (SStride s j) (put h (SStride s d) bs m))"
      and g = "\<lambda>j. word_of_bytes (field_bytes h (SStride s j) m)"]
  by (simp add: put_same put_other)

lemma payload_put:
  assumes "image_ok h m" "field_valid h (SByte s k)" "length bs = 1"
  shows "image_payload h (put h (SByte s k) bs m) s = (image_payload h m s)[k := word_of_bytes bs]"
  using assms map_upt_update [where n = "payload_len (i_slot_capacity h)" and i = k
      and f = "\<lambda>j. word_of_bytes (field_bytes h (SByte s j) (put h (SByte s k) bs m))"
      and g = "\<lambda>j. word_of_bytes (field_bytes h (SByte s j) m)"]
  by (simp add: put_same put_other image_payload_def)

lemma dims_frame:
  assumes "image_ok h m" "field_valid h f" "length bs = field_width f" "home f = Some (Inr s)" "\<And>s d. f \<noteq> SShape s d"
  shows "map (\<lambda>j. word_of_bytes (field_bytes h (SShape s j) (put h f bs m))) [0..<MAX_NDIM] =
    map (\<lambda>j. word_of_bytes (field_bytes h (SShape s j) m) :: u32) [0..<MAX_NDIM]"
  using assms field_in_home(1) [of h f]
  by (intro map_cong refl arg_cong [where f = word_of_bytes] put_other) (auto simp: image_ok_def)

lemma strides_frame:
  assumes "image_ok h m" "field_valid h f" "length bs = field_width f" "home f = Some (Inr s)" "\<And>s d. f \<noteq> SStride s d"
  shows "map (\<lambda>j. word_of_bytes (field_bytes h (SStride s j) (put h f bs m))) [0..<MAX_NDIM] =
    map (\<lambda>j. word_of_bytes (field_bytes h (SStride s j) m) :: u32) [0..<MAX_NDIM]"
  using assms field_in_home(1) [of h f]
  by (intro map_cong refl arg_cong [where f = word_of_bytes] put_other) (auto simp: image_ok_def)

lemma slot_put:
  assumes "image_ok h m" "length bs = field_width f" "home f = Some (Inr s)" "field_valid h f" "\<forall>s k. f \<noteq> SByte s k"
  shows "image_ring h (put h f bs m) = field_update f bs (image_ring h m)"
proof -
  note frame = slots_put [OF assms(1,4,2,3)] registry_frame [OF assms(1,4,2)] payloads_frame [OF assms(1,4,2) assms(5) [rule_format]]
    put_same [OF assms(1,4,2)] put_other [OF assms(1,4,2)]
  show ?thesis
    using assms frame
    by (cases f) (simp_all add: image_ring_def upd_slot_def, simp_all add: image_slot_def dims_put strides_put dims_frame strides_frame)
qed

lemma byte_put_payload:
  assumes "image_ok h m" "length bs = 1" "field_valid h (SByte s k)"
  shows "image_ring h (put h (SByte s k) bs m) = field_update (SByte s k) bs (image_ring h m)"
proof -
  let ?m = "put h (SByte s k) bs m"
  have len: "length bs = field_width (SByte s k)" using assms(2) by simp
  note frame = registry_frame [OF assms(1,3) len] put_other [OF assms(1,3) len]
  have "image_slot h ?m j = image_slot h m j" if "j < unat (i_slot_count h)" for j
    using that frame(2)
    by (auto simp: image_slot_def intro!: arg_cong [where f = word_of_bytes])
  then have slots: "map (image_slot h ?m) [0..<unat (i_slot_count h)] = map (image_slot h m) [0..<unat (i_slot_count h)]"
    by simp
  have payloads: "map (image_payload h ?m) [0..<unat (i_slot_count h)] =
      (map (image_payload h m) [0..<unat (i_slot_count h)])[s := image_payload h ?m s]"
    using assms by (intro map_upt_update image_payload_frame) auto
  show ?thesis
    using assms(3) frame slots payloads payload_put [OF assms(1,3,2)] by (simp add: image_ring_def)
qed

lemma put_image_ring:
  assumes "image_ok h m" "field_valid h f" "length bs = field_width f"
  shows "image_ring h (put h f bs m) = field_update f bs (image_ring h m)"
proof -
  consider "home f = None" | i where "home f = Some (Inl i)" | s k where "f = SByte s k"
    | s where "home f = Some (Inr s)" "\<forall>s k. f \<noteq> SByte s k"
    by (cases f) auto
  then show ?thesis
  proof cases
    case 1
    then show ?thesis using assms by (intro global_put)
  next
    case 2
    then show ?thesis using assms by (intro entry_put)
  next
    case (3 s k)
    then show ?thesis using assms byte_put_payload [of h m bs s k] by simp
  next
    case 4
    then show ?thesis using assms by (intro slot_put)
  qed
qed

end
