(* ===== verification/ImageOps.thy ===== *)
theory ImageOps
  imports Image SlotSteps Lifecycle
begin

text \<open>
  The operations that touch the mapping byte by byte: \<^verbatim>\<open>format\<close>, the header checks of \<^verbatim>\<open>attach\<close>, the
  stores of a publication and \<^verbatim>\<open>snapshot\<close>. Each is written with the accessors of \<^verbatim>\<open>Image\<close> at the offsets
  of the source and shown to do to the record what the ring's own definition does.
\<close>

unbundle bit_operations_syntax

subsection \<open>Accessors are stores to fields\<close>

lemma accessor_puts:
  "au16_store (field_off h f) w m = put h f (word_bytes w) m"
  "au32_store (field_off h f) x m = put h f (word_bytes x) m"
  "au64_store (field_off h f) y m = put h f (word_bytes y) m"
  by (simp_all add: au16_store_def au32_store_def au64_store_def put_def)

lemma accessor_loads:
  "field_width f = 2 \<Longrightarrow> au16_load (field_off h f) m = word_of_bytes (field_bytes h f m)"
  "field_width f = 4 \<Longrightarrow> au32_load (field_off h f) m = word_of_bytes (field_bytes h f m)"
  "field_width f = 8 \<Longrightarrow> au64_load (field_off h f) m = word_of_bytes (field_bytes h f m)"
  by (simp_all add: au16_load_def au32_load_def au64_load_def field_bytes_def)

lemma byte_word [simp]: "word_of_bytes [v] = (v :: u8)"
  by (simp add: word_of_bytes_def)

lemma byte_put_field:
  assumes "image_ok h m" "field_valid h f" "field_width f = 1"
  shows "byte_put (field_off h f) v m = put h f [v] m"
  using field_in_image [OF assms(1,2)] assms(3) by (simp add: byte_put_def put_def poke_byte)

lemma words_roundtrip [simp]:
  "word_of_bytes (word_bytes w) = (w :: u16)" "word_of_bytes (word_bytes x) = (x :: u32)"
  "word_of_bytes (word_bytes y) = (y :: u64)"
  by (simp_all add: word_of_bytes_roundtrip)

subsection \<open>Formatting\<close>

definition format_slot_image :: "inner \<Rightarrow> nat \<Rightarrow> image \<Rightarrow> image" where
  "format_slot_image h i m =
     (let off = slot_off h (of_nat i);
          m1 = poke (unat (off + S_MAGIC)) SLOT_MAGIC m
      in au32_store (slot_state h (of_nat i)) STATE_FREE m1)"

definition format_image :: "inner \<Rightarrow> image \<Rightarrow> image" where
  "format_image h m =
     (let m0 = replicate (length m) 0;
          m1 = poke (unat G_MAGIC) PROTOCOL_MAGIC m0;
          m2 = au32_store G_VERSION PROTOCOL_VERSION m1;
          m3 = au32_store G_SLOT_COUNT (ucast (i_slot_count h)) m2;
          m4 = au64_store G_SLOT_CAPACITY (i_slot_capacity h) m3;
          m5 = au64_store G_NEXT_SEQ 1 m4;
          m6 = au32_store G_CONSUMERS 0 m5;
          m7 = au32_store G_MAX_CONSUMERS (of_nat MAX_CONSUMERS) m6
      in fold (format_slot_image h) [0..<unat (i_slot_count h)] m7)"

lemma length_magics [simp]: "length PROTOCOL_MAGIC = 8" "length SLOT_MAGIC = 4"
  by (simp_all add: PROTOCOL_MAGIC_def SLOT_MAGIC_def ascii_def)

lemma zero_field:
  "image_ok h (replicate L 0) \<Longrightarrow> field_valid h f \<Longrightarrow>
   field_bytes h f (replicate L 0) = replicate (field_width f) 0"
  using field_in_image [of h "replicate L 0" f] by (simp add: field_bytes_def peek_zeros)

lemma zero_image:
  assumes "image_ok h (replicate L 0)"
  shows "image_ring h (replicate L 0) = zero_ring (i_slot_count h) (i_slot_capacity h)"
proof -
  note z = zero_field [OF assms] word_of_zeros
  have "image_entry h (replicate L 0) i = zero_entry" if "i < MAX_CONSUMERS" for i
    using that by (simp add: image_entry_def zero_entry_def z)
  moreover have "image_slot h (replicate L 0) s = zero_slot" if "s < unat (i_slot_count h)" for s
    using that by (simp add: image_slot_def zero_slot_def z list_eq_iff_nth_eq)
  moreover have "image_payload h (replicate L 0) s = replicate (payload_len (i_slot_capacity h)) 0"
    if "s < unat (i_slot_count h)" for s
    using that by (simp add: image_payload_def z list_eq_iff_nth_eq)
  ultimately show ?thesis
    by (simp add: image_ring_def zero_ring_def z list_eq_iff_nth_eq)
qed

lemma format_slot_put:
  "format_slot_image h i m = put h (SState i) (word_bytes STATE_FREE) (put h (SMagic i) SLOT_MAGIC m)"
  using accessor_puts(2) [of h "SState i"] by (simp add: format_slot_image_def put_def Let_def)

lemma format_slot_image_ring:
  assumes "image_ok h m" "i < unat (i_slot_count h)"
  shows "image_ok h (format_slot_image h i m)"
    and "image_ring h (format_slot_image h i m) = format_slot i (image_ring h m)"
  using assms by (simp_all add: format_slot_put put_image_ring format_slot_def)

lemma format_slots_image_ring:
  assumes "image_ok h m" "k \<le> unat (i_slot_count h)"
  shows "image_ok h (fold (format_slot_image h) [0..<k] m) \<and>
    image_ring h (fold (format_slot_image h) [0..<k] m) = fold format_slot [0..<k] (image_ring h m)"
  using assms(2) by (induction k) (use assms(1) in \<open>auto simp: format_slot_image_ring\<close>)

lemma header_puts:
  "poke (unat G_MAGIC) bs m = put h GMagic bs m"
  "au32_store G_VERSION x m = put h GVersion (word_bytes x) m"
  "au32_store G_SLOT_COUNT x m = put h GSlotCount (word_bytes x) m"
  "au64_store G_SLOT_CAPACITY y m = put h GSlotCapacity (word_bytes y) m"
  "au64_store G_NEXT_SEQ y m = put h GNextSeq (word_bytes y) m"
  "au32_store G_CONSUMERS x m = put h GConsumers (word_bytes x) m"
  "au32_store G_MAX_CONSUMERS x m = put h GMaxConsumers (word_bytes x) m"
  "au64_store G_PUBLISH_COUNT y m = put h GPublishCount (word_bytes y) m"
  "au32_store G_PUBLISH_FUTEX x m = put h GPublishFutex (word_bytes x) m"
  using accessor_puts [of h GVersion] accessor_puts [of h GSlotCount] accessor_puts [of h GSlotCapacity]
    accessor_puts [of h GNextSeq] accessor_puts [of h GConsumers] accessor_puts [of h GMaxConsumers]
    accessor_puts [of h GPublishCount] accessor_puts [of h GPublishFutex]
  by (simp_all add: put_def)

lemma format_refines:
  assumes "image_ok h m"
  shows "image_ok h (format_image h m)" and "image_ring h (format_image h m) = format_ring h"
proof -
  have z: "image_ok h (replicate (length m) 0)" using assms by (simp add: image_ok_def)
  show "image_ok h (format_image h m)" "image_ring h (format_image h m) = format_ring h"
    using z format_slots_image_ring [of h _ "unat (i_slot_count h)"]
    by (simp_all add: format_image_def header_puts [where h = h] format_ring_def put_image_ring zero_image Let_def)
qed


subsection \<open>Attaching\<close>

definition attach_image :: "image \<Rightarrow> usize \<Rightarrow> error + (usize \<times> usize \<times> usize)" where
  "attach_image m map_len =
     (if peek (unat G_MAGIC) 8 m \<noteq> PROTOCOL_MAGIC then Inl (BadHeader ''invalid TenzorBus shared-memory magic'')
      else if au32_load G_VERSION m \<noteq> PROTOCOL_VERSION
      then Inl (BadHeader ''unsupported TenzorBus protocol version'')
      else
        (let slot_count = ucast (au32_load G_SLOT_COUNT m); slot_capacity = au64_load G_SLOT_CAPACITY m
         in if slot_count < 2 \<or> slot_capacity < 64
            then Inl (BadHeader ''degenerate ring geometry in header'')
            else if total_bytes slot_count slot_capacity > map_len
            then Inl (BadHeader ''header geometry exceeds mapping length'')
            else Inr (slot_count, slot_capacity, slot_stride slot_capacity)))"

lemma header_loads:
  "peek (unat G_MAGIC) 8 m = g_magic (image_ring h m)"
  "au32_load G_VERSION m = g_version (image_ring h m)"
  "au32_load G_SLOT_COUNT m = g_slot_count (image_ring h m)"
  "au64_load G_SLOT_CAPACITY m = g_slot_capacity (image_ring h m)"
  "au64_load G_PUBLISH_COUNT m = g_publish_count (image_ring h m)"
  "au32_load G_PUBLISH_FUTEX m = g_publish_futex (image_ring h m)"
  using accessor_loads(2) [of GVersion h m] accessor_loads(2) [of GSlotCount h m]
    accessor_loads(3) [of GSlotCapacity h m] accessor_loads(3) [of GPublishCount h m]
    accessor_loads(2) [of GPublishFutex h m]
  by (simp_all add: image_ring_def field_bytes_def)

lemma attach_image_header: "attach_image m len = attach_header (image_ring h m) len"
  by (simp add: attach_image_def attach_header_def header_loads [where h = h])

subsection \<open>The stores of a job\<close>

fun byte_store :: "inner \<Rightarrow> nat \<Rightarrow> store \<Rightarrow> image \<Rightarrow> image" where
  "byte_store h s (StState v) m = au32_store (slot_state h (of_nat s)) v m"
| "byte_store h s (StPid v) m = au32_store (slot_producer_pid h (of_nat s)) v m"
| "byte_store h s (StToken v) m = au32_store (slot_off h (of_nat s) + S_PRODUCER_START_TOKEN) v m"
| "byte_store h s (StSequence v) m = au64_store (slot_seq h (of_nat s)) v m"
| "byte_store h s (StTimestamp v) m = au64_store (slot_off h (of_nat s) + S_TIMESTAMP_NS) v m"
| "byte_store h s (StNbytes v) m = au64_store (slot_off h (of_nat s) + S_NBYTES) v m"
| "byte_store h s (StDtype v) m = byte_put (slot_off h (of_nat s) + S_DTYPE) v m"
| "byte_store h s (StNdim v) m = byte_put (slot_off h (of_nat s) + S_NDIM) v m"
| "byte_store h s (StFlags v) m = au32_store (slot_off h (of_nat s) + S_FLAGS) v m"
| "byte_store h s (StShape d v) m = au32_store (slot_off h (of_nat s) + S_SHAPE + of_nat d * 4) v m"
| "byte_store h s (StStride d v) m = au32_store (slot_off h (of_nat s) + S_STRIDES + of_nat d * 4) v m"
| "byte_store h s (StMask v) m = au64_store (slot_mask h (of_nat s)) v m"
| "byte_store h s (StReaders v) m = au16_store (slot_readers h (of_nat s)) v m"
| "byte_store h s (StByte k v) m = byte_put (payload_off h (of_nat s) + of_nat k) v m"

fun store_field :: "nat \<Rightarrow> store \<Rightarrow> field" where
  "store_field s (StState v) = SState s"
| "store_field s (StPid v) = SPid s"
| "store_field s (StToken v) = SToken s"
| "store_field s (StSequence v) = SSequence s"
| "store_field s (StTimestamp v) = STimestamp s"
| "store_field s (StNbytes v) = SNbytes s"
| "store_field s (StDtype v) = SDtype s"
| "store_field s (StNdim v) = SNdim s"
| "store_field s (StFlags v) = SFlags s"
| "store_field s (StShape d v) = SShape s d"
| "store_field s (StStride d v) = SStride s d"
| "store_field s (StMask v) = SMask s"
| "store_field s (StReaders v) = SReaders s"
| "store_field s (StByte k v) = SByte s k"

fun store_bytes :: "store \<Rightarrow> u8 list" where
  "store_bytes (StState v) = word_bytes v"
| "store_bytes (StPid v) = word_bytes v"
| "store_bytes (StToken v) = word_bytes v"
| "store_bytes (StSequence v) = word_bytes v"
| "store_bytes (StTimestamp v) = word_bytes v"
| "store_bytes (StNbytes v) = word_bytes v"
| "store_bytes (StDtype v) = [v]"
| "store_bytes (StNdim v) = [v]"
| "store_bytes (StFlags v) = word_bytes v"
| "store_bytes (StShape d v) = word_bytes v"
| "store_bytes (StStride d v) = word_bytes v"
| "store_bytes (StMask v) = word_bytes v"
| "store_bytes (StReaders v) = word_bytes v"
| "store_bytes (StByte k v) = [v]"

lemma length_store_bytes: "length (store_bytes st) = field_width (store_field s st)"
  by (cases st) simp_all

lemma byte_store_put:
  assumes "image_ok h m" "field_valid h (store_field s st)"
  shows "byte_store h s st m = put h (store_field s st) (store_bytes st) m"
proof -
  note p = accessor_puts [of h "store_field s st"] byte_put_field [OF assms]
  show ?thesis using p by (cases st) (simp_all add: add.assoc)
qed

lemma field_update_store:
  "field_valid h (store_field s st) \<Longrightarrow> s < length (slots r) \<Longrightarrow> s < length (payloads r) \<Longrightarrow>
   field_update (store_field s st) (store_bytes st) r = store_at s st r"
  by (cases st) (simp_all add: store_at_def upd_slot_def)

lemma length_image_ring [simp]:
  "length (slots (image_ring h m)) = unat (i_slot_count h)"
  "length (payloads (image_ring h m)) = unat (i_slot_count h)"
  "length (registry (image_ring h m)) = MAX_CONSUMERS"
  "s < unat (i_slot_count h) \<Longrightarrow> length (payloads (image_ring h m) ! s) = payload_len (i_slot_capacity h)"
  by (simp_all add: image_ring_def image_payload_def)

lemma byte_store_ring:
  assumes "image_ok h m" "s < unat (i_slot_count h)" "field_valid h (store_field s st)"
  shows "image_ok h (byte_store h s st m)"
    and "image_ring h (byte_store h s st m) = store_at s st (image_ring h m)"
  using assms
  by (simp_all add: byte_store_put put_image_ring length_store_bytes field_update_store)

lemma byte_stores_ring:
  assumes "image_ok h m" "s < unat (i_slot_count h)" "\<forall>st\<in>set sts. field_valid h (store_field s st)"
  shows "image_ok h (fold (byte_store h s) sts m) \<and>
    image_ring h (fold (byte_store h s) sts m) = fold (store_at s) sts (image_ring h m)"
  using assms by (induction sts arbitrary: m) (simp_all add: byte_store_ring)

subsection \<open>A publication\<close>

definition copy_image :: "inner \<Rightarrow> nat \<Rightarrow> u8 list \<Rightarrow> image \<Rightarrow> image" where
  "copy_image h s data m = poke (unat (payload_off h (of_nat s))) data m"

definition commit_image :: "inner \<Rightarrow> nat \<Rightarrow> image \<Rightarrow> image" where
  "commit_image h s m =
     (let m1 = au32_store (slot_state h (of_nat s)) STATE_COMMITTED m;
          m2 = au64_store G_PUBLISH_COUNT (au64_load G_PUBLISH_COUNT m1 + 1) m1
      in au32_store G_PUBLISH_FUTEX (signal (au32_load G_PUBLISH_FUTEX m2)) m2)"

definition header_image :: "inner \<Rightarrow> nat \<Rightarrow> reservation \<Rightarrow> image \<Rightarrow> image" where
  "header_image h s v m =
     au64_store G_NEXT_SEQ (rv_sequence v + 1) (fold (byte_store h s) (header_stores v) m)"

lemma poke_snoc:
  "p + length bs < length m \<Longrightarrow> poke p (bs @ [b]) m = poke (p + length bs) [b] (poke p bs m)"
  by (rule nth_equalityI) (auto simp: nth_poke nth_append less_Suc_eq)

lemma copy_image_stores:
  assumes "image_ok h m" "s < unat (i_slot_count h)" "length data \<le> payload_len (i_slot_capacity h)"
  shows "copy_image h s data m = fold (byte_store h s) (copy_stores data) m"
proof -
  have "poke (unat (payload_off h (of_nat s))) (take n data) m =
      fold (byte_store h s) (map (\<lambda>k. StByte k (data ! k)) [0..<n]) m" if "n \<le> length data" for n
    using that
  proof (induction n)
    case 0
    show ?case by (simp add: poke_def)
  next
    case (Suc n)
    let ?m = "fold (byte_store h s) (map (\<lambda>k. StByte k (data ! k)) [0..<n]) m"
    have v: "field_valid h (SByte s n)" using assms Suc.prems by simp
    have ok: "image_ok h ?m"
      using byte_stores_ring [OF assms(1,2), of "map (\<lambda>k. StByte k (data ! k)) [0..<n]"] assms Suc.prems by auto
    have base: "unat (payload_off h (of_nat s)) = slot_pos h s + 128"
      using unat_field_off [of h "SByte s 0"] assms Suc.prems by (simp add: image_ok_def)
    have "slot_pos h s + 128 + n < length m"
      using field_in_image [OF assms(1) v] unat_field_off [OF _ v] assms(1) by (simp add: image_ok_def)
    then have "poke (slot_pos h s + 128) (take (Suc n) data) m =
        poke (slot_pos h s + 128 + n) [data ! n] (poke (slot_pos h s + 128) (take n data) m)"
      using Suc.prems poke_snoc [of "slot_pos h s + 128" "take n data" m "data ! n"]
      by (simp add: take_Suc_conv_app_nth min_def)
    also have "\<dots> = put h (SByte s n) [data ! n] ?m"
      using Suc unat_field_off [OF _ v] assms(1) base by (simp add: put_def image_ok_def)
    also have "\<dots> = byte_store h s (StByte n (data ! n)) ?m"
      using byte_store_put [OF ok, of s "StByte n (data ! n)"] v by simp
    finally show ?case using base by simp
  qed
  from this [of "length data"] show ?thesis by (simp add: copy_image_def copy_stores_def)
qed

lemma copy_image_ring:
  assumes "image_ok h m" "s < unat (i_slot_count h)" "length data \<le> payload_len (i_slot_capacity h)"
  shows "image_ok h (copy_image h s data m)"
    and "image_ring h (copy_image h s data m) = copy_payload s data (image_ring h m)"
proof -
  have "\<forall>st\<in>set (copy_stores data). field_valid h (store_field s st)"
    using assms by (auto simp: copy_stores_def)
  from byte_stores_ring [OF assms(1,2) this] assms
  show "image_ok h (copy_image h s data m)"
    "image_ring h (copy_image h s data m) = copy_payload s data (image_ring h m)"
    by (simp_all add: copy_image_stores copy_payload_stores)
qed

lemma commit_image_ring:
  assumes "image_ok h m" "s < unat (i_slot_count h)"
  shows "image_ok h (commit_image h s m)"
    and "image_ring h (commit_image h s m) = commit_slot s (image_ring h m)"
proof -
  let ?m1 = "put h (SState s) (word_bytes STATE_COMMITTED) m"
  have m1: "image_ok h ?m1" "image_ring h ?m1 = upd_slot s (\<lambda>h. h\<lparr>s_state := STATE_COMMITTED\<rparr>) (image_ring h m)"
    using assms by (simp_all add: put_image_ring)
  let ?m2 = "put h GPublishCount (word_bytes (g_publish_count (image_ring h ?m1) + 1)) ?m1"
  have m2: "image_ok h ?m2" "image_ring h ?m2 = (image_ring h ?m1)\<lparr>g_publish_count := g_publish_count (image_ring h ?m1) + 1\<rparr>"
    using m1(1) by (simp_all add: put_image_ring)
  have c: "commit_image h s m = put h GPublishFutex (word_bytes (signal (g_publish_futex (image_ring h ?m2)))) ?m2"
    using accessor_puts(2) [of h "SState s" STATE_COMMITTED m]
    by (simp add: commit_image_def header_puts [where h = h] header_loads [where h = h] Let_def)
  show "image_ok h (commit_image h s m)" using m2(1) by (simp add: c)
  show "image_ring h (commit_image h s m) = commit_slot s (image_ring h m)"
    unfolding c using m2 m1(2)
    by (simp add: put_image_ring commit_slot_def signal_publish_def Let_def)
qed

lemma header_image_ring:
  assumes "image_ok h m" "s < unat (i_slot_count h)"
  shows "image_ok h (header_image h s v m)"
    and "image_ring h (header_image h s v m) =
      (fold (store_at s) (header_stores v) (image_ring h m))\<lparr>g_next_seq := rv_sequence v + 1\<rparr>"
proof -
  have "\<forall>st\<in>set (header_stores v). field_valid h (store_field s st)"
    using assms(2) by (auto simp: header_stores_def field_stores_def)
  from byte_stores_ring [OF assms this]
  show "image_ok h (header_image h s v m)"
    "image_ring h (header_image h s v m) =
      (fold (store_at s) (header_stores v) (image_ring h m))\<lparr>g_next_seq := rv_sequence v + 1\<rparr>"
    by (simp_all add: header_image_def header_puts [where h = h] put_image_ring)
qed


subsection \<open>The bytes of a published slot\<close>

definition snapshot :: "image \<Rightarrow> image" where
  "snapshot m =
     (let len = length m; out = replicate len 0
      in poke 0 (peek 0 len m) out)"

lemma snapshot_eq [simp]: "snapshot m = m"
  by (simp add: snapshot_def peek_def poke_def Let_def)

text \<open>A header in memory: the fields of the \<^verbatim>\<open>repr(C)\<close> struct one after the other.\<close>

definition header_bytes :: "slot_header \<Rightarrow> u8 list" where
  "header_bytes sh =
     s_magic sh @ word_bytes (s_state sh) @ word_bytes (s_sequence sh) @ word_bytes (s_timestamp_ns sh) @
     word_bytes (s_nbytes sh) @ [s_dtype sh, s_ndim sh] @ word_bytes (s_readers_remaining sh) @
     word_bytes (s_flags sh) @ slice_bytes (s_shape sh) @ slice_bytes (s_strides sh) @
     word_bytes (s_producer_pid sh) @ word_bytes (s_pad0 sh) @ word_bytes (s_readers_mask sh) @
     word_bytes (s_producer_start_token sh) @ s_reserved sh"

lemma peek_split: "peek p (i + j) m = peek p i m @ peek (p + i) j m"
  by (simp add: peek_def take_add drop_drop add.commute)

lemma field_word:
  "image_ok h m \<Longrightarrow> field_valid h f \<Longrightarrow> field_width f = 2 \<Longrightarrow>
     word_bytes (word_of_bytes (field_bytes h f m) :: u16) = field_bytes h f m"
  "image_ok h m \<Longrightarrow> field_valid h f \<Longrightarrow> field_width f = 4 \<Longrightarrow>
     word_bytes (word_of_bytes (field_bytes h f m) :: u32) = field_bytes h f m"
  "image_ok h m \<Longrightarrow> field_valid h f \<Longrightarrow> field_width f = 8 \<Longrightarrow>
     word_bytes (word_of_bytes (field_bytes h f m) :: u64) = field_bytes h f m"
  using field_in_image [of h m f]
  by (simp_all add: word_bytes_of field_bytes_def length_peek)

lemma field_byte:
  "image_ok h m \<Longrightarrow> field_valid h f \<Longrightarrow> field_width f = 1 \<Longrightarrow>
     [word_of_bytes (field_bytes h f m) :: u8] = field_bytes h f m"
proof -
  assume "image_ok h m" "field_valid h f" "field_width f = 1"
  then have "length (field_bytes h f m) = 1"
    using field_in_image [of h m f] by (simp add: field_bytes_def length_peek)
  then obtain b where "field_bytes h f m = [b]" by (metis One_nat_def length_0_conv length_Suc_conv)
  then show ?thesis by simp
qed

lemma dims_bytes:
  assumes "image_ok h m" "\<And>d. d < MAX_NDIM \<Longrightarrow> field_valid h (F d)" "\<And>d. field_width (F d) = 4"
    "\<And>d. d < MAX_NDIM \<Longrightarrow> unat (field_off h (F d)) = a + d * 4" "k \<le> MAX_NDIM"
  shows "slice_bytes (map (\<lambda>d. word_of_bytes (field_bytes h (F d) m)) [0..<k]) = peek a (k * 4) m"
  using assms(5)
proof (induction k)
  case 0
  show ?case by (simp add: slice_bytes_def peek_def)
next
  case (Suc k)
  have "word_bytes (word_of_bytes (field_bytes h (F k) m) :: u32) = peek (a + k * 4) 4 m"
    using Suc.prems assms(1,2,3,4) by (simp add: field_word) (simp add: field_bytes_def)
  with Suc show ?case
    using peek_split [of a "k * 4" 4 m] by (simp add: slice_bytes_def u32_bytes_word add.commute)
qed

lemma slot_bytes:
  assumes "image_ok h m" "s < unat (i_slot_count h)"
  shows "peek (unat (slot_off h (of_nat s))) 128 m = header_bytes (slots (image_ring h m) ! s)"
proof -
  have geo: "geometry_ok h" using assms(1) by (simp add: image_ok_def)
  let ?b = "slot_pos h s"
  have b: "unat (slot_off h (of_nat s)) = ?b" using slot_pos_end(2) [OF geo assms(2)] .
  have fb: "field_bytes h f m = peek (field_pos h f) (field_width f) m" if "field_valid h f" for f
    using unat_field_off [OF geo that] by (simp add: field_bytes_def)
  have "slots (image_ring h m) ! s = image_slot h m s"
    using assms(2) by (simp add: image_ring_def)
  moreover have "slice_bytes (s_shape (image_slot h m s)) = peek (?b + 40) 32 m"
    using dims_bytes [OF assms(1), of "SShape s" "?b + 40" MAX_NDIM] assms(2) unat_field_off [OF geo, of "SShape s _"]
    by (simp add: image_slot_def MAX_NDIM_def)
  moreover have "slice_bytes (s_strides (image_slot h m s)) = peek (?b + 72) 32 m"
    using dims_bytes [OF assms(1), of "SStride s" "?b + 72" MAX_NDIM] assms(2) unat_field_off [OF geo, of "SStride s _"]
    by (simp add: image_slot_def MAX_NDIM_def)
  moreover have "peek ?b 128 m =
      peek ?b 4 m @ peek (?b + 4) 4 m @ peek (?b + 8) 8 m @ peek (?b + 16) 8 m @ peek (?b + 24) 8 m @
      (peek (?b + 32) 1 m @ peek (?b + 33) 1 m) @ peek (?b + 34) 2 m @ peek (?b + 36) 4 m @ peek (?b + 40) 32 m @
      peek (?b + 72) 32 m @ peek (?b + 104) 4 m @ peek (?b + 108) 4 m @ peek (?b + 112) 8 m @ peek (?b + 120) 4 m @
      peek (?b + 124) 4 m"
    using peek_split [of ?b 4 124 m] peek_split [of "?b + 4" 4 120 m] peek_split [of "?b + 8" 8 112 m]
      peek_split [of "?b + 16" 8 104 m] peek_split [of "?b + 24" 8 96 m] peek_split [of "?b + 32" 1 95 m]
      peek_split [of "?b + 33" 1 94 m] peek_split [of "?b + 34" 2 92 m] peek_split [of "?b + 36" 4 88 m]
      peek_split [of "?b + 40" 32 56 m] peek_split [of "?b + 72" 32 24 m] peek_split [of "?b + 104" 4 20 m]
      peek_split [of "?b + 108" 4 16 m] peek_split [of "?b + 112" 8 8 m] peek_split [of "?b + 120" 4 4 m]
    by (simp add: add.commute)
  moreover have "[s_dtype (image_slot h m s), s_ndim (image_slot h m s)] = peek (?b + 32) 1 m @ peek (?b + 33) 1 m"
    using field_byte [OF assms(1), of "SDtype s"] field_byte [OF assms(1), of "SNdim s"] assms(2)
    by (simp add: image_slot_def fb)
  ultimately show ?thesis
    unfolding header_bytes_def b
    using assms by (simp add: image_slot_def field_word) (simp add: fb)
qed

definition publish_image :: "inner \<Rightarrow> nat \<Rightarrow> reservation \<Rightarrow> u8 list \<Rightarrow> image \<Rightarrow> image" where
  "publish_image h s v data m = commit_image h s (copy_image h s data (header_image h s v m))"

lemma publish_image_ring:
  assumes "image_ok h m" "s < unat (i_slot_count h)" "length data \<le> payload_len (i_slot_capacity h)"
  shows "image_ok h (publish_image h s v data m)"
    and "image_ring h (publish_image h s v data m) =
      commit_slot s (copy_payload s data
        ((fold (store_at s) (header_stores v) (image_ring h m))\<lparr>g_next_seq := rv_sequence v + 1\<rparr>))"
  using assms by (simp_all add: publish_image_def header_image_ring copy_image_ring commit_image_ring)

definition published_header :: "reservation \<Rightarrow> slot_header \<Rightarrow> slot_header" where
  "published_header v old =
     \<lparr>s_magic = s_magic old, s_state = STATE_COMMITTED, s_sequence = rv_sequence v,
      s_timestamp_ns = rv_timestamp v, s_nbytes = rv_nbytes v, s_dtype = rv_dtype v, s_ndim = rv_ndim v,
      s_readers_remaining = of_nat (count_ones (rv_mask v)), s_flags = 0, s_shape = rv_shape v,
      s_strides = rv_strides v, s_producer_pid = rv_pid v, s_pad0 = s_pad0 old, s_readers_mask = rv_mask v,
      s_producer_start_token = rv_token v, s_reserved = s_reserved old\<rparr>"

lemma header_stores_slot:
  assumes "s < length (slots r)" "length (s_shape (slots r ! s)) = MAX_NDIM" "length (s_strides (slots r ! s)) = MAX_NDIM"
    "length (rv_shape v) = MAX_NDIM" "length (rv_strides v) = MAX_NDIM"
  shows "fold (store_at s) (header_stores v) r =
    upd_slot s (\<lambda>old. (published_header v old)\<lparr>s_state := STATE_WRITING\<rparr>) r"
  using assms
  by (simp add: header_stores_def field_stores_def store_dims_stores [symmetric] store_dims_eq
      upd_slot_def published_header_def) (cases "slots r ! s"; simp)

lemma stores_frame:
  assumes "image_ok h m" "s < unat (i_slot_count h)" "\<forall>st\<in>set sts. field_valid h (store_field s st)"
    "field_valid h f" "home f \<noteq> Some (Inr s)"
  shows "field_bytes h f (fold (byte_store h s) sts m) = field_bytes h f m"
  using assms(1,3)
proof (induction sts arbitrary: m)
  case (Cons st sts)
  have "home (store_field s st) = Some (Inr s)" by (cases st) simp_all
  with Cons assms show ?case
    by (auto simp: byte_store_ring byte_store_put length_store_bytes intro!: put_other)
qed simp


lemma published_slot:
  assumes ok: "image_ok h m" and s: "s < unat (i_slot_count h)" and len: "length data \<le> payload_len (i_slot_capacity h)"
    and dims: "length (rv_shape v) = MAX_NDIM" "length (rv_strides v) = MAX_NDIM"
  shows "slots (image_ring h (publish_image h s v data m)) ! s = published_header v (slots (image_ring h m) ! s)"
    and "payloads (image_ring h (publish_image h s v data m)) ! s = data @ drop (length data) (payloads (image_ring h m) ! s)"
proof -
  have "length (s_shape (slots (image_ring h m) ! s)) = MAX_NDIM" "length (s_strides (slots (image_ring h m) ! s)) = MAX_NDIM"
    using s by (simp_all add: image_ring_def image_slot_def)
  note r = publish_image_ring(2) [OF ok s len, where v = v, unfolded header_stores_slot [OF _ this dims, unfolded length_image_ring, OF s]]
  show "slots (image_ring h (publish_image h s v data m)) ! s = published_header v (slots (image_ring h m) ! s)"
    "payloads (image_ring h (publish_image h s v data m)) ! s = data @ drop (length data) (payloads (image_ring h m) ! s)"
    unfolding r using s
    by (simp_all add: commit_slot_def signal_publish_def copy_payload_def upd_slot_def Let_def)
      (simp add: published_header_def)
qed

lemma payload_bytes:
  assumes ok: "image_ok h m" and s: "s < unat (i_slot_count h)" and k: "k \<le> payload_len (i_slot_capacity h)"
  shows "peek (unat (payload_off h (of_nat s))) k m = take k (payloads (image_ring h m) ! s)"
proof (cases "k = 0")
  case False
  have geo: "geometry_ok h" using ok by (simp add: image_ok_def)
  have base: "unat (payload_off h (of_nat s)) = slot_pos h s + 128"
    using unat_field_off [OF geo, of "SByte s 0"] s k False by simp
  have byte: "field_bytes h (SByte s j) m = [m ! (slot_pos h s + 128 + j)] \<and> slot_pos h s + 128 + j < length m"
    if "j < k" for j
    using that s k field_in_image [OF ok, of "SByte s j"] unat_field_off [OF geo, of "SByte s j"]
    by (simp add: field_bytes_def peek_def take_Suc_conv_app_nth hd_drop_conv_nth)
  show ?thesis
  proof (rule nth_equalityI)
    have "slot_pos h s + 128 + k \<le> length m" using byte [of "k - 1"] False by auto
    then show len: "length (peek (unat (payload_off h (of_nat s))) k m) = length (take k (payloads (image_ring h m) ! s))"
      using s k base by (simp add: length_peek)
    fix i assume "i < length (peek (unat (payload_off h (of_nat s))) k m)"
    then have i: "i < k" by (simp add: length_peek)
    then show "peek (unat (payload_off h (of_nat s))) k m ! i = take k (payloads (image_ring h m) ! s) ! i"
      using byte [OF i] s k base by (simp add: nth_peek image_ring_def image_payload_def)
  qed
qed (simp add: peek_def)

lemma publish_frame:
  assumes ok: "image_ok h m" and s: "s < unat (i_slot_count h)" and len: "length data \<le> payload_len (i_slot_capacity h)"
    and f: "field_valid h f" "home f \<noteq> Some (Inr s)" "f \<notin> {GNextSeq, GPublishCount, GPublishFutex}"
  shows "field_bytes h f (publish_image h s v data m) = field_bytes h f m"
proof -
  have hs: "\<forall>st\<in>set (header_stores v). field_valid h (store_field s st)"
    using s by (auto simp: header_stores_def field_stores_def)
  have cs: "\<forall>st\<in>set (copy_stores data). field_valid h (store_field s st)"
    using s len by (auto simp: copy_stores_def)
  let ?m1 = "header_image h s v m" let ?m2 = "copy_image h s data ?m1"
  have "f \<noteq> SState s" using f(2) by auto
  have m1: "image_ok h ?m1" and m2: "image_ok h ?m2"
    using ok s len by (simp_all add: header_image_ring copy_image_ring)
  have "field_bytes h f ?m1 = field_bytes h f m"
    using stores_frame [OF ok s hs f(1,2)] byte_stores_ring [OF ok s hs] f
    by (simp add: header_image_def header_puts [where h = h] put_other)
  moreover have "field_bytes h f ?m2 = field_bytes h f ?m1"
    using stores_frame [OF m1 s cs f(1,2)] by (simp add: copy_image_stores [OF m1 s len])
  moreover have "field_bytes h f (commit_image h s ?m2) = field_bytes h f ?m2"
    using m2 s f \<open>f \<noteq> SState s\<close> accessor_puts(2) [of h "SState s" STATE_COMMITTED ?m2]
    by (simp add: commit_image_def header_puts [where h = h] Let_def put_other)
  ultimately show ?thesis by (simp add: publish_image_def)
qed

text \<open>
  Claim C9. The bytes of a published slot are the protocol's: after a publication into slot \<open>s\<close> the
  snapshot of the mapping has, at \<^verbatim>\<open>slot_base\<close>, the 128 header bytes in the order, the widths and the
  little-endian form of the frozen struct, with the magic and the reserved bytes as they were, and the
  tensor's bytes at \<^verbatim>\<open>payload_base\<close>; every byte of every other field, but the sequence counter, the
  publish count and the publish word, is what it was.
\<close>

theorem golden_bytes:
  assumes "image_ok h m" and "s < unat (i_slot_count h)" and "length data \<le> payload_len (i_slot_capacity h)"
    and "length (rv_shape v) = MAX_NDIM" and "length (rv_strides v) = MAX_NDIM"
  shows "peek (unat (slot_base (of_nat s) (i_slot_capacity h))) 128 (snapshot (publish_image h s v data m)) =
      header_bytes (published_header v (slots (image_ring h m) ! s))
    \<and> peek (unat (payload_base (of_nat s) (i_slot_capacity h))) (length data) (snapshot (publish_image h s v data m)) = data
    \<and> (\<forall>f. field_valid h f \<longrightarrow> home f \<noteq> Some (Inr s) \<longrightarrow> f \<notin> {GNextSeq, GPublishCount, GPublishFutex} \<longrightarrow>
         field_bytes h f (snapshot (publish_image h s v data m)) = field_bytes h f m)"
proof -
  have geo: "i_slot_stride h = slot_stride (i_slot_capacity h)" using assms(1) by (simp add: image_ok_def geometry_ok_def)
  have off: "slot_base (of_nat s) (i_slot_capacity h) = slot_off h (of_nat s)"
    "payload_base (of_nat s) (i_slot_capacity h) = payload_off h (of_nat s)"
    by (simp_all add: slot_base_def slot_off_def payload_base_def payload_off_def geo)
  note ok = publish_image_ring(1) [OF assms(1-3)]
  show ?thesis
    unfolding off snapshot_eq
    using slot_bytes [OF ok assms(2)] payload_bytes [OF ok assms(2,3)] published_slot [OF assms] publish_frame [OF assms(1-3)]
    by simp
qed


text \<open>
  The byte image of a reservation and of a commit are those of the ring's operations, when the sweep
  that precedes the choice has nothing to do.
\<close>

lemma publication_on_bytes:
  assumes ok: "image_ok h m" and swept: "reap_dead e (image_ring h m) = image_ring h m"
    and pick: "pick_slot (image_ring h m) = Some s" and len: "length data \<le> payload_len (i_slot_capacity h)"
    and v_def: "v = reservation_of e dt ndim shape strides nbytes ts (image_ring h m)"
  shows "reserve_header e dt ndim shape strides nbytes ts (image_ring h m) =
      (Some (s, rv_sequence v, rv_mask v), image_ring h (header_image h s v m))"
    and "commit_slot s (copy_payload s data (image_ring h (header_image h s v m))) =
      image_ring h (publish_image h s v data m)"
proof -
  have s: "s < unat (i_slot_count h)" using pick_slot_reclaimable [OF pick] by simp
  show "reserve_header e dt ndim shape strides nbytes ts (image_ring h m) =
      (Some (s, rv_sequence v, rv_mask v), image_ring h (header_image h s v m))"
    using swept pick by (simp add: reserve_stores v_def header_image_ring [OF ok s] Let_def reservation_of_def)
  show "commit_slot s (copy_payload s data (image_ring h (header_image h s v m))) =
      image_ring h (publish_image h s v data m)"
    using s len ok by (simp add: publish_image_ring header_image_ring)
qed

subsection \<open>Concrete mappings\<close>

definition demo_image :: image where
  "demo_image = replicate 4480 0"

definition demo_reservation :: reservation where
  "demo_reservation = \<lparr>rv_pid = 7, rv_token = 3, rv_sequence = 1, rv_timestamp = 5, rv_nbytes = 2, rv_dtype = 3,
     rv_ndim = 1, rv_shape = pad_dims [2], rv_strides = pad_dims [1], rv_mask = 1\<rparr>"

lemma demo_image_ok: "image_ok demo_inner demo_image"
  by (simp add: image_ok_def geometry_ok_def demo_inner_def demo_image_def ring_fits_def stride_nat_def
      total_bytes_def slot_stride_def align_up_def div_ceil_def layout_defs)

lemma demo_geometry:
  "i_slot_count demo_inner = 2" "i_slot_capacity demo_inner = 64" "payload_len 64 = 64"
  "length (rv_shape demo_reservation) = MAX_NDIM" "length (rv_strides demo_reservation) = MAX_NDIM"
  by (simp_all add: demo_inner_def demo_reservation_def pad_dims_def MAX_NDIM_def payload_len_def
      slot_stride_def align_up_def div_ceil_def SLOT_HEADER_SIZE_def)

theorem golden_bytes_witness:
  "peek 4224 2 (snapshot (publish_image demo_inner 0 demo_reservation [40, 41] demo_image)) = [40, 41]"
proof -
  have "unat (payload_base (of_nat 0) (i_slot_capacity demo_inner)) = 4224" "length [40, 41 :: u8] = 2"
    by (simp_all add: payload_base_def slot_base_def layout_defs)
  moreover note golden_bytes [OF demo_image_ok, of 0 "[40, 41]" demo_reservation, unfolded demo_geometry]
  ultimately show ?thesis by (simp only: demo_geometry) simp
qed

text \<open>
  Claim C32. The accesses of the code are sound: in a ring that fits the address space, every word it
  reads or writes lies inside the mapping and at a multiple of its size (the mapping starts on a page),
  and the bytes of two different words never overlap.
\<close>

theorem accesses_sound:
  assumes "geometry_ok h" and "0 < i_slot_count h" and "field_valid h f"
  shows "field_width f dvd unat (field_off h f)
    \<and> unat (field_off h f) + field_width f \<le> unat (total_bytes (i_slot_count h) (i_slot_capacity h))
    \<and> (\<forall>g. field_valid h g \<longrightarrow> g \<noteq> f \<longrightarrow>
         {unat (field_off h f) ..< unat (field_off h f) + field_width f} \<inter>
         {unat (field_off h g) ..< unat (field_off h g) + field_width g} = {})"
  using field_pos_aligned [of f h] field_below_total [OF assms] unat_field_off [OF assms(1,3)]
    disjoint_fields [OF assms(1,3)] by metis

theorem accesses_sound_witness:
  "8 dvd unat (field_off demo_inner (SMask 1)) \<and>
   unat (field_off demo_inner (SMask 1)) + 8 \<le> unat (total_bytes 2 64)"
proof -
  have "geometry_ok demo_inner" "0 < i_slot_count demo_inner"
    using demo_image_ok by (simp_all add: image_ok_def)
  from accesses_sound [OF this, of "SMask 1"] show ?thesis by (simp add: demo_inner_def)
qed

text \<open>
  Claim C10. The stores of the protocol, made on the bytes, are its stores on the record: any sequence
  of stores to a slot, executed at the offsets of the source in the little-endian image, leaves an image
  that holds exactly the record the same stores leave.
\<close>

theorem stores_refine:
  assumes "image_ok h m" and "s < unat (i_slot_count h)" and "\<forall>st\<in>set sts. field_valid h (store_field s st)"
  shows "image_ok h (fold (byte_store h s) sts m) \<and>
    image_ring h (fold (byte_store h s) sts m) = fold (store_at s) sts (image_ring h m)"
  by (rule byte_stores_ring [OF assms])

theorem stores_refine_witness:
  "image_ring demo_inner (fold (byte_store demo_inner 1) recover_stores demo_image) =
     fold (store_at 1) recover_stores (image_ring demo_inner demo_image)"
  using stores_refine [OF demo_image_ok, of 1 recover_stores]
  by (simp add: demo_inner_def recover_stores_def)

text \<open>
  Creating and attaching agree on the bytes: whatever the mapping held before, \<^verbatim>\<open>format\<close> leaves
  the image of a freshly formatted ring, and \<^verbatim>\<open>attach\<close>, reading the header back from those bytes, learns
  the count, the capacity and the stride of the creator, when the slot count fits 32 bits.
\<close>

theorem created_image_attaches:
  assumes "image_ok h m" and "ring_layout_new (i_slot_count h) (i_slot_capacity h) = Inr layout"
    and "unat (i_slot_count h) < 2 ^ 32" and "total_bytes (i_slot_count h) (i_slot_capacity h) \<le> len"
  shows "image_ring h (format_image h m) = format_ring h \<and>
    attach_image (format_image h m) len = Inr (i_slot_count h, i_slot_capacity h, i_slot_stride h)"
  using format_refines [OF assms(1)] attach_to_created [OF assms(2,3) refl refl assms(4)] assms(1)
  by (simp add: attach_image_header [where h = h] image_ok_def geometry_ok_def)

theorem created_image_attaches_witness:
  "attach_image (format_image demo_inner demo_image) 4480 = Inr (2, 64, 192)"
proof -
  have "ring_layout_new (i_slot_count demo_inner) (i_slot_capacity demo_inner) = Inr \<lparr>rl_slot_count = 2, rl_slot_capacity = 64\<rparr>"
    by (simp add: demo_inner_def ring_layout_new_def)
  from created_image_attaches [OF demo_image_ok this, of 4480] show ?thesis
    by (simp add: demo_inner_def total_bytes_def slot_stride_def align_up_def div_ceil_def layout_defs)
qed

end
