(* ===== verification/Reference.thy ===== *)
theory Reference
  imports ImageOps "HOL-Library.Product_Lexorder"
begin

text \<open>
  The Python reference, \<^verbatim>\<open>src/tenzorbus/protocol.py\<close> and \<^verbatim>\<open>src/tenzorbus/ring.py\<close>, which the protocol
  document calls the semantic authority. It works on the same bytes as the Rust ring, so its state is an
  image of the mapping. Python's integers are unbounded; an exception leaves the bytes written so far
  in place, so every function returns its outcome and the buffer. The file lock makes each locked
  section one step; NumPy arrays, the clock and the process id are parameters.
\<close>

unbundle bit_operations_syntax

subsection \<open>Statements that may raise\<close>

datatype ref_exn = ValueError string | RingError string | RingFull string | RingTimeout string
  | LeaseStillBorrowed | StructError | KeyError | TypeError

type_synonym 'a py = "image \<Rightarrow> (ref_exn + 'a) \<times> image"

definition ref_return :: "'a \<Rightarrow> 'a py" where
  "ref_return x b = (Inr x, b)"

definition ref_raise :: "ref_exn \<Rightarrow> 'a py" where
  "ref_raise e b = (Inl e, b)"

definition ref_bind :: "'a py \<Rightarrow> ('a \<Rightarrow> 'b py) \<Rightarrow> 'b py" where
  "ref_bind m f b = (case m b of (Inl e, b') \<Rightarrow> (Inl e, b') | (Inr x, b') \<Rightarrow> f x b')"

definition ref_seq :: "unit py \<Rightarrow> 'b py \<Rightarrow> 'b py" where
  "ref_seq m k = ref_bind m (\<lambda>_. k)"

fun ref_for :: "'i list \<Rightarrow> ('i \<Rightarrow> unit py) \<Rightarrow> unit py" where
  "ref_for [] body = ref_return ()"
| "ref_for (i # is) body = ref_seq (body i) (ref_for is body)"

fun ref_fold :: "'i list \<Rightarrow> ('i \<Rightarrow> 'a \<Rightarrow> 'a py) \<Rightarrow> 'a \<Rightarrow> 'a py" where
  "ref_fold [] body x = ref_return x"
| "ref_fold (i # is) body x = ref_bind (body i x) (ref_fold is body)"

text \<open>\<^verbatim>\<open>range(n)\<close>\<close>

definition ref_range :: "int \<Rightarrow> int list" where
  "ref_range n = map int [0..<nat n]"

subsection \<open>protocol.py\<close>

definition ref_MAGIC :: "u8 list" where "ref_MAGIC = map of_nat (ascii ''TZBUS001'')"
definition ref_SLOT_MAGIC :: "u8 list" where "ref_SLOT_MAGIC = map of_nat (ascii ''SLOT'')"
definition ref_VERSION :: int where [layout_defs]: "ref_VERSION = 1"
definition ref_GLOBAL_HEADER_SIZE :: int where [layout_defs]: "ref_GLOBAL_HEADER_SIZE = 4096"
definition ref_SLOT_HEADER_SIZE :: int where [layout_defs]: "ref_SLOT_HEADER_SIZE = 128"
definition ref_MAX_NDIM :: nat where [layout_defs]: "ref_MAX_NDIM = 8"
definition ref_STATE_FREE :: int where [layout_defs]: "ref_STATE_FREE = 0"
definition ref_STATE_COMMITTED :: int where [layout_defs]: "ref_STATE_COMMITTED = 1"
definition ref_STATE_WRITING :: int where [layout_defs]: "ref_STATE_WRITING = 2"

definition ref_G_MAGIC :: int where [layout_defs]: "ref_G_MAGIC = 0"
definition ref_G_VERSION :: int where [layout_defs]: "ref_G_VERSION = 8"
definition ref_G_SLOT_COUNT :: int where [layout_defs]: "ref_G_SLOT_COUNT = 12"
definition ref_G_SLOT_CAPACITY :: int where [layout_defs]: "ref_G_SLOT_CAPACITY = 16"
definition ref_G_NEXT_SEQ :: int where [layout_defs]: "ref_G_NEXT_SEQ = 24"
definition ref_G_CONSUMERS :: int where [layout_defs]: "ref_G_CONSUMERS = 32"
definition ref_G_MAX_CONSUMERS :: int where [layout_defs]: "ref_G_MAX_CONSUMERS = 36"
definition ref_G_PUBLISH_COUNT :: int where [layout_defs]: "ref_G_PUBLISH_COUNT = 40"
definition ref_G_DROP_COUNT :: int where [layout_defs]: "ref_G_DROP_COUNT = 48"

definition ref_S_MAGIC :: int where [layout_defs]: "ref_S_MAGIC = 0"
definition ref_S_STATE :: int where [layout_defs]: "ref_S_STATE = 4"
definition ref_S_SEQUENCE :: int where [layout_defs]: "ref_S_SEQUENCE = 8"
definition ref_S_TIMESTAMP_NS :: int where [layout_defs]: "ref_S_TIMESTAMP_NS = 16"
definition ref_S_NBYTES :: int where [layout_defs]: "ref_S_NBYTES = 24"
definition ref_S_DTYPE :: int where [layout_defs]: "ref_S_DTYPE = 32"
definition ref_S_NDIM :: int where [layout_defs]: "ref_S_NDIM = 33"
definition ref_S_READERS :: int where [layout_defs]: "ref_S_READERS = 34"
definition ref_S_FLAGS :: int where [layout_defs]: "ref_S_FLAGS = 36"
definition ref_S_SHAPE :: int where [layout_defs]: "ref_S_SHAPE = 40"
definition ref_S_STRIDES :: int where [layout_defs]: "ref_S_STRIDES = 72"
definition ref_S_PRODUCER_PID :: int where [layout_defs]: "ref_S_PRODUCER_PID = 104"

definition ref_DTYPE_TO_CODE :: "(string \<times> int) list" where
  "ref_DTYPE_TO_CODE =
     [(''float32'', 1), (''float16'', 2), (''uint8'', 3), (''int8'', 4), (''int16'', 5), (''int32'', 6),
      (''int64'', 7), (''float64'', 8), (''bool'', 9)]"

definition ref_CODE_TO_DTYPE :: "(int \<times> string) list" where
  "ref_CODE_TO_DTYPE = map (\<lambda>(k, v). (v, k)) ref_DTYPE_TO_CODE"

definition ref_align_up :: "int \<Rightarrow> int \<Rightarrow> int" where
  "ref_align_up value alignment = (value + alignment - 1) div alignment * alignment"

definition ref_slot_stride :: "int \<Rightarrow> int" where
  "ref_slot_stride slot_capacity = ref_align_up (ref_SLOT_HEADER_SIZE + slot_capacity) 64"

definition ref_total_bytes :: "int \<Rightarrow> int \<Rightarrow> int" where
  "ref_total_bytes slot_count slot_capacity = ref_GLOBAL_HEADER_SIZE + slot_count * ref_slot_stride slot_capacity"

definition ref_slot_base :: "int \<Rightarrow> int \<Rightarrow> int" where
  "ref_slot_base slot_index slot_capacity = ref_GLOBAL_HEADER_SIZE + slot_index * ref_slot_stride slot_capacity"

definition ref_payload_base :: "int \<Rightarrow> int \<Rightarrow> int" where
  "ref_payload_base slot_index slot_capacity = ref_slot_base slot_index slot_capacity + ref_SLOT_HEADER_SIZE"

text \<open>
  \<^verbatim>\<open>struct.unpack_from\<close> and \<^verbatim>\<open>struct.pack_into\<close> of one little-endian unsigned integer, for the offsets
  from 0 on that the code uses: an error outside the buffer, and when the value does not fit.
\<close>

definition ref_unpack :: "nat \<Rightarrow> int \<Rightarrow> int py" where
  "ref_unpack width off b =
     (if 0 \<le> off \<and> off + int width \<le> int (length b)
      then (Inr (horner_sum uint 256 (peek (nat off) width b)), b) else (Inl StructError, b))"

definition ref_le_bytes :: "nat \<Rightarrow> int \<Rightarrow> u8 list" where
  "ref_le_bytes width value = map (\<lambda>k. of_int (value div 256 ^ k)) [0..<width]"

definition ref_pack :: "nat \<Rightarrow> int \<Rightarrow> int \<Rightarrow> unit py" where
  "ref_pack width off value b =
     (if 0 \<le> value \<and> value < 256 ^ width \<and> 0 \<le> off \<and> off + int width \<le> int (length b)
      then (Inr (), poke (nat off) (ref_le_bytes width value) b) else (Inl StructError, b))"

definition ref_read_u32 :: "int \<Rightarrow> int py" where "ref_read_u32 off = ref_unpack 4 off"
definition ref_write_u32 :: "int \<Rightarrow> int \<Rightarrow> unit py" where "ref_write_u32 off value = ref_pack 4 off value"
definition ref_read_u64 :: "int \<Rightarrow> int py" where "ref_read_u64 off = ref_unpack 8 off"
definition ref_write_u64 :: "int \<Rightarrow> int \<Rightarrow> unit py" where "ref_write_u64 off value = ref_pack 8 off value"
definition ref_read_u16 :: "int \<Rightarrow> int py" where "ref_read_u16 off = ref_unpack 2 off"
definition ref_write_u16 :: "int \<Rightarrow> int \<Rightarrow> unit py" where "ref_write_u16 off value = ref_pack 2 off value"

text \<open>
  Eight values at once. \<^verbatim>\<open>pack_into\<close> checks every value before it writes any; a sequence longer than
  \<^verbatim>\<open>MAX_NDIM\<close> is cut.
\<close>

definition ref_write_shape :: "int \<Rightarrow> int list \<Rightarrow> unit py" where
  "ref_write_shape off values b =
     (let padded = take ref_MAX_NDIM values @ replicate (ref_MAX_NDIM - length values) 0
      in if (\<forall>v\<in>set padded. 0 \<le> v \<and> v < 2 ^ 32) \<and> 0 \<le> off \<and> off + 32 \<le> int (length b)
         then (Inr (), poke (nat off) (concat (map (ref_le_bytes 4) padded)) b) else (Inl StructError, b))"

definition ref_read_shape :: "int \<Rightarrow> int \<Rightarrow> int list py" where
  "ref_read_shape off ndim b =
     (if 0 \<le> off \<and> off + 32 \<le> int (length b)
      then (Inr (take (nat ndim) (map (\<lambda>d. horner_sum uint 256 (peek (nat off + d * 4) 4 b)) [0..<ref_MAX_NDIM])), b)
      else (Inl StructError, b))"

text \<open>Indexing and slicing a \<^verbatim>\<open>memoryview\<close>: a slice assignment wants a value of the slice's length.\<close>

definition ref_getitem :: "int \<Rightarrow> int py" where
  "ref_getitem i b = (if 0 \<le> i \<and> i < int (length b) then (Inr (uint (b ! nat i)), b) else (Inl (ValueError ''index''), b))"

definition ref_setitem :: "int \<Rightarrow> int \<Rightarrow> unit py" where
  "ref_setitem i v b =
     (if 0 \<le> i \<and> i < int (length b) \<and> 0 \<le> v \<and> v < 256 then (Inr (), b[nat i := of_int v])
      else (Inl (ValueError ''memoryview''), b))"

definition ref_getslice :: "int \<Rightarrow> int \<Rightarrow> u8 list py" where
  "ref_getslice lo hi b = (Inr (take (nat hi - nat lo) (drop (nat lo) b)), b)"

definition ref_setslice :: "int \<Rightarrow> u8 list \<Rightarrow> unit py" where
  "ref_setslice lo bs b =
     (if nat lo + length bs \<le> length b then (Inr (), poke (nat lo) bs b) else (Inl (ValueError ''memoryview''), b))"


subsection \<open>ring.py: names, creation, attaching\<close>

text \<open>\<^verbatim>\<open>str.strip\<close> takes the characters \<^verbatim>\<open>str.isspace\<close> knows; \<^verbatim>\<open>re.sub\<close> replaces each run of unsafe ones.\<close>

definition ref_isspace :: "rchar \<Rightarrow> bool" where
  "ref_isspace c \<longleftrightarrow>
     (9 \<le> c \<and> c \<le> 13) \<or> (28 \<le> c \<and> c \<le> 32) \<or> c = 0x85 \<or> c = 0xA0 \<or> c = 0x1680 \<or>
     (0x2000 \<le> c \<and> c \<le> 0x200A) \<or> c = 0x2028 \<or> c = 0x2029 \<or> c = 0x202F \<or> c = 0x205F \<or> c = 0x3000"

definition ref_strip :: "rstring \<Rightarrow> rstring" where
  "ref_strip s = rev (dropWhile ref_isspace (rev (dropWhile ref_isspace s)))"

definition ref_word_char :: "rchar \<Rightarrow> bool" where
  "ref_word_char c \<longleftrightarrow>
     (65 \<le> c \<and> c \<le> 90) \<or> (97 \<le> c \<and> c \<le> 122) \<or> (48 \<le> c \<and> c \<le> 57) \<or> c = 95 \<or> c = 46 \<or> c = 45"

fun ref_sub_runs :: "bool \<Rightarrow> rstring \<Rightarrow> rstring" where
  "ref_sub_runs in_run [] = []"
| "ref_sub_runs in_run (c # cs) =
     (if ref_word_char c then c # ref_sub_runs False cs
      else if in_run then ref_sub_runs True cs else 95 # ref_sub_runs True cs)"

definition ref_safe_name :: "rstring \<Rightarrow> ref_exn + rstring" where
  "ref_safe_name name =
     (let cleaned = ref_sub_runs False (ref_strip name)
      in if cleaned = [] then Inl (ValueError ''ring name must contain at least one safe character'')
         else Inr (take 64 cleaned))"

record ref_ring =
  pr_slot_count :: int
  pr_slot_capacity :: int

definition ref_check_create :: "rstring \<Rightarrow> int \<Rightarrow> int \<Rightarrow> ref_exn + rstring" where
  "ref_check_create name slot_count slot_capacity =
     (case ref_safe_name name of
        Inl e \<Rightarrow> Inl e
      | Inr name' \<Rightarrow>
          if slot_count < 2 then Inl (ValueError ''slot_count must be >= 2'')
          else if slot_capacity < 64 then Inl (ValueError ''slot_capacity must be >= 64 bytes'')
          else Inr name')"

text \<open>What \<^verbatim>\<open>create\<close> writes into the new segment.\<close>

definition ref_zero :: "unit py" where
  "ref_zero b = (Inr (), replicate (length b) 0)"

definition ref_format_slot :: "int \<Rightarrow> int \<Rightarrow> unit py" where
  "ref_format_slot slot_capacity i =
     (let base = ref_slot_base i slot_capacity
      in ref_seq (ref_setslice (base + ref_S_MAGIC) ref_SLOT_MAGIC)
           (ref_write_u32 (base + ref_S_STATE) ref_STATE_FREE))"

definition ref_format :: "int \<Rightarrow> int \<Rightarrow> unit py" where
  "ref_format slot_count slot_capacity =
     ref_seq ref_zero
     (ref_seq (ref_setslice ref_G_MAGIC ref_MAGIC)
     (ref_seq (ref_write_u32 ref_G_VERSION ref_VERSION)
     (ref_seq (ref_write_u32 ref_G_SLOT_COUNT slot_count)
     (ref_seq (ref_write_u64 ref_G_SLOT_CAPACITY slot_capacity)
     (ref_seq (ref_write_u64 ref_G_NEXT_SEQ 1)
     (ref_seq (ref_write_u32 ref_G_CONSUMERS 0)
     (ref_seq (ref_write_u32 ref_G_MAX_CONSUMERS 64)
     (ref_for (ref_range slot_count) (ref_format_slot slot_capacity)))))))))"

definition ref_validate_header :: "unit py" where
  "ref_validate_header =
     ref_bind (ref_getslice ref_G_MAGIC (ref_G_MAGIC + int (length ref_MAGIC))) (\<lambda>magic.
       if magic \<noteq> ref_MAGIC then ref_raise (RingError ''invalid TenzorBus shared-memory magic'')
       else ref_bind (ref_read_u32 ref_G_VERSION) (\<lambda>version.
         if version \<noteq> ref_VERSION then ref_raise (RingError ''unsupported TenzorBus protocol version'')
         else ref_return ()))"

text \<open>The part of \<^verbatim>\<open>__init__\<close> that reads the mapping.\<close>

definition ref_init :: "ref_ring py" where
  "ref_init =
     ref_seq ref_validate_header
     (ref_bind (ref_read_u32 ref_G_SLOT_COUNT) (\<lambda>n.
      ref_bind (ref_read_u64 ref_G_SLOT_CAPACITY) (\<lambda>c.
      ref_return \<lparr>pr_slot_count = n, pr_slot_capacity = c\<rparr>)))"

record ref_stats =
  ps_slot_count :: int
  ps_slot_capacity :: int
  ps_next_sequence :: int
  ps_consumers :: int
  ps_published :: int
  ps_dropped :: int

definition ref_stats_read :: "ref_stats py" where
  "ref_stats_read =
     ref_bind (ref_read_u32 ref_G_SLOT_COUNT) (\<lambda>n. ref_bind (ref_read_u64 ref_G_SLOT_CAPACITY) (\<lambda>c.
     ref_bind (ref_read_u64 ref_G_NEXT_SEQ) (\<lambda>s. ref_bind (ref_read_u32 ref_G_CONSUMERS) (\<lambda>k.
     ref_bind (ref_read_u64 ref_G_PUBLISH_COUNT) (\<lambda>p. ref_bind (ref_read_u64 ref_G_DROP_COUNT) (\<lambda>d.
     ref_return \<lparr>ps_slot_count = n, ps_slot_capacity = c, ps_next_sequence = s, ps_consumers = k,
                ps_published = p, ps_dropped = d\<rparr>))))))"

subsection \<open>ring.py: publishing\<close>

definition ref_select_step :: "ref_ring \<Rightarrow> int \<Rightarrow> int list \<times> (int \<times> int) list \<Rightarrow> (int list \<times> (int \<times> int) list) py" where
  "ref_select_step R i acc =
     (let base = ref_slot_base i (pr_slot_capacity R)
      in ref_bind (ref_read_u32 (base + ref_S_STATE)) (\<lambda>state.
           if state = ref_STATE_FREE then ref_return (fst acc @ [i], snd acc)
           else if state = ref_STATE_COMMITTED
           then ref_bind (ref_read_u16 (base + ref_S_READERS)) (\<lambda>readers.
                  if readers = 0
                  then ref_bind (ref_read_u64 (base + ref_S_SEQUENCE)) (\<lambda>seq. ref_return (fst acc, snd acc @ [(seq, i)]))
                  else ref_return acc)
           else ref_return acc))"

definition ref_select_slot :: "ref_ring \<Rightarrow> int option py" where
  "ref_select_slot R =
     ref_bind (ref_fold (ref_range (pr_slot_count R)) (ref_select_step R) ([], [])) (\<lambda>(free, reclaimable).
       ref_return
         (if free \<noteq> [] then Some (hd free)
          else if reclaimable \<noteq> [] then Some (snd (hd (sort reclaimable)))
          else None))"

record np_array =
  na_dtype :: string
  na_shape :: "int list"
  na_strides :: "int list"
  na_data :: "u8 list"

record ref_result =
  pp_sequence :: int
  pp_slot_index :: int
  pp_nbytes :: int
  pp_readers :: int

datatype 'a ref_round = Return 'a | Again

text \<open>
  \<^verbatim>\<open>memoryview(arr).cast("B")\<close>: CPython refuses a view of several dimensions, one of them zero.
\<close>

definition ref_cast_bytes :: "np_array \<Rightarrow> u8 list py" where
  "ref_cast_bytes arr =
     (if length (na_shape arr) \<noteq> 1 \<and> 0 \<in> set (na_shape arr) then ref_raise TypeError else ref_return (na_data arr))"

text \<open>The stores of a publication into a slot, in the order of the source.\<close>

definition ref_write_slot :: "ref_ring \<Rightarrow> int \<Rightarrow> int option \<Rightarrow> int \<Rightarrow> np_array \<Rightarrow> int \<Rightarrow> int \<Rightarrow> int \<Rightarrow> unit py" where
  "ref_write_slot R now ts pid arr slot sequence consumers =
     (let base = ref_slot_base slot (pr_slot_capacity R);
          stamp = (case ts of None \<Rightarrow> now | Some t \<Rightarrow> t)
      in ref_seq (ref_write_u32 (base + ref_S_STATE) ref_STATE_WRITING)
        (ref_seq (ref_write_u64 (base + ref_S_SEQUENCE) sequence)
        (ref_seq (ref_write_u64 (base + ref_S_TIMESTAMP_NS) stamp)
        (ref_seq (ref_write_u64 (base + ref_S_NBYTES) (int (length (na_data arr))))
        (ref_bind (case map_of ref_DTYPE_TO_CODE (na_dtype arr) of None \<Rightarrow> ref_raise KeyError | Some c \<Rightarrow> ref_return c) (\<lambda>code.
         ref_seq (ref_setitem (base + ref_S_DTYPE) code)
        (ref_seq (ref_setitem (base + ref_S_NDIM) (int (length (na_shape arr))))
        (ref_seq (ref_write_u16 (base + ref_S_READERS) consumers)
        (ref_seq (ref_write_u32 (base + ref_S_FLAGS) 0)
        (ref_seq (ref_write_shape (base + ref_S_SHAPE) (na_shape arr))
        (ref_seq (ref_write_shape (base + ref_S_STRIDES) (na_strides arr))
        (ref_seq (ref_write_u32 (base + ref_S_PRODUCER_PID) pid)
        (ref_bind (ref_cast_bytes arr) (\<lambda>bytes.
         ref_seq (ref_setslice (ref_payload_base slot (pr_slot_capacity R)) bytes)
                (ref_write_u32 (base + ref_S_STATE) ref_STATE_COMMITTED)))))))))))))))"

definition ref_publish_attempt ::
  "ref_ring \<Rightarrow> int \<Rightarrow> int option \<Rightarrow> int \<Rightarrow> np_array \<Rightarrow> string \<Rightarrow> ref_result option ref_round py" where
  "ref_publish_attempt R now ts pid arr policy =
     ref_bind (ref_select_slot R) (\<lambda>selected.
       case selected of
         Some slot \<Rightarrow>
           ref_bind (ref_read_u64 ref_G_NEXT_SEQ) (\<lambda>sequence.
           ref_bind (ref_read_u32 ref_G_CONSUMERS) (\<lambda>consumers.
           ref_seq (ref_write_slot R now ts pid arr slot sequence consumers)
          (ref_seq (ref_write_u64 ref_G_NEXT_SEQ (sequence + 1))
          (ref_bind (ref_read_u64 ref_G_PUBLISH_COUNT) (\<lambda>n.
           ref_seq (ref_write_u64 ref_G_PUBLISH_COUNT (n + 1))
             (ref_return (Return (Some \<lparr>pp_sequence = sequence, pp_slot_index = slot,
                pp_nbytes = int (length (na_data arr)), pp_readers = consumers\<rparr>))))))))
       | None \<Rightarrow>
           if policy = ''drop_newest''
           then ref_bind (ref_read_u64 ref_G_DROP_COUNT) (\<lambda>n.
                ref_seq (ref_write_u64 ref_G_DROP_COUNT (n + 1)) (ref_return (Return None)))
           else if policy \<noteq> ''block''
           then ref_raise (ValueError (''policy must be '' @ [CHR 0x27] @ ''block'' @ [CHR 0x27] @ '' or '' @
                                      [CHR 0x27] @ ''drop_newest'' @ [CHR 0x27]))
           else ref_return Again)"

text \<open>
  The clock and the others between the attempts: \<open>pc_expired k\<close> is the deadline test after attempt
  \<open>k\<close>, \<open>pc_other k\<close> what happens to the bytes while the caller sleeps.
\<close>

record ref_clock =
  pc_now_ns :: "nat \<Rightarrow> int"
  pc_expired :: "nat \<Rightarrow> bool"
  pc_other :: "nat \<Rightarrow> image \<Rightarrow> image"

partial_function (option) ref_publish_loop ::
  "ref_ring \<Rightarrow> ref_clock \<Rightarrow> int option \<Rightarrow> int \<Rightarrow> np_array \<Rightarrow> string \<Rightarrow> nat \<Rightarrow> image \<Rightarrow> ((ref_exn + ref_result option) \<times> image) option" where
  "ref_publish_loop R T ts pid arr policy k b =
     (case ref_publish_attempt R (pc_now_ns T k) ts pid arr policy b of
        (Inl e, b') \<Rightarrow> Some (Inl e, b')
      | (Inr (Return x), b') \<Rightarrow> Some (Inr x, b')
      | (Inr Again, b') \<Rightarrow>
          if pc_expired T k then Some (Inl (RingFull ''no reclaimable slot before timeout''), b')
          else ref_publish_loop R T ts pid arr policy (k + 1) (pc_other T k b'))"

definition ref_publish ::
  "(np_array \<Rightarrow> np_array) \<Rightarrow> ref_ring \<Rightarrow> ref_clock \<Rightarrow> int option \<Rightarrow> int \<Rightarrow> np_array \<Rightarrow> string \<Rightarrow> image \<Rightarrow>
   ((ref_exn + ref_result option) \<times> image) option" where
  "ref_publish contiguous R T ts pid arr0 policy b =
     (if length (na_shape arr0) > ref_MAX_NDIM
      then Some (Inl (ValueError (''ndim '' @ dec (length (na_shape arr0)) @ '' exceeds protocol max '' @ dec ref_MAX_NDIM)), b)
      else if map_of ref_DTYPE_TO_CODE (na_dtype arr0) = None
      then Some (Inl (ValueError (''unsupported dtype '' @ na_dtype arr0)), b)
      else
        (let arr = contiguous arr0
         in if int (length (na_data arr)) > pr_slot_capacity R
            then Some (Inl (ValueError (''tensor requires '' @ dec (length (na_data arr)) @
                   '' bytes; slot capacity is '' @ dec (nat (pr_slot_capacity R)))), b)
            else ref_publish_loop R T ts pid arr policy 0 b))"

subsection \<open>ring.py: consuming\<close>

definition ref_consumer_init :: "int py" where
  "ref_consumer_init =
     ref_bind (ref_read_u32 ref_G_CONSUMERS) (\<lambda>n. ref_bind (ref_read_u32 ref_G_MAX_CONSUMERS) (\<lambda>max_count.
       if n \<ge> max_count then ref_raise (RingError ''maximum consumer count reached'')
       else ref_seq (ref_write_u32 ref_G_CONSUMERS (n + 1))
              (ref_bind (ref_read_u64 ref_G_NEXT_SEQ) (\<lambda>s. ref_return (s - 1)))))"

record ref_meta =
  pm_sequence :: int
  pm_timestamp_ns :: int
  pm_nbytes :: int
  pm_dtype :: string
  pm_shape :: "int list"
  pm_strides :: "int list"
  pm_slot_index :: int
  pm_readers_remaining :: int

definition ref_candidate_step :: "ref_ring \<Rightarrow> int \<Rightarrow> int \<Rightarrow> (int \<times> int) list \<Rightarrow> (int \<times> int) list py" where
  "ref_candidate_step R last_sequence i candidates =
     (let base = ref_slot_base i (pr_slot_capacity R)
      in ref_bind (ref_read_u32 (base + ref_S_STATE)) (\<lambda>state.
           if state \<noteq> ref_STATE_COMMITTED then ref_return candidates
           else ref_bind (ref_read_u64 (base + ref_S_SEQUENCE)) (\<lambda>seq.
             ref_return (if seq > last_sequence then candidates @ [(seq, i)] else candidates))))"

definition ref_read_meta :: "ref_ring \<Rightarrow> int \<Rightarrow> int \<Rightarrow> int \<Rightarrow> int \<Rightarrow> int \<Rightarrow> int \<Rightarrow> ref_meta py" where
  "ref_read_meta R seq i ndim code nbytes readers =
     (let base = ref_slot_base i (pr_slot_capacity R)
      in ref_bind (ref_read_u64 (base + ref_S_TIMESTAMP_NS)) (\<lambda>ts.
         ref_bind (case map_of ref_CODE_TO_DTYPE code of None \<Rightarrow> ref_raise KeyError | Some d \<Rightarrow> ref_return d) (\<lambda>dtype.
         ref_bind (ref_read_shape (base + ref_S_SHAPE) ndim) (\<lambda>shape.
         ref_bind (ref_read_shape (base + ref_S_STRIDES) ndim) (\<lambda>strides.
         ref_return \<lparr>pm_sequence = seq, pm_timestamp_ns = ts, pm_nbytes = nbytes, pm_dtype = dtype,
           pm_shape = shape, pm_strides = strides, pm_slot_index = i, pm_readers_remaining = readers\<rparr>)))))"

datatype ref_taken = Taken ref_meta "u8 list" | Skipped int | Nothing

text \<open>What a round of \<^verbatim>\<open>next\<close> does with the oldest candidate.\<close>

definition ref_take :: "ref_ring \<Rightarrow> int \<Rightarrow> int \<Rightarrow> ref_taken py" where
  "ref_take R seq i =
     (let base = ref_slot_base i (pr_slot_capacity R)
      in ref_bind (ref_getitem (base + ref_S_NDIM)) (\<lambda>ndim.
         ref_bind (ref_getitem (base + ref_S_DTYPE)) (\<lambda>code.
         ref_bind (ref_read_u64 (base + ref_S_NBYTES)) (\<lambda>nbytes.
         ref_bind (ref_read_u16 (base + ref_S_READERS)) (\<lambda>readers.
           if readers = 0 then ref_return (Skipped seq)
           else ref_bind (ref_read_meta R seq i ndim code nbytes readers) (\<lambda>meta.
                (let payload = ref_payload_base i (pr_slot_capacity R)
                 in ref_bind (ref_getslice payload (payload + nbytes)) (\<lambda>view. ref_return (Taken meta view)))))))))"

definition ref_next_attempt :: "ref_ring \<Rightarrow> int \<Rightarrow> ref_taken py" where
  "ref_next_attempt R last_sequence =
     ref_bind (ref_fold (ref_range (pr_slot_count R)) (ref_candidate_step R last_sequence) []) (\<lambda>candidates.
       case candidates of
         [] \<Rightarrow> ref_return Nothing
       | c # cs \<Rightarrow> (case fold min cs c of (seq, i) \<Rightarrow> ref_take R seq i))"

partial_function (option) ref_next_loop ::
  "ref_ring \<Rightarrow> ref_clock \<Rightarrow> int \<Rightarrow> nat \<Rightarrow> image \<Rightarrow> ((ref_exn + ref_meta \<times> u8 list) \<times> int \<times> image) option" where
  "ref_next_loop R T last_sequence k b =
     (case ref_next_attempt R last_sequence b of
        (Inl e, b') \<Rightarrow> Some (Inl e, last_sequence, b')
      | (Inr (Taken meta view), b') \<Rightarrow> Some (Inr (meta, view), pm_sequence meta, b')
      | (Inr (Skipped seq), b') \<Rightarrow> ref_next_loop R T seq k b'
      | (Inr Nothing, b') \<Rightarrow>
          if pc_expired T k then Some (Inl (RingTimeout ''no tensor published before timeout''), last_sequence, b')
          else ref_next_loop R T last_sequence (k + 1) (pc_other T k b'))"

definition ref_consumer_release :: "ref_ring \<Rightarrow> ref_meta \<Rightarrow> unit py" where
  "ref_consumer_release R meta =
     (let base = ref_slot_base (pm_slot_index meta) (pr_slot_capacity R)
      in ref_bind (ref_read_u64 (base + ref_S_SEQUENCE)) (\<lambda>seq.
           if seq \<noteq> pm_sequence meta then ref_raise (RingError ''slot was overwritten before consumer released it'')
           else ref_bind (ref_read_u16 (base + ref_S_READERS)) (\<lambda>readers.
             if readers = 0 then ref_raise (RingError ''lease released more than once'')
             else ref_write_u16 (base + ref_S_READERS) (readers - 1))))"

definition ref_consumer_close :: "bool \<Rightarrow> bool py" where
  "ref_consumer_close was_closed =
     (if was_closed then ref_return True
      else ref_bind (ref_read_u32 ref_G_CONSUMERS) (\<lambda>n.
             ref_seq (ref_write_u32 ref_G_CONSUMERS (max 0 (n - 1))) (ref_return True)))"

text \<open>
  A lease: the views it handed out, a weak reference each, or none when the object takes no weak
  reference. \<open>alive\<close> says which objects are still reachable.
\<close>

record ref_borrow =
  pb_meta :: ref_meta
  pb_released :: bool
  pb_borrowed :: "nat option list"

definition ref_track :: "nat \<Rightarrow> bool \<Rightarrow> ref_borrow \<Rightarrow> ref_borrow" where
  "ref_track view weakrefable l = l\<lparr>pb_borrowed := pb_borrowed l @ [if weakrefable then Some view else None]\<rparr>"

definition ref_borrowed_views :: "(nat \<Rightarrow> bool) \<Rightarrow> ref_borrow \<Rightarrow> nat" where
  "ref_borrowed_views alive l = length (filter (\<lambda>r. case r of Some v \<Rightarrow> alive v | None \<Rightarrow> True) (pb_borrowed l))"

definition ref_lease_release :: "(nat \<Rightarrow> bool) \<Rightarrow> ref_ring \<Rightarrow> ref_borrow \<Rightarrow> image \<Rightarrow> (ref_exn + unit) \<times> ref_borrow \<times> image" where
  "ref_lease_release alive R l b =
     (if pb_released l then (Inr (), l, b)
      else if ref_borrowed_views alive l \<noteq> 0 then (Inl LeaseStillBorrowed, l, b)
      else (case ref_consumer_release R (pb_meta l) b of (res, b') \<Rightarrow> (res, l\<lparr>pb_released := True\<rparr>, b')))"

end
