(* ===== verification/ReferenceSpec.thy ===== *)
theory ReferenceSpec
  imports Reference
begin

text \<open>
  The Python reference on the bytes of the Rust ring: its integers and fields in memory, the names it
  accepts and the ring it creates.
\<close>

unbundle bit_operations_syntax

subsection \<open>Integers in memory\<close>

lemma ref_le_bytes_word:
  assumes "LENGTH('a::len) = 8 * width"
  shows "ref_le_bytes width v = word_bytes (of_int v :: 'a word)"
proof (rule nth_equalityI)
  fix i assume "i < length (ref_le_bytes width v)"
  then have i: "i < width" by (simp add: ref_le_bytes_def)
  have "v div 256 ^ i = drop_bit (8 * i) v"
    by (simp add: drop_bit_eq_div power_mult)
  then have "(of_int (v div 256 ^ i) :: u8) = ucast (drop_bit (8 * i) (of_int v :: 'a word))"
    using i assms by (intro bit_word_eqI) (auto simp: bit_simps)
  then show "ref_le_bytes width v ! i = word_bytes (of_int v :: 'a word) ! i"
    using i assms by (simp add: ref_le_bytes_def word_bytes_def)
qed (use assms in \<open>simp add: ref_le_bytes_def\<close>)

lemma horner_bound: "0 \<le> horner_sum uint 256 (bs :: u8 list) \<and> horner_sum uint 256 bs < 256 ^ length bs"
proof (induction bs)
  case (Cons b bs)
  have "uint b < 256" using uint_lt2p [of b] by simp
  with Cons show ?case by auto
qed simp

lemma ref_unpack_word:
  assumes "8 * length bs \<le> LENGTH('a::len)"
  shows "uint (word_of_bytes bs :: 'a word) = horner_sum uint 256 bs"
  using assms
proof (induction bs)
  case Nil
  then show ?case by (simp add: word_of_bytes_def)
next
  case (Cons b bs)
  let ?w = "word_of_bytes bs :: 'a word"
  have IH: "uint ?w = horner_sum uint 256 bs" using Cons by simp
  have "horner_sum uint 256 (b # bs) < 256 ^ length (b # bs)" using horner_bound by blast
  also have "(256 :: int) ^ length (b # bs) \<le> 2 ^ LENGTH('a)"
  proof -
    have "(256 :: int) ^ length (b # bs) = 2 ^ (8 * length (b # bs))" by (simp only: power_mult) simp
    also have "\<dots> \<le> 2 ^ LENGTH('a)" using Cons.prems by (intro power_increasing) auto
    finally show ?thesis .
  qed
  finally have lt: "uint b + 256 * uint ?w < 2 ^ LENGTH('a)" using IH by simp
  have "(word_of_bytes (b # bs) :: 'a word) = ucast b OR push_bit 8 ?w"
    by (simp add: word_of_bytes_def)
  also have "\<dots> = ucast b + push_bit 8 ?w"
    by (rule disjunctive_add [symmetric]) (auto simp: bit_simps dest: bit_imp_le_length)
  also have "\<dots> = of_int (uint b + 256 * uint ?w)"
    by (simp add: push_bit_eq_mult)
  finally have "uint (word_of_bytes (b # bs) :: 'a word) = take_bit LENGTH('a) (uint b + 256 * uint ?w)"
    by (simp only: uint_word_of_int_eq)
  also have "\<dots> = uint b + 256 * uint ?w"
    using lt by (intro take_bit_int_eq_self) simp_all
  finally have "uint (word_of_bytes (b # bs) :: 'a word) = uint b + 256 * uint ?w" .
  with IH show ?case by simp
qed


subsection \<open>Reads and writes of fields\<close>

definition ref_of :: "inner \<Rightarrow> ref_ring" where
  "ref_of h = \<lparr>pr_slot_count = uint (i_slot_count h), pr_slot_capacity = uint (i_slot_capacity h)\<rparr>"

lemma ref_of_sel [simp]:
  "pr_slot_count (ref_of h) = uint (i_slot_count h)" "pr_slot_capacity (ref_of h) = uint (i_slot_capacity h)"
  by (simp_all add: ref_of_def)

lemma ref_slot_stride_nat: "ref_slot_stride (uint c) = int (stride_nat (unat c))"
proof -
  have "ref_slot_stride (uint c) = (int (unat c) + 191) div 64 * 64"
    by (simp add: ref_slot_stride_def ref_align_up_def ref_SLOT_HEADER_SIZE_def algebra_simps)
  also have "\<dots> = int ((unat c + 191) div 64 * 64)" by (simp add: zdiv_int)
  finally show ?thesis by (simp add: stride_nat_def)
qed

lemma ref_slot_base_pos: "ref_slot_base (int s) (uint (i_slot_capacity h)) = int (slot_pos h s)"
  by (simp add: ref_slot_base_def ref_slot_stride_nat ref_GLOBAL_HEADER_SIZE_def slot_pos_def)

lemma ref_payload_base_pos: "ref_payload_base (int s) (uint (i_slot_capacity h)) = int (slot_pos h s) + 128"
  by (simp add: ref_payload_base_def ref_slot_base_pos ref_SLOT_HEADER_SIZE_def)

lemma field_peek: "image_ok h m \<Longrightarrow> field_valid h f \<Longrightarrow> field_bytes h f m = peek (field_pos h f) (field_width f) m"
  by (simp add: field_bytes_def unat_field_off image_ok_def)

lemma field_end: "image_ok h m \<Longrightarrow> field_valid h f \<Longrightarrow> field_pos h f + field_width f \<le> length m"
  using field_in_image [of h m f] by (simp add: unat_field_off image_ok_def)

lemma ref_read_field:
  assumes "image_ok h m" "field_valid h f" "off = int (field_pos h f)"
  shows "field_width f = 2 \<Longrightarrow> ref_read_u16 off m = (Inr (uint (word_of_bytes (field_bytes h f m) :: u16)), m)"
    and "field_width f = 4 \<Longrightarrow> ref_read_u32 off m = (Inr (uint (word_of_bytes (field_bytes h f m) :: u32)), m)"
    and "field_width f = 8 \<Longrightarrow> ref_read_u64 off m = (Inr (uint (word_of_bytes (field_bytes h f m) :: u64)), m)"
  using field_end [OF assms(1,2)] assms(3) field_peek [OF assms(1,2)]
  by (simp_all add: ref_read_u16_def ref_read_u32_def ref_read_u64_def ref_unpack_def ref_unpack_word length_peek)

lemma put_poke: "image_ok h m \<Longrightarrow> field_valid h f \<Longrightarrow> put h f bs m = poke (field_pos h f) bs m"
  by (simp add: put_def unat_field_off image_ok_def)

lemma ref_write_field:
  assumes "image_ok h m" "field_valid h f" "off = int (field_pos h f)" "0 \<le> v"
  shows "field_width f = 2 \<Longrightarrow> v < 2 ^ 16 \<Longrightarrow> ref_write_u16 off v m = (Inr (), put h f (word_bytes (of_int v :: u16)) m)"
    and "field_width f = 4 \<Longrightarrow> v < 2 ^ 32 \<Longrightarrow> ref_write_u32 off v m = (Inr (), put h f (word_bytes (of_int v :: u32)) m)"
    and "field_width f = 8 \<Longrightarrow> v < 2 ^ 64 \<Longrightarrow> ref_write_u64 off v m = (Inr (), put h f (word_bytes (of_int v :: u64)) m)"
  using field_end [OF assms(1,2)] assms(3,4) put_poke [OF assms(1,2)]
  by (simp_all add: ref_write_u16_def ref_write_u32_def ref_write_u64_def ref_pack_def
      ref_le_bytes_word [where 'a = 16] ref_le_bytes_word [where 'a = 32] ref_le_bytes_word [where 'a = 64])

text \<open>The fields of slot \<open>s\<close> and the coordination words, as the reference addresses them.\<close>

lemma slot_reads:
  assumes "image_ok h m" "s < unat (i_slot_count h)"
  shows "ref_read_u32 (int (slot_pos h s) + 4) m = (Inr (uint (s_state (slots (image_ring h m) ! s))), m)"
    "ref_read_u64 (int (slot_pos h s) + 8) m = (Inr (uint (s_sequence (slots (image_ring h m) ! s))), m)"
    "ref_read_u64 (int (slot_pos h s) + 16) m = (Inr (uint (s_timestamp_ns (slots (image_ring h m) ! s))), m)"
    "ref_read_u64 (int (slot_pos h s) + 24) m = (Inr (uint (s_nbytes (slots (image_ring h m) ! s))), m)"
    "ref_read_u16 (int (slot_pos h s) + 34) m = (Inr (uint (s_readers_remaining (slots (image_ring h m) ! s))), m)"
  using assms ref_read_field [OF assms(1), of "SState s"] ref_read_field [OF assms(1), of "SSequence s"]
    ref_read_field [OF assms(1), of "STimestamp s"] ref_read_field [OF assms(1), of "SNbytes s"]
    ref_read_field [OF assms(1), of "SReaders s"]
  by (simp_all add: image_ring_def image_slot_def)

lemma header_reads:
  assumes "image_ok h m"
  shows "ref_read_u32 8 m = (Inr (uint (g_version (image_ring h m))), m)"
    "ref_read_u32 12 m = (Inr (uint (g_slot_count (image_ring h m))), m)"
    "ref_read_u64 16 m = (Inr (uint (g_slot_capacity (image_ring h m))), m)"
    "ref_read_u64 24 m = (Inr (uint (g_next_seq (image_ring h m))), m)"
    "ref_read_u32 32 m = (Inr (uint (g_consumers (image_ring h m))), m)"
    "ref_read_u32 36 m = (Inr (uint (g_max_consumers (image_ring h m))), m)"
    "ref_read_u64 40 m = (Inr (uint (g_publish_count (image_ring h m))), m)"
    "ref_read_u64 48 m = (Inr (uint (g_drop_count (image_ring h m))), m)"
  using ref_read_field [OF assms, of GVersion] ref_read_field [OF assms, of GSlotCount]
    ref_read_field [OF assms, of GSlotCapacity] ref_read_field [OF assms, of GNextSeq]
    ref_read_field [OF assms, of GConsumers] ref_read_field [OF assms, of GMaxConsumers]
    ref_read_field [OF assms, of GPublishCount] ref_read_field [OF assms, of GDropCount]
  by (simp_all add: image_ring_def layout_defs)

lemma slot_writes:
  assumes "image_ok h m" "s < unat (i_slot_count h)" "0 \<le> v"
  shows "v < 2 ^ 32 \<Longrightarrow> ref_write_u32 (int (slot_pos h s) + 4) v m = (Inr (), put h (SState s) (word_bytes (of_int v :: u32)) m)"
    "v < 2 ^ 64 \<Longrightarrow> ref_write_u64 (int (slot_pos h s) + 8) v m = (Inr (), put h (SSequence s) (word_bytes (of_int v :: u64)) m)"
    "v < 2 ^ 64 \<Longrightarrow> ref_write_u64 (int (slot_pos h s) + 16) v m = (Inr (), put h (STimestamp s) (word_bytes (of_int v :: u64)) m)"
    "v < 2 ^ 64 \<Longrightarrow> ref_write_u64 (int (slot_pos h s) + 24) v m = (Inr (), put h (SNbytes s) (word_bytes (of_int v :: u64)) m)"
    "v < 2 ^ 16 \<Longrightarrow> ref_write_u16 (int (slot_pos h s) + 34) v m = (Inr (), put h (SReaders s) (word_bytes (of_int v :: u16)) m)"
    "v < 2 ^ 32 \<Longrightarrow> ref_write_u32 (int (slot_pos h s) + 36) v m = (Inr (), put h (SFlags s) (word_bytes (of_int v :: u32)) m)"
    "v < 2 ^ 32 \<Longrightarrow> ref_write_u32 (int (slot_pos h s) + 104) v m = (Inr (), put h (SPid s) (word_bytes (of_int v :: u32)) m)"
  using assms ref_write_field [OF assms(1), of "SState s"] ref_write_field [OF assms(1), of "SSequence s"]
    ref_write_field [OF assms(1), of "STimestamp s"] ref_write_field [OF assms(1), of "SNbytes s"]
    ref_write_field [OF assms(1), of "SReaders s"] ref_write_field [OF assms(1), of "SFlags s"]
    ref_write_field [OF assms(1), of "SPid s"]
  by simp_all

lemma header_writes:
  assumes "image_ok h m" "0 \<le> v"
  shows "v < 2 ^ 32 \<Longrightarrow> ref_write_u32 8 v m = (Inr (), put h GVersion (word_bytes (of_int v :: u32)) m)"
    "v < 2 ^ 32 \<Longrightarrow> ref_write_u32 12 v m = (Inr (), put h GSlotCount (word_bytes (of_int v :: u32)) m)"
    "v < 2 ^ 64 \<Longrightarrow> ref_write_u64 16 v m = (Inr (), put h GSlotCapacity (word_bytes (of_int v :: u64)) m)"
    "v < 2 ^ 64 \<Longrightarrow> ref_write_u64 24 v m = (Inr (), put h GNextSeq (word_bytes (of_int v :: u64)) m)"
    "v < 2 ^ 32 \<Longrightarrow> ref_write_u32 32 v m = (Inr (), put h GConsumers (word_bytes (of_int v :: u32)) m)"
    "v < 2 ^ 32 \<Longrightarrow> ref_write_u32 36 v m = (Inr (), put h GMaxConsumers (word_bytes (of_int v :: u32)) m)"
    "v < 2 ^ 64 \<Longrightarrow> ref_write_u64 40 v m = (Inr (), put h GPublishCount (word_bytes (of_int v :: u64)) m)"
    "v < 2 ^ 64 \<Longrightarrow> ref_write_u64 48 v m = (Inr (), put h GDropCount (word_bytes (of_int v :: u64)) m)"
  using assms ref_write_field [OF assms(1), of GVersion] ref_write_field [OF assms(1), of GSlotCount]
    ref_write_field [OF assms(1), of GSlotCapacity] ref_write_field [OF assms(1), of GNextSeq]
    ref_write_field [OF assms(1), of GConsumers] ref_write_field [OF assms(1), of GMaxConsumers]
    ref_write_field [OF assms(1), of GPublishCount] ref_write_field [OF assms(1), of GDropCount]
  by (simp_all add: layout_defs)

lemma ref_setslice_field:
  "image_ok h m \<Longrightarrow> field_valid h f \<Longrightarrow> off = int (field_pos h f) \<Longrightarrow> length bs = field_width f \<Longrightarrow>
   ref_setslice off bs m = (Inr (), put h f bs m)"
  using field_end [of h m f] by (simp add: ref_setslice_def put_poke)

lemma ref_step [simp]:
  "ref_seq m k b = (case m b of (Inl e, b') \<Rightarrow> (Inl e, b') | (Inr _, b') \<Rightarrow> k b')"
  "ref_bind m' f b = (case m' b of (Inl e, b') \<Rightarrow> (Inl e, b') | (Inr x, b') \<Rightarrow> f x b')"
  "ref_return x b = (Inr x, b)" "ref_raise e b = (Inl e, b)"
  by (auto simp: ref_seq_def ref_bind_def ref_return_def ref_raise_def split: prod.split sum.split)

subsection \<open>A new ring\<close>

lemma ref_magics: "ref_MAGIC = PROTOCOL_MAGIC" "ref_SLOT_MAGIC = SLOT_MAGIC"
  by (simp_all add: ref_MAGIC_def PROTOCOL_MAGIC_def ref_SLOT_MAGIC_def SLOT_MAGIC_def)

lemma ref_format_slot_image:
  assumes "image_ok h m" "i < unat (i_slot_count h)"
  shows "ref_format_slot (uint (i_slot_capacity h)) (int i) m = (Inr (), format_slot_image h i m)"
proof -
  have "ref_setslice (int (slot_pos h i)) SLOT_MAGIC m = (Inr (), put h (SMagic i) SLOT_MAGIC m)"
    using assms by (intro ref_setslice_field) simp_all
  moreover have "image_ok h (put h (SMagic i) SLOT_MAGIC m)" using assms by simp
  ultimately show ?thesis
    using assms slot_writes(1) [of h "put h (SMagic i) SLOT_MAGIC m" i 0]
    by (simp add: ref_format_slot_def ref_slot_base_pos ref_magics ref_S_MAGIC_def ref_S_STATE_def ref_STATE_FREE_def
        format_slot_put STATE_FREE_def Let_def)
qed

lemma ref_for_append: "ref_for (xs @ ys) body b = (case ref_for xs body b of (Inl e, b') \<Rightarrow> (Inl e, b') | (Inr _, b') \<Rightarrow> ref_for ys body b')"
  by (induction xs arbitrary: b) (auto split: prod.split sum.split)

lemma ref_format_slots:
  assumes "image_ok h m" "k \<le> unat (i_slot_count h)"
  shows "ref_for (map int [0..<k]) (ref_format_slot (uint (i_slot_capacity h))) m =
    (Inr (), fold (format_slot_image h) [0..<k] m)"
  using assms(2)
proof (induction k)
  case (Suc k)
  then have "image_ok h (fold (format_slot_image h) [0..<k] m)"
    using format_slots_image_ring [OF assms(1), of k] by simp
  from ref_format_slot_image [OF this, of k] Suc show ?case by (simp add: ref_for_append)
qed simp

lemma ref_format_image:
  assumes "image_ok h m" "unat (i_slot_count h) < 2 ^ 32"
  shows "ref_format (uint (i_slot_count h)) (uint (i_slot_capacity h)) m = (Inr (), format_image h m)"
proof -
  have z: "image_ok h (replicate (length m) 0)" using assms by (simp add: image_ok_def)
  have "int (unat (i_slot_count h)) < int (2 ^ 32)" using assms(2) by (simp only: of_nat_less_iff)
  then have n: "uint (i_slot_count h) < 2 ^ 32" by (simp only: uint_nat of_nat_power of_nat_numeral)
  have c: "uint (i_slot_capacity h) < 2 ^ 64" using uint_lt2p [of "i_slot_capacity h"] by simp
  let ?m0 = "put h GMagic PROTOCOL_MAGIC (replicate (length m) 0)"
  let ?m1 = "put h GVersion (word_bytes (1 :: u32)) ?m0"
  let ?m2 = "put h GSlotCount (word_bytes (ucast (i_slot_count h) :: u32)) ?m1"
  let ?m3 = "put h GSlotCapacity (word_bytes (i_slot_capacity h)) ?m2"
  let ?m4 = "put h GNextSeq (word_bytes (1 :: u64)) ?m3"
  let ?m5 = "put h GConsumers (word_bytes (0 :: u32)) ?m4"
  let ?m6 = "put h GMaxConsumers (word_bytes (64 :: u32)) ?m5"
  have 0: "ref_setslice 0 PROTOCOL_MAGIC (replicate (length m) 0) = (Inr (), ?m0)" "image_ok h ?m0"
    using z ref_setslice_field [OF z, of GMagic 0 PROTOCOL_MAGIC] by (simp_all add: G_MAGIC_def)
  have 1: "ref_write_u32 8 1 ?m0 = (Inr (), ?m1)" "image_ok h ?m1"
    using 0(2) header_writes(1) [OF 0(2), of 1] by simp_all
  have 2: "ref_write_u32 12 (uint (i_slot_count h)) ?m1 = (Inr (), ?m2)" "image_ok h ?m2"
    using 1(2) n header_writes(2) [OF 1(2), of "uint (i_slot_count h)"] by simp_all
  have 3: "ref_write_u64 16 (uint (i_slot_capacity h)) ?m2 = (Inr (), ?m3)" "image_ok h ?m3"
    using 2(2) c header_writes(3) [OF 2(2), of "uint (i_slot_capacity h)"] by simp_all
  have 4: "ref_write_u64 24 1 ?m3 = (Inr (), ?m4)" "image_ok h ?m4"
    using 3(2) header_writes(4) [OF 3(2), of 1] by simp_all
  have 5: "ref_write_u32 32 0 ?m4 = (Inr (), ?m5)" "image_ok h ?m5"
    using 4(2) header_writes(5) [OF 4(2), of 0] by simp_all
  have 6: "ref_write_u32 36 64 ?m5 = (Inr (), ?m6)" "image_ok h ?m6"
    using 5(2) header_writes(6) [OF 5(2), of 64] by simp_all
  have py: "ref_format (uint (i_slot_count h)) (uint (i_slot_capacity h)) m =
      (Inr (), fold (format_slot_image h) [0..<unat (i_slot_count h)] ?m6)"
    using ref_format_slots [OF 6(2), of "unat (i_slot_count h)"]
    by (simp add: ref_format_def ref_zero_def ref_magics ref_range_def ref_G_MAGIC_def ref_G_VERSION_def
        ref_G_SLOT_COUNT_def ref_G_SLOT_CAPACITY_def ref_G_NEXT_SEQ_def ref_G_CONSUMERS_def
        ref_G_MAX_CONSUMERS_def ref_VERSION_def 0(1) 1(1) 2(1) 3(1) 4(1) 5(1) 6(1))
  have "format_image h m = fold (format_slot_image h) [0..<unat (i_slot_count h)] ?m6"
    by (simp only: format_image_def header_puts [where h = h] PROTOCOL_VERSION_def MAX_CONSUMERS_def Let_def
        of_nat_numeral)
  with py show ?thesis by simp
qed

subsection \<open>Names\<close>

lemma ref_word_clean: "ref_word_char c \<longleftrightarrow> is_ascii_alphanumeric c \<or> c = 95 \<or> c = 46 \<or> c = 45"
  by (auto simp: ref_word_char_def is_ascii_alphanumeric_def)

lemma ref_sub_runs_clean:
  "successively (\<lambda>a b. ref_word_char a \<or> ref_word_char b) s \<Longrightarrow>
   (in_run \<longrightarrow> (\<forall>c\<in>set (take 1 s). ref_word_char c)) \<Longrightarrow> ref_sub_runs in_run s = map clean_char s"
proof (induction s arbitrary: in_run)
  case (Cons c cs)
  then show ?case
    by (cases cs) (auto simp: clean_char_def ref_word_clean)
qed simp

lemma ref_isspace_whitespace: "ref_isspace c \<longleftrightarrow> is_whitespace c \<or> (28 \<le> c \<and> c \<le> 31)"
proof -
  have "28 \<le> c \<and> c \<le> 32 \<longleftrightarrow> c = 32 \<or> (28 \<le> c \<and> c \<le> 31)"
    by (auto simp: word_le_nat_alt word_unat_eq_iff)
  then show ?thesis by (auto simp: ref_isspace_def is_whitespace_def)
qed

lemma dropWhile_agree: "(\<And>x. x \<in> set xs \<Longrightarrow> P x = Q x) \<Longrightarrow> dropWhile P xs = dropWhile Q xs"
  by (induction xs) auto

lemma ref_strip_trim:
  assumes "\<forall>c\<in>set s. \<not> (28 \<le> c \<and> c \<le> 31)"
  shows "ref_strip s = trim s"
proof -
  have d: "dropWhile ref_isspace xs = dropWhile is_whitespace xs" if "set xs \<subseteq> set s" for xs
    using that assms by (intro dropWhile_agree) (auto simp: ref_isspace_whitespace)
  have "set (dropWhile is_whitespace s) \<subseteq> set s" by (auto dest: set_dropWhileD)
  then show ?thesis using d [of s] d [of "rev (dropWhile is_whitespace s)"] by (simp add: ref_strip_def trim_def)
qed

lemma successively_dropWhile: "successively P xs \<Longrightarrow> successively P (dropWhile Q xs)"
  by (induction xs) (auto simp: successively_Cons)

lemma successively_trim: "successively P s \<Longrightarrow> successively P (trim s)"
  unfolding trim_def
  by (intro successively_dropWhile | subst successively_rev)+ 
    (simp add: successively_dropWhile)

text \<open>
  The two implementations agree on the name of a ring whose characters are not control
  separators and in which no two unsafe characters stand side by side: both refuse it, or both give the
  same safe form. Outside that they part, although \<^verbatim>\<open>shm.rs\<close> says the names match exactly: a run of
  unsafe characters becomes one underscore in Python and one each in Rust.
\<close>

theorem reference_names:
  assumes "\<forall>c\<in>set name. \<not> (28 \<le> c \<and> c \<le> 31)"
    and "successively (\<lambda>a b. ref_word_char a \<or> ref_word_char b) name"
  shows "(case (ref_safe_name name, safe_name name) of
       (Inr p, Inr r) \<Rightarrow> p = r | (Inl _, Inl _) \<Rightarrow> True | _ \<Rightarrow> False)
    \<and> ref_safe_name (ascii ''a//b'') = Inr (ascii ''a_b'') \<and> safe_name (ascii ''a//b'') = Inr (ascii ''a__b'')"
proof -
  have "ref_sub_runs False (ref_strip name) = map clean_char (trim name)"
    unfolding ref_strip_trim [OF assms(1)] using successively_trim [OF assms(2)] by (rule ref_sub_runs_clean) simp
  moreover have "ref_safe_name (ascii ''a//b'') = Inr (ascii ''a_b'')" "safe_name (ascii ''a//b'') = Inr (ascii ''a__b'')"
    by (simp_all add: ref_safe_name_def safe_name_def ref_strip_def trim_def ascii_def ref_isspace_def is_whitespace_def
        ref_word_char_def clean_char_def is_ascii_alphanumeric_def Let_def)
  ultimately show ?thesis by (simp add: ref_safe_name_def safe_name_def Let_def)
qed

theorem reference_names_witness:
  "ref_safe_name (ascii ''my ring'') = Inr (ascii ''my_ring'') \<and>
   (case safe_name (ascii ''my ring'') of Inr r \<Rightarrow> ascii ''my_ring'' = r | Inl _ \<Rightarrow> False)"
proof -
  have py: "ref_safe_name (ascii ''my ring'') = Inr (ascii ''my_ring'')"
    by (simp add: ref_safe_name_def ref_strip_def ascii_def ref_isspace_def ref_word_char_def Let_def)
  have "\<forall>c\<in>set (ascii ''my ring''). \<not> (28 \<le> c \<and> c \<le> 31)"
    "successively (\<lambda>a b. ref_word_char a \<or> ref_word_char b) (ascii ''my ring'')"
    by (simp_all add: ascii_def ref_word_char_def)
  from reference_names [OF this] py show ?thesis by (auto split: sum.splits)
qed

subsection \<open>A new ring\<close>

lemma ref_total_bytes_fits:
  assumes "ring_fits n c"
  shows "ref_total_bytes (uint n) (uint c) = uint (total_bytes n c)"
    and "i < n \<Longrightarrow> ref_slot_base (uint i) (uint c) = uint (slot_base i c)"
    and "i < n \<Longrightarrow> ref_payload_base (uint i) (uint c) = uint (payload_base i c)"
proof -
  have base: "ref_slot_base (uint i) (uint c) = uint (slot_base i c)" if "unat i \<le> unat n" for i
    unfolding ref_slot_base_def ref_slot_stride_nat ref_GLOBAL_HEADER_SIZE_def
    unfolding uint_nat unat_slot_base [OF assms that] GLOBAL_HEADER_SIZE_def
    by simp
  show "ref_total_bytes (uint n) (uint c) = uint (total_bytes n c)"
    using base [of n] by (simp add: total_bytes_slot_base ref_total_bytes_def ref_slot_base_def)
  assume i: "i < n"
  then have "unat i \<le> unat n" by (simp add: word_less_nat_alt)
  from base [OF this] show b: "ref_slot_base (uint i) (uint c) = uint (slot_base i c)" .
  have "Suc (unat i) * stride_nat (unat c) \<le> unat n * stride_nat (unat c)"
    using i by (intro mult_le_mono1) (simp add: word_less_nat_alt)
  then have "unat (slot_base i c) + 128 < 2 ^ 64"
    using assms stride_nat_ge [of "unat c"] unat_slot_base [OF assms \<open>unat i \<le> unat n\<close>]
    unfolding ring_fits_def by simp
  then have "unat (payload_base i c) = unat (slot_base i c) + 128"
    by (simp add: payload_base_def SLOT_HEADER_SIZE_def unat_word_ariths)
  then show "ref_payload_base (uint i) (uint c) = uint (payload_base i c)"
    unfolding ref_payload_base_def b ref_SLOT_HEADER_SIZE_def unfolding uint_nat by simp
qed


lemma ref_init_image:
  assumes "image_ok h m" "g_magic (image_ring h m) = PROTOCOL_MAGIC" "g_version (image_ring h m) = PROTOCOL_VERSION"
  shows "ref_init m = (Inr \<lparr>pr_slot_count = uint (g_slot_count (image_ring h m)),
    pr_slot_capacity = uint (g_slot_capacity (image_ring h m))\<rparr>, m)"
proof -
  have "peek 0 8 m = PROTOCOL_MAGIC"
    using header_loads(1) [of m h] assms(2) by (simp add: G_MAGIC_def)
  then have "ref_getslice 0 8 m = (Inr PROTOCOL_MAGIC, m)"
    by (simp add: ref_getslice_def peek_def)
  then have "ref_validate_header m = (Inr (), m)"
    using assms(3) header_reads(1) [OF assms(1)]
    by (simp add: ref_validate_header_def ref_magics ref_G_MAGIC_def ref_G_VERSION_def ref_VERSION_def PROTOCOL_VERSION_def)
  then show ?thesis
    using header_reads(2,3) [OF assms(1)]
    by (simp add: ref_init_def ref_G_SLOT_COUNT_def ref_G_SLOT_CAPACITY_def)
qed

text \<open>
  Claim C35. Both implementations make the same ring: they agree on the size of the mapping and on the
  address of every slot and payload, the reference's \<^verbatim>\<open>create\<close> leaves byte for byte the image that
  \<^verbatim>\<open>format\<close> leaves, and each attaches to it: the reference and Rust read back the count and capacity of
  the creator, when the slot count fits 32 bits.
\<close>

theorem reference_creates_same_bytes:
  assumes "image_ok h m" and "ring_layout_new (i_slot_count h) (i_slot_capacity h) = Inr layout"
    and "unat (i_slot_count h) < 2 ^ 32"
  shows "ref_total_bytes (uint (i_slot_count h)) (uint (i_slot_capacity h)) = uint (total_bytes (i_slot_count h) (i_slot_capacity h))
    \<and> (\<forall>i<i_slot_count h.
         ref_slot_base (uint i) (uint (i_slot_capacity h)) = uint (slot_base i (i_slot_capacity h)) \<and>
         ref_payload_base (uint i) (uint (i_slot_capacity h)) = uint (payload_base i (i_slot_capacity h)))
    \<and> ref_format (uint (i_slot_count h)) (uint (i_slot_capacity h)) m = (Inr (), format_image h m)
    \<and> ref_init (format_image h m) = (Inr (ref_of h), format_image h m)
    \<and> attach_image (format_image h m) (total_bytes (i_slot_count h) (i_slot_capacity h)) =
        Inr (i_slot_count h, i_slot_capacity h, i_slot_stride h)"
proof -
  have "ring_fits (i_slot_count h) (i_slot_capacity h)" using assms(1) by (simp add: image_ok_def geometry_ok_def)
  note layout = ref_total_bytes_fits [OF this]
  have attach: "attach_image (format_image h m) (total_bytes (i_slot_count h) (i_slot_capacity h)) =
      Inr (i_slot_count h, i_slot_capacity h, i_slot_stride h)"
    using created_image_attaches [OF assms order.refl] by simp
  let ?r = "image_ring h (format_image h m)"
  have hdr: "g_magic ?r = PROTOCOL_MAGIC" "g_version ?r = PROTOCOL_VERSION"
    "ucast (g_slot_count ?r) = i_slot_count h" "g_slot_capacity ?r = i_slot_capacity h"
    using attach by (auto simp: attach_image_header [where h = h] attach_header_def Let_def split: if_splits)
  have "uint (ucast (g_slot_count ?r) :: usize) = uint (g_slot_count ?r)" by (simp add: uint_up_ucast is_up)
  then have "uint (g_slot_count ?r) = uint (i_slot_count h)" by (simp only: hdr(3))
  then have "ref_init (format_image h m) = (Inr (ref_of h), format_image h m)"
    using ref_init_image [OF format_refines(1) [OF assms(1)] hdr(1,2)] hdr(4) by (simp add: ref_of_def)
  with layout attach ref_format_image [OF assms(1,3)] show ?thesis by blast
qed

theorem reference_creates_same_bytes_witness:
  "ref_format 2 64 demo_image = (Inr (), format_image demo_inner demo_image) \<and>
   ref_init (format_image demo_inner demo_image) = (Inr \<lparr>pr_slot_count = 2, pr_slot_capacity = 64\<rparr>, format_image demo_inner demo_image)"
proof -
  have "ring_layout_new (i_slot_count demo_inner) (i_slot_capacity demo_inner) = Inr \<lparr>rl_slot_count = 2, rl_slot_capacity = 64\<rparr>"
    by (simp add: demo_inner_def ring_layout_new_def)
  from reference_creates_same_bytes [OF demo_image_ok this] show ?thesis
    by (simp add: demo_geometry ref_of_def)
qed

end
