(* ===== verification/ReferenceRead.thy ===== *)
theory ReferenceRead
  imports ReferenceSpec
begin

text \<open>
  The reference as a consumer: what a round of \<^verbatim>\<open>next\<close> reads from an image, and that it reads a Rust
  publication as it was published.
\<close>

unbundle bit_operations_syntax

subsection \<open>Reading a published slot\<close>

lemma ref_dtype_codes:
  "map_of ref_DTYPE_TO_CODE (numpy_name d) = Some (uint (dtype_code d))"
  "map_of ref_CODE_TO_DTYPE (uint (dtype_code d)) = Some (numpy_name d)"
  by (cases d; simp add: ref_DTYPE_TO_CODE_def ref_CODE_TO_DTYPE_def)+

lemma ref_getitem_field:
  assumes "image_ok h m" "field_valid h f" "field_width f = 1" "off = int (field_pos h f)"
  shows "ref_getitem off m = (Inr (uint (word_of_bytes (field_bytes h f m) :: u8)), m)"
proof -
  have lt: "field_pos h f < length m" using field_end [OF assms(1,2)] assms(3) by simp
  then have "field_bytes h f m = [m ! field_pos h f]"
    using field_peek [OF assms(1,2)] assms(3) by (simp add: peek_def take_Suc_conv_app_nth hd_drop_conv_nth)
  with lt assms(4) show ?thesis by (simp add: ref_getitem_def)
qed

lemma slot_bytes_read:
  assumes "image_ok h m" "s < unat (i_slot_count h)"
  shows "ref_getitem (int (slot_pos h s) + 32) m = (Inr (uint (s_dtype (slots (image_ring h m) ! s))), m)"
    "ref_getitem (int (slot_pos h s) + 33) m = (Inr (uint (s_ndim (slots (image_ring h m) ! s))), m)"
  using assms ref_getitem_field [OF assms(1), of "SDtype s"] ref_getitem_field [OF assms(1), of "SNdim s"]
  by (simp_all add: image_ring_def image_slot_def)

lemma ref_read_dims:
  assumes ok: "image_ok h m" and valid: "\<And>d. d < MAX_NDIM \<Longrightarrow> field_valid h (F d)" and width: "\<And>d. field_width (F d) = 4"
    and pos: "\<And>d. d < MAX_NDIM \<Longrightarrow> field_pos h (F d) = a + d * 4" and off: "off = int a"
  shows "ref_read_shape off n m =
    (Inr (take (nat n) (map (\<lambda>d. uint (word_of_bytes (field_bytes h (F d) m) :: u32)) [0..<MAX_NDIM])), m)"
proof -
  have "a + 32 \<le> length m"
    using field_end [OF ok valid, of 7] pos [of 7] width by (simp add: MAX_NDIM_def)
  moreover have "map (\<lambda>d. horner_sum uint 256 (peek (a + d * 4) 4 m)) [0..<MAX_NDIM] =
      map (\<lambda>d. uint (word_of_bytes (field_bytes h (F d) m) :: u32)) [0..<MAX_NDIM]"
    using field_peek [OF ok valid] pos width
    by (intro map_cong refl) (simp add: ref_unpack_word length_peek)
  moreover have "ref_MAX_NDIM = MAX_NDIM" by (simp add: layout_defs)
  ultimately show ?thesis
    by (simp only: ref_read_shape_def off nat_int split: if_split) simp
qed

lemma slot_dims_read:
  assumes "image_ok h m" "s < unat (i_slot_count h)"
  shows "ref_read_shape (int (slot_pos h s) + 40) n m =
      (Inr (take (nat n) (map uint (s_shape (slots (image_ring h m) ! s)))), m)"
    "ref_read_shape (int (slot_pos h s) + 72) n m =
      (Inr (take (nat n) (map uint (s_strides (slots (image_ring h m) ! s)))), m)"
  using assms ref_read_dims [OF assms(1), of "SShape s" "slot_pos h s + 40" "int (slot_pos h s) + 40" n]
    ref_read_dims [OF assms(1), of "SStride s" "slot_pos h s + 72" "int (slot_pos h s) + 72" n]
  by (simp_all add: image_ring_def image_slot_def comp_def)

lemma payload_read:
  assumes "image_ok h m" "s < unat (i_slot_count h)" "unat nb \<le> payload_len (i_slot_capacity h)"
    "0 < payload_len (i_slot_capacity h)"
  shows "ref_getslice (int (slot_pos h s) + 128) (int (slot_pos h s) + 128 + uint nb) m =
    (Inr (take (unat nb) (payloads (image_ring h m) ! s)), m)"
proof -
  have geo: "geometry_ok h" using assms(1) by (simp add: image_ok_def)
  have base: "unat (payload_off h (of_nat s)) = slot_pos h s + 128"
    using unat_field_off [OF geo, of "SByte s 0"] assms(2,4) by simp
  have pos: "nat (int (slot_pos h s) + 128) = slot_pos h s + 128"
    "nat (int (slot_pos h s) + 128 + uint nb) = slot_pos h s + 128 + unat nb"
  proof -
    have "int (slot_pos h s) + 128 + uint nb = int (slot_pos h s + 128 + unat nb)" by simp
    then show "nat (int (slot_pos h s) + 128 + uint nb) = slot_pos h s + 128 + unat nb" by (simp only: nat_int)
  qed simp
  show ?thesis
    using payload_bytes [OF assms(1-3)] unfolding base ref_getslice_def pos peek_def by simp
qed

text \<open>What a round of \<^verbatim>\<open>next\<close> makes of a header.\<close>

definition ref_meta_of :: "slot_header \<Rightarrow> dtype \<Rightarrow> nat \<Rightarrow> ref_meta" where
  "ref_meta_of sh d s =
     \<lparr>pm_sequence = uint (s_sequence sh), pm_timestamp_ns = uint (s_timestamp_ns sh), pm_nbytes = uint (s_nbytes sh),
      pm_dtype = numpy_name d, pm_shape = take (unat (s_ndim sh)) (map uint (s_shape sh)),
      pm_strides = take (unat (s_ndim sh)) (map uint (s_strides sh)), pm_slot_index = int s,
      pm_readers_remaining = uint (s_readers_remaining sh)\<rparr>"

lemma ref_take_image:
  assumes "image_ok h m" "s < unat (i_slot_count h)" "sh = slots (image_ring h m) ! s"
    "s_dtype sh = dtype_code d" "s_readers_remaining sh \<noteq> 0"
    "unat (s_nbytes sh) \<le> payload_len (i_slot_capacity h)" "0 < payload_len (i_slot_capacity h)"
  shows "ref_take (ref_of h) (uint (s_sequence sh)) (int s) m =
    (Inr (Taken (ref_meta_of sh d s) (take (unat (s_nbytes sh)) (payloads (image_ring h m) ! s))), m)"
proof -
  note r = slot_reads [OF assms(1,2)] slot_bytes_read [OF assms(1,2)] slot_dims_read [OF assms(1,2)]
    payload_read [OF assms(1,2,6,7)]
  have readers: "uint (s_readers_remaining sh) \<noteq> 0" using assms(5) by (simp add: uint_0_iff)
  show ?thesis
    using readers assms(4) r unfolding assms(3)
    by (simp add: ref_take_def ref_read_meta_def ref_slot_base_pos ref_payload_base_pos Let_def ref_dtype_codes
        ref_S_NDIM_def ref_S_DTYPE_def ref_S_NBYTES_def ref_S_READERS_def ref_S_TIMESTAMP_NS_def ref_S_SHAPE_def
        ref_S_STRIDES_def ref_meta_of_def)
qed


subsection \<open>Scans\<close>

lemma ref_fold_reads:
  assumes "\<And>i acc. i < k \<Longrightarrow> body (int i) acc m = (Inr (F i acc), m)"
  shows "ref_fold (map int [0..<k]) body acc m = (Inr (fold F [0..<k] acc), m)"
proof -
  have "ref_fold (map int is) body acc m = (Inr (fold F is acc), m)" if "\<forall>i\<in>set is. i < k" for "is" acc
    using that assms by (induction "is" arbitrary: acc) simp_all
  then show ?thesis by simp
qed

lemma fold_filter_snoc:
  "fold (\<lambda>i acc. if P i then acc @ [f i] else acc) xs acc = acc @ map f (filter P xs)"
  by (induction xs arbitrary: acc) simp_all

definition ref_candidates :: "int \<Rightarrow> ring \<Rightarrow> (int \<times> int) list" where
  "ref_candidates after r =
     map (\<lambda>i. (uint (s_sequence (slots r ! i)), int i))
       (filter (\<lambda>i. s_state (slots r ! i) = STATE_COMMITTED \<and> after < uint (s_sequence (slots r ! i)))
         [0..<length (slots r)])"

lemma uint_state:
  "uint x = ref_STATE_COMMITTED \<longleftrightarrow> x = STATE_COMMITTED" "uint x = ref_STATE_FREE \<longleftrightarrow> x = STATE_FREE"
  "uint x = ref_STATE_WRITING \<longleftrightarrow> x = STATE_WRITING"
  by (auto simp: ref_STATE_COMMITTED_def STATE_COMMITTED_def ref_STATE_FREE_def STATE_FREE_def
      ref_STATE_WRITING_def STATE_WRITING_def word_uint_eq_iff)

lemma ref_range_slots: "ref_range (uint (i_slot_count h)) = map int [0..<unat (i_slot_count h)]"
  by (simp add: ref_range_def)

lemma ref_candidates_image:
  assumes "image_ok h m"
  shows "ref_fold (ref_range (uint (i_slot_count h))) (ref_candidate_step (ref_of h) after) [] m =
    (Inr (ref_candidates after (image_ring h m)), m)"
proof -
  let ?r = "image_ring h m"
  have step: "ref_candidate_step (ref_of h) after (int i) acc m =
      (Inr (if s_state (slots ?r ! i) = STATE_COMMITTED \<and> after < uint (s_sequence (slots ?r ! i))
            then acc @ [(uint (s_sequence (slots ?r ! i)), int i)] else acc), m)"
    if "i < unat (i_slot_count h)" for i acc
    using slot_reads(1,2) [OF assms that]
    by (simp add: ref_candidate_step_def ref_slot_base_pos Let_def ref_S_STATE_def ref_S_SEQUENCE_def uint_state)
  have "ref_fold (map int [0..<unat (i_slot_count h)]) (ref_candidate_step (ref_of h) after) [] m =
      (Inr (fold (\<lambda>i acc. if s_state (slots ?r ! i) = STATE_COMMITTED \<and> after < uint (s_sequence (slots ?r ! i))
            then acc @ [(uint (s_sequence (slots ?r ! i)), int i)] else acc) [0..<unat (i_slot_count h)] []), m)"
    by (rule ref_fold_reads) (rule step)
  then show ?thesis by (simp add: ref_range_slots fold_filter_snoc ref_candidates_def)
qed

lemma fold_min: "fold min cs c = Min (set (c # cs))" for c :: "'a::linorder"
  by (simp only: Min.set_eq_fold)

text \<open>The oldest candidate, by the plain order of the integers.\<close>

lemma ref_next_attempt_oldest:
  assumes ok: "image_ok h m" and s: "s < unat (i_slot_count h)"
    and cand: "s_state (slots (image_ring h m) ! s) = STATE_COMMITTED" "after < uint (s_sequence (slots (image_ring h m) ! s))"
    and oldest: "\<And>j. j < unat (i_slot_count h) \<Longrightarrow> j \<noteq> s \<Longrightarrow> s_state (slots (image_ring h m) ! j) = STATE_COMMITTED \<Longrightarrow>
      after < uint (s_sequence (slots (image_ring h m) ! j)) \<Longrightarrow>
      uint (s_sequence (slots (image_ring h m) ! s)) < uint (s_sequence (slots (image_ring h m) ! j))"
  shows "ref_next_attempt (ref_of h) after m = ref_take (ref_of h) (uint (s_sequence (slots (image_ring h m) ! s))) (int s) m"
proof -
  let ?r = "image_ring h m" let ?c = "(uint (s_sequence (slots ?r ! s)), int s)"
  have mem: "?c \<in> set (ref_candidates after ?r)"
    using s cand by (auto simp: ref_candidates_def)
  then obtain c cs where cs: "ref_candidates after ?r = c # cs" by (cases "ref_candidates after ?r") auto
  have "?c \<le> x" if "x \<in> set (ref_candidates after ?r)" for x
    using that oldest by (cases "snd x = int s") (auto simp: ref_candidates_def)
  then have "fold min cs c = ?c"
    unfolding fold_min cs [symmetric] using mem by (intro Min_eqI) auto
  then show ?thesis
    by (simp add: ref_next_attempt_def ref_candidates_image [OF ok] cs)
qed


subsection \<open>A Rust publication, read by the reference\<close>

lemma publish_other_slots:
  assumes "image_ok h m" "s < unat (i_slot_count h)" "length data \<le> payload_len (i_slot_capacity h)"
    "length (rv_shape v) = MAX_NDIM" "length (rv_strides v) = MAX_NDIM" "j < unat (i_slot_count h)" "j \<noteq> s"
  shows "slots (image_ring h (publish_image h s v data m)) ! j = slots (image_ring h m) ! j"
proof -
  have "length (s_shape (slots (image_ring h m) ! s)) = MAX_NDIM" "length (s_strides (slots (image_ring h m) ! s)) = MAX_NDIM"
    using assms(2) by (simp_all add: image_ring_def image_slot_def)
  note r = publish_image_ring(2) [OF assms(1-3), where v = v,
      unfolded header_stores_slot [OF _ this assms(4,5), unfolded length_image_ring, OF assms(2)]]
  show ?thesis
    unfolding r using assms(2,6,7)
    by (simp add: commit_slot_def signal_publish_def copy_payload_def upd_slot_def Let_def)
qed

lemma payload_len_capacity:
  assumes "0 < c" "ring_fits n c"
  shows "0 < payload_len c"
proof -
  have "0 < unat c" using assms(1) by (simp add: unat_gt_0)
  then have "128 < stride_nat (unat c)" using stride_nat_ge [of "unat c"] by linarith
  with assms(2) show ?thesis
    by (simp add: payload_len_def unat_slot_stride ring_fits_def SLOT_HEADER_SIZE_def)
qed



end
