(* ===== verification/ReferenceWrite.thy ===== *)
theory ReferenceWrite
  imports ReferenceRead
begin

text \<open>
  The reference as a producer: its stores are a program on one slot, what they leave is what Rust reads,
  its choice of a slot is that of the Rust producer, and what a failure or a close leaves behind.
\<close>

unbundle bit_operations_syntax

subsection \<open>The stores of the reference\<close>

lemma poke_append: "p + length xs + length ys \<le> length m \<Longrightarrow> poke p (xs @ ys) m = poke (p + length xs) ys (poke p xs m)"
  by (rule nth_equalityI) (auto simp: nth_poke nth_append)

lemma image_ok_byte_store [simp]:
  "image_ok h m \<Longrightarrow> s < unat (i_slot_count h) \<Longrightarrow> field_valid h (store_field s st) \<Longrightarrow> image_ok h (byte_store h s st m)"
  by (rule byte_store_ring(1))

lemma ref_slot_stores:
  assumes "image_ok h m" "s < unat (i_slot_count h)" "0 \<le> v"
  shows "v < 2 ^ 32 \<Longrightarrow> ref_write_u32 (int (slot_pos h s) + 4) v m = (Inr (), byte_store h s (StState (of_int v)) m)"
    "v < 2 ^ 64 \<Longrightarrow> ref_write_u64 (int (slot_pos h s) + 8) v m = (Inr (), byte_store h s (StSequence (of_int v)) m)"
    "v < 2 ^ 64 \<Longrightarrow> ref_write_u64 (int (slot_pos h s) + 16) v m = (Inr (), byte_store h s (StTimestamp (of_int v)) m)"
    "v < 2 ^ 64 \<Longrightarrow> ref_write_u64 (int (slot_pos h s) + 24) v m = (Inr (), byte_store h s (StNbytes (of_int v)) m)"
    "v < 2 ^ 16 \<Longrightarrow> ref_write_u16 (int (slot_pos h s) + 34) v m = (Inr (), byte_store h s (StReaders (of_int v)) m)"
    "v < 2 ^ 32 \<Longrightarrow> ref_write_u32 (int (slot_pos h s) + 36) v m = (Inr (), byte_store h s (StFlags (of_int v)) m)"
    "v < 2 ^ 32 \<Longrightarrow> ref_write_u32 (int (slot_pos h s) + 104) v m = (Inr (), byte_store h s (StPid (of_int v)) m)"
  using slot_writes [OF assms] assms(2) byte_store_put [OF assms(1), of s] by (simp_all del: byte_store.simps)

lemma ref_setitem_store:
  assumes "image_ok h m" "field_valid h (store_field s st)" "field_width (store_field s st) = 1"
    "0 \<le> v" "v < 256" "off = int (field_pos h (store_field s st))" "store_bytes st = [of_int v]"
  shows "ref_setitem off v m = (Inr (), byte_store h s st m)"
proof -
  have "field_pos h (store_field s st) < length m" using field_end [OF assms(1,2)] assms(3) by simp
  then show ?thesis
    using assms by (simp add: ref_setitem_def byte_store_put put_poke poke_byte del: byte_store.simps)
qed

lemma ref_byte_stores:
  assumes "image_ok h m" "s < unat (i_slot_count h)" "0 \<le> v" "v < 256"
  shows "ref_setitem (int (slot_pos h s) + 32) v m = (Inr (), byte_store h s (StDtype (of_int v)) m)"
    "ref_setitem (int (slot_pos h s) + 33) v m = (Inr (), byte_store h s (StNdim (of_int v)) m)"
  using assms ref_setitem_store [OF assms(1), of s "StDtype (of_int v)" v]
    ref_setitem_store [OF assms(1), of s "StNdim (of_int v)" v]
  by simp_all

definition ref_dim :: "int list \<Rightarrow> nat \<Rightarrow> u32" where
  "ref_dim vs d = (if d < length vs then of_int (vs ! d) else 0)"

definition ref_dims_ok :: "int list \<Rightarrow> bool" where
  "ref_dims_ok vs \<longleftrightarrow> length vs \<le> MAX_NDIM \<and> (\<forall>v\<in>set vs. 0 \<le> v \<and> v < 2 ^ 32)"

lemma dims_poke:
  assumes ok: "image_ok h m" and valid: "\<And>d. d < MAX_NDIM \<Longrightarrow> field_valid h (F d)" and width: "\<And>d. field_width (F d) = 4"
    and pos: "\<And>d. d < MAX_NDIM \<Longrightarrow> field_pos h (F d) = a + d * 4" and k: "k \<le> MAX_NDIM"
  shows "image_ok h (poke a (concat (map word_bytes (map f [0..<k]))) m) \<and>
    poke a (concat (map word_bytes (map f [0..<k]))) m = fold (\<lambda>d. put h (F d) (word_bytes (f d :: u32))) [0..<k] m"
  using k
proof (induction k)
  case 0
  then show ?case using ok by (simp add: poke_def)
next
  case (Suc k)
  let ?xs = "concat (map word_bytes (map f [0..<k]))"
  have len: "length ?xs = k * 4" by (induction k) simp_all
  have end_le: "a + k * 4 + 4 \<le> length m"
    using field_end [OF ok valid, of k] pos [of k] width Suc.prems by simp
  have "poke a (?xs @ word_bytes (f k)) m = poke (a + k * 4) (word_bytes (f k)) (poke a ?xs m)"
    using poke_append [of a ?xs "word_bytes (f k)" m] end_le unfolding len by simp
  moreover have poked: "image_ok h (poke a ?xs m)" "poke a ?xs m = fold (\<lambda>d. put h (F d) (word_bytes (f d))) [0..<k] m"
    using Suc.IH [OF Suc_leD [OF Suc.prems]] by blast+
  moreover have "poke (a + k * 4) (word_bytes (f k)) (poke a ?xs m) = put h (F k) (word_bytes (f k)) (poke a ?xs m)"
    using put_poke [OF poked(1) valid [of k]] pos [of k] Suc.prems by simp
  moreover have "image_ok h (put h (F k) (word_bytes (f k)) (poke a ?xs m))"
    using poked(1) valid [of k] width [of k] Suc.prems by simp
  ultimately show ?case by simp
qed

lemma ref_write_dims:
  assumes ok: "image_ok h m" and valid: "\<And>d. d < MAX_NDIM \<Longrightarrow> field_valid h (F d)" and width: "\<And>d. field_width (F d) = 4"
    and pos: "\<And>d. d < MAX_NDIM \<Longrightarrow> field_pos h (F d) = a + d * 4" and vs: "ref_dims_ok vs"
  shows "ref_write_shape (int a) vs m = (Inr (), fold (\<lambda>d. put h (F d) (word_bytes (ref_dim vs d))) [0..<MAX_NDIM] m)"
proof -
  obtain P where P: "P = take ref_MAX_NDIM vs @ replicate (ref_MAX_NDIM - length vs) 0" by blast
  have "ref_MAX_NDIM = MAX_NDIM" by (simp add: layout_defs)
  then have p: "length P = MAX_NDIM" "\<And>d. d < MAX_NDIM \<Longrightarrow> of_int (P ! d) = ref_dim vs d" "\<forall>v\<in>set P. 0 \<le> v \<and> v < 2 ^ 32"
    using vs unfolding P by (auto simp: ref_dims_ok_def ref_dim_def nth_append)
  have le: "ref_le_bytes 4 = (\<lambda>v. word_bytes (of_int v :: u32))"
    by (rule ext) (simp add: ref_le_bytes_word [where 'a = 32])
  have "map (\<lambda>v. word_bytes (of_int v :: u32)) P = map (\<lambda>d. word_bytes (ref_dim vs d)) [0..<MAX_NDIM]"
    using p by (intro nth_equalityI) simp_all
  then have bytes: "map (ref_le_bytes 4) P = map word_bytes (map (ref_dim vs) [0..<MAX_NDIM])"
    unfolding le by (simp add: comp_def)
  have "a + 32 \<le> length m"
    using field_end [OF ok valid, of 7] pos [of 7] width by (simp add: MAX_NDIM_def)
  then have "ref_write_shape (int a) vs m = (Inr (), poke a (concat (map word_bytes (map (ref_dim vs) [0..<MAX_NDIM]))) m)"
    using p(3) unfolding ref_write_shape_def Let_def P [symmetric] bytes by simp
  with dims_poke [OF ok valid width pos order.refl] show ?thesis by simp
qed


lemma put_fold_stores:
  assumes "image_ok h m" "\<And>d. d < MAX_NDIM \<Longrightarrow> field_valid h (store_field s (St d))"
    "\<And>d. store_field s (St d) = F d" "\<And>d. store_bytes (St d) = word_bytes (f d :: u32)" "\<And>d. field_width (F d) = 4"
    "s < unat (i_slot_count h)"
  shows "fold (\<lambda>d. put h (F d) (word_bytes (f d))) [0..<MAX_NDIM] m = fold (byte_store h s) (map St [0..<MAX_NDIM]) m"
proof -
  have "fold (\<lambda>d. put h (F d) (word_bytes (f d))) ds m = fold (byte_store h s) (map St ds) m" if "\<forall>d\<in>set ds. d < MAX_NDIM" for ds
    using that assms(1)
  proof (induction ds arbitrary: m)
    case (Cons d ds)
    have "byte_store h s (St d) m = put h (F d) (word_bytes (f d)) m"
      using byte_store_put [OF Cons.prems(2), of s "St d"] assms(2-4) Cons.prems(1) by simp
    with Cons assms(2) show ?case by (metis (no_types, lifting) fold_simps(2) image_ok_byte_store assms(6) list.set_intros list.simps(9))
  qed simp
  then show ?thesis by simp
qed

definition shape_stores :: "int list \<Rightarrow> store list" where
  "shape_stores vs = map (\<lambda>d. StShape d (ref_dim vs d)) [0..<MAX_NDIM]"

definition stride_stores :: "int list \<Rightarrow> store list" where
  "stride_stores vs = map (\<lambda>d. StStride d (ref_dim vs d)) [0..<MAX_NDIM]"

lemma ref_dims_stores:
  assumes "image_ok h m" "s < unat (i_slot_count h)" "ref_dims_ok vs"
  shows "ref_write_shape (int (slot_pos h s) + 40) vs m = (Inr (), fold (byte_store h s) (shape_stores vs) m)"
    "ref_write_shape (int (slot_pos h s) + 72) vs m = (Inr (), fold (byte_store h s) (stride_stores vs) m)"
proof -
  have e: "int (slot_pos h s) + 40 = int (slot_pos h s + 40)" "int (slot_pos h s) + 72 = int (slot_pos h s + 72)" by simp_all
  show "ref_write_shape (int (slot_pos h s) + 40) vs m = (Inr (), fold (byte_store h s) (shape_stores vs) m)"
    unfolding e shape_stores_def
    using ref_write_dims [OF assms(1), of "SShape s" "slot_pos h s + 40" vs] assms(2,3)
      put_fold_stores [OF assms(1), of s "\<lambda>d. StShape d (ref_dim vs d)" "SShape s" "ref_dim vs"]
    by simp
  show "ref_write_shape (int (slot_pos h s) + 72) vs m = (Inr (), fold (byte_store h s) (stride_stores vs) m)"
    unfolding e stride_stores_def
    using ref_write_dims [OF assms(1), of "SStride s" "slot_pos h s + 72" vs] assms(2,3)
      put_fold_stores [OF assms(1), of s "\<lambda>d. StStride d (ref_dim vs d)" "SStride s" "ref_dim vs"]
    by simp
qed


lemma image_ok_fold_stores [simp]:
  "image_ok h m \<Longrightarrow> s < unat (i_slot_count h) \<Longrightarrow> \<forall>st\<in>set sts. field_valid h (store_field s st) \<Longrightarrow>
   image_ok h (fold (byte_store h s) sts m)"
  using byte_stores_ring by blast

lemma dim_stores_valid [simp]:
  "s < unat (i_slot_count h) \<Longrightarrow> \<forall>st\<in>set (shape_stores vs). field_valid h (store_field s st)"
  "s < unat (i_slot_count h) \<Longrightarrow> \<forall>st\<in>set (stride_stores vs). field_valid h (store_field s st)"
  by (auto simp: shape_stores_def stride_stores_def)

text \<open>The stores of the header, as the store programs of \<open>SlotSteps\<close> have them.\<close>

definition ref_early_stores :: "int \<Rightarrow> store list" where
  "ref_early_stores sequence = [StState STATE_WRITING, StSequence (of_int sequence)]"

definition ref_header_stores :: "int \<Rightarrow> int \<Rightarrow> int \<Rightarrow> dtype \<Rightarrow> np_array \<Rightarrow> int \<Rightarrow> store list" where
  "ref_header_stores sequence stamp pid d arr consumers =
     ref_early_stores sequence @
     [StTimestamp (of_int stamp), StNbytes (of_nat (length (na_data arr))), StDtype (dtype_code d),
      StNdim (of_nat (length (na_shape arr))), StReaders (of_int consumers), StFlags 0] @
     shape_stores (na_shape arr) @ stride_stores (na_strides arr) @ [StPid (of_int pid)]"

lemma ref_header_stores_valid [simp]:
  "s < unat (i_slot_count h) \<Longrightarrow>
   \<forall>st\<in>set (ref_header_stores sequence stamp pid d arr consumers). field_valid h (store_field s st)"
  by (auto simp: ref_header_stores_def ref_early_stores_def shape_stores_def stride_stores_def)

text \<open>An array the header can describe: at most 8 dimensions, each 32 bits wide, as many strides.\<close>

definition np_ok :: "np_array \<Rightarrow> dtype \<Rightarrow> bool" where
  "np_ok arr d \<longleftrightarrow> na_dtype arr = numpy_name d \<and> ref_dims_ok (na_shape arr) \<and> ref_dims_ok (na_strides arr)"

definition stamp_of :: "int \<Rightarrow> int option \<Rightarrow> int" where
  "stamp_of now ts = (case ts of None \<Rightarrow> now | Some t \<Rightarrow> t)"

lemma dtype_code_bounds: "0 \<le> uint (dtype_code d)" "uint (dtype_code d) < 256"
  using uint_lt2p [of "dtype_code d"] by simp_all

lemma payload_len_bound: "payload_len c < 2 ^ 64"
  using unat_u64_less [of "slot_stride c"] by (simp add: payload_len_def)

lemma ref_setslice_payload:
  assumes "image_ok h m" "s < unat (i_slot_count h)" "0 < i_slot_capacity h" "length data \<le> payload_len (i_slot_capacity h)"
  shows "ref_setslice (int (slot_pos h s) + 128) data m = (Inr (), copy_image h s data m)"
proof -
  have geo: "geometry_ok h" using assms(1) by (simp add: image_ok_def)
  have "0 < payload_len (i_slot_capacity h)"
    using geo by (intro payload_len_capacity [OF assms(3), of "i_slot_count h"]) (simp add: geometry_ok_def)
  then have base: "unat (payload_off h (of_nat s)) = slot_pos h s + 128"
    using unat_field_off [OF geo, of "SByte s 0"] assms(2) by simp
  have "slot_pos h s + 128 + length data \<le> length m"
    using slot_pos_end(1,3) [OF geo assms(2)] assms(1,4) by (simp add: image_ok_def)
  moreover have "nat (int (slot_pos h s) + 128) = slot_pos h s + 128" by simp
  ultimately show ?thesis
    unfolding copy_image_def base ref_setslice_def by simp
qed

lemma ref_write_slot_stores:
  assumes ok: "image_ok h m" and s: "s < unat (i_slot_count h)" and arr: "np_ok arr d"
    and cap: "0 < i_slot_capacity h" and len: "length (na_data arr) \<le> payload_len (i_slot_capacity h)"
    and nums: "0 \<le> sequence" "sequence < 2 ^ 64" "0 \<le> stamp_of now ts" "stamp_of now ts < 2 ^ 64"
      "0 \<le> consumers" "consumers < 2 ^ 16" "0 \<le> pid" "pid < 2 ^ 32"
  shows "ref_write_slot (ref_of h) now ts pid arr (int s) sequence consumers m =
    (let m1 = fold (byte_store h s) (ref_header_stores sequence (stamp_of now ts) pid d arr consumers) m
     in if length (na_shape arr) \<noteq> 1 \<and> 0 \<in> set (na_shape arr) then (Inl TypeError, m1)
        else (Inr (), byte_store h s (StState STATE_COMMITTED) (copy_image h s (na_data arr) m1)))"
proof -
  let ?m1 = "fold (byte_store h s) (ref_header_stores sequence (stamp_of now ts) pid d arr consumers) m"
  have m1: "image_ok h ?m1" using ok s by simp
  have payload: "ref_setslice (int (slot_pos h s) + 128) (na_data arr) ?m1 = (Inr (), copy_image h s (na_data arr) ?m1)"
    by (rule ref_setslice_payload [OF m1 s cap len])
  have m2: "image_ok h (copy_image h s (na_data arr) ?m1)" using copy_image_ring(1) [OF m1 s len] .
  have nb: "int (length (na_data arr)) < 2 ^ 64"
    using len payload_len_bound [of "i_slot_capacity h"] by simp
  have nd: "int (length (na_shape arr)) < 256" using arr by (simp add: np_ok_def ref_dims_ok_def MAX_NDIM_def)
  have st: "(case ts of None \<Rightarrow> now | Some t \<Rightarrow> t) = stamp_of now ts" by (simp add: stamp_of_def)
  have head: "ref_write_slot (ref_of h) now ts pid arr (int s) sequence consumers m =
     (case ref_cast_bytes arr ?m1 of (Inl e, b') \<Rightarrow> (Inl e, b')
      | (Inr bytes, b') \<Rightarrow>
          ref_seq (ref_setslice (int (slot_pos h s) + 128) bytes) (ref_write_u32 (int (slot_pos h s) + 4) 1) b')"
    using ok s arr nums nb nd
    by (simp add: ref_write_slot_def ref_slot_base_pos ref_payload_base_pos Let_def st ref_header_stores_def ref_early_stores_def
        ref_S_STATE_def ref_S_SEQUENCE_def ref_S_TIMESTAMP_NS_def ref_S_NBYTES_def ref_S_DTYPE_def ref_S_NDIM_def ref_S_READERS_def
        ref_S_FLAGS_def ref_S_SHAPE_def ref_S_STRIDES_def ref_S_PRODUCER_PID_def ref_STATE_WRITING_def ref_STATE_COMMITTED_def
        ref_slot_stores ref_byte_stores ref_dims_stores np_ok_def ref_dtype_codes dtype_code_bounds STATE_WRITING_def del: byte_store.simps)
  show ?thesis
    unfolding head Let_def
    using payload ref_slot_stores(1) [OF m2 s, of 1] by (simp add: ref_cast_bytes_def STATE_COMMITTED_def del: byte_store.simps)
qed


text \<open>The header those stores leave.\<close>

definition ref_published :: "int \<Rightarrow> int \<Rightarrow> int \<Rightarrow> dtype \<Rightarrow> np_array \<Rightarrow> int \<Rightarrow> slot_header \<Rightarrow> slot_header" where
  "ref_published sequence stamp pid d arr consumers old =
     old\<lparr>s_state := STATE_COMMITTED, s_sequence := of_int sequence, s_timestamp_ns := of_int stamp,
        s_nbytes := of_nat (length (na_data arr)), s_dtype := dtype_code d, s_ndim := of_nat (length (na_shape arr)),
        s_readers_remaining := of_int consumers, s_flags := 0, s_shape := map (ref_dim (na_shape arr)) [0..<MAX_NDIM],
        s_strides := map (ref_dim (na_strides arr)) [0..<MAX_NDIM], s_producer_pid := of_int pid\<rparr>"

lemma dim_stores_below:
  assumes "s < length (slots r)" "k \<le> MAX_NDIM"
    "length (s_shape (slots r ! s)) = MAX_NDIM" "length (s_strides (slots r ! s)) = MAX_NDIM"
  shows "fold (store_at s) (map (\<lambda>d. StShape d (f d)) [0..<k]) r =
      upd_slot s (\<lambda>h. h\<lparr>s_shape := map f [0..<k] @ drop k (s_shape h)\<rparr>) r \<and>
    fold (store_at s) (map (\<lambda>d. StStride d (f d)) [0..<k]) r =
      upd_slot s (\<lambda>h. h\<lparr>s_strides := map f [0..<k] @ drop k (s_strides h)\<rparr>) r"
  using assms(2)
proof (induction k)
  case 0
  show ?case using assms(1) by (simp add: upd_slot_def)
next
  case (Suc k)
  have upd: "(map f [0..<k] @ drop k xs)[k := f k] = map f [0..<Suc k] @ drop (Suc k) xs" if "length xs = MAX_NDIM" for xs :: "u32 list"
    using that Suc.prems by (simp add: list_update_append Cons_nth_drop_Suc [symmetric])
  show ?case
    using Suc upd [OF assms(3)] upd [OF assms(4)] assms(1) by (simp add: upd_slot_def)
qed

lemma ref_header_stores_slot:
  assumes "s < length (slots r)" "length (s_shape (slots r ! s)) = MAX_NDIM" "length (s_strides (slots r ! s)) = MAX_NDIM"
  shows "fold (store_at s) (ref_header_stores sequence stamp pid d arr consumers) r =
    upd_slot s (\<lambda>old. (ref_published sequence stamp pid d arr consumers old)\<lparr>s_state := STATE_WRITING\<rparr>) r"
proof -
  have shape: "fold (store_at s) (shape_stores vs) q = upd_slot s (\<lambda>h. h\<lparr>s_shape := map (ref_dim vs) [0..<MAX_NDIM]\<rparr>) q"
    if "s < length (slots q)" "length (s_shape (slots q ! s)) = MAX_NDIM" "length (s_strides (slots q ! s)) = MAX_NDIM" for q vs
    using dim_stores_below [OF that(1) order.refl that(2,3), of "ref_dim vs"] that by (simp add: shape_stores_def upd_slot_def)
  have stride: "fold (store_at s) (stride_stores vs) q = upd_slot s (\<lambda>h. h\<lparr>s_strides := map (ref_dim vs) [0..<MAX_NDIM]\<rparr>) q"
    if "s < length (slots q)" "length (s_shape (slots q ! s)) = MAX_NDIM" "length (s_strides (slots q ! s)) = MAX_NDIM" for q vs
    using dim_stores_below [OF that(1) order.refl that(2,3), of "ref_dim vs"] that by (simp add: stride_stores_def upd_slot_def)
  show ?thesis
    using assms
    by (simp add: ref_header_stores_def ref_early_stores_def shape stride upd_slot_def ref_published_def)
      (cases "slots r ! s"; simp)
qed

lemma image_dims_length:
  "s < unat (i_slot_count h) \<Longrightarrow> length (s_shape (slots (image_ring h m) ! s)) = MAX_NDIM"
  "s < unat (i_slot_count h) \<Longrightarrow> length (s_strides (slots (image_ring h m) ! s)) = MAX_NDIM"
  by (simp_all add: image_ring_def image_slot_def)

lemma ref_header_image:
  assumes "image_ok h m" "s < unat (i_slot_count h)"
  shows "image_ring h (fold (byte_store h s) (ref_header_stores sequence stamp pid d arr consumers) m) =
    upd_slot s (\<lambda>old. (ref_published sequence stamp pid d arr consumers old)\<lparr>s_state := STATE_WRITING\<rparr>) (image_ring h m)"
  using byte_stores_ring [OF assms ref_header_stores_valid [OF assms(2)]] assms(2)
  by (simp add: ref_header_stores_slot image_dims_length)

lemma ref_publication_ring:
  assumes "image_ok h m" "s < unat (i_slot_count h)" "length (na_data arr) \<le> payload_len (i_slot_capacity h)"
    and m1: "m1 = fold (byte_store h s) (ref_header_stores sequence stamp pid d arr consumers) m"
  shows "image_ok h (byte_store h s (StState STATE_COMMITTED) (copy_image h s (na_data arr) m1))"
    and "image_ring h (byte_store h s (StState STATE_COMMITTED) (copy_image h s (na_data arr) m1)) =
      copy_payload s (na_data arr) (upd_slot s (ref_published sequence stamp pid d arr consumers) (image_ring h m))"
proof -
  have ok1: "image_ok h m1" using assms(1,2) by (simp add: m1)
  note c = copy_image_ring [OF ok1 assms(2,3)]
  have v: "field_valid h (store_field s (StState STATE_COMMITTED))" using assms(2) by simp
  show "image_ok h (byte_store h s (StState STATE_COMMITTED) (copy_image h s (na_data arr) m1))"
    by (rule byte_store_ring(1) [OF c(1) assms(2) v])
  show "image_ring h (byte_store h s (StState STATE_COMMITTED) (copy_image h s (na_data arr) m1)) =
      copy_payload s (na_data arr) (upd_slot s (ref_published sequence stamp pid d arr consumers) (image_ring h m))"
    unfolding byte_store_ring(2) [OF c(1) assms(2) v] c(2)
    unfolding m1 ref_header_image [OF assms(1,2)]
    using assms(2)
    by (simp add: upd_slot_def copy_payload_def ref_published_def)
      (cases "slots (image_ring h m) ! s"; intro ring.equality; simp)
qed


lemma ref_publish_attempt_ring:
  assumes ok: "image_ok h m" and pick: "ref_select_slot (ref_of h) m = (Inr (Some (int s)), m)"
    and s: "s < unat (i_slot_count h)" and arr: "np_ok arr d"
    and cap: "0 < i_slot_capacity h" and len: "length (na_data arr) \<le> payload_len (i_slot_capacity h)"
    and dims: "length (na_shape arr) = 1 \<or> 0 \<notin> set (na_shape arr)"
    and nums: "uint (g_next_seq (image_ring h m)) + 1 < 2 ^ 64" "0 \<le> stamp_of now ts" "stamp_of now ts < 2 ^ 64"
      "uint (g_consumers (image_ring h m)) < 2 ^ 16" "0 \<le> pid" "pid < 2 ^ 32"
      "uint (g_publish_count (image_ring h m)) + 1 < 2 ^ 64"
  shows "\<exists>m'. ref_publish_attempt (ref_of h) now ts pid arr policy m =
      (Inr (Return (Some \<lparr>pp_sequence = uint (g_next_seq (image_ring h m)), pp_slot_index = int s,
         pp_nbytes = int (length (na_data arr)), pp_readers = uint (g_consumers (image_ring h m))\<rparr>)), m')
    \<and> image_ok h m'
    \<and> image_ring h m' =
       (copy_payload s (na_data arr)
         (upd_slot s (ref_published (uint (g_next_seq (image_ring h m))) (stamp_of now ts) pid d arr
            (uint (g_consumers (image_ring h m)))) (image_ring h m)))
       \<lparr>g_next_seq := g_next_seq (image_ring h m) + 1, g_publish_count := g_publish_count (image_ring h m) + 1\<rparr>"
proof -
  let ?r = "image_ring h m"
  let ?q = "uint (g_next_seq ?r)" and ?c = "uint (g_consumers ?r)" and ?n = "uint (g_publish_count ?r)"
  let ?m1 = "fold (byte_store h s) (ref_header_stores ?q (stamp_of now ts) pid d arr ?c) m"
  let ?m2 = "byte_store h s (StState STATE_COMMITTED) (copy_image h s (na_data arr) ?m1)"
  note m2 = ref_publication_ring [OF ok s len refl, of ?q "stamp_of now ts" pid d ?c]
  have wrote: "ref_write_slot (ref_of h) now ts pid arr (int s) ?q ?c m = (Inr (), ?m2)"
    using ref_write_slot_stores [OF ok s arr cap len, of ?q now ts ?c pid] dims nums by (auto simp: Let_def)
  let ?m3 = "put h GNextSeq (word_bytes (g_next_seq ?r + 1)) ?m2"
  have m3: "image_ok h ?m3" using m2(1) by simp
  have w3: "ref_write_u64 24 (?q + 1) ?m2 = (Inr (), ?m3)"
    using header_writes(4) [OF m2(1), of "?q + 1"] nums(1) by simp
  have n3: "g_publish_count (image_ring h ?m3) = g_publish_count ?r"
    using m2 by (simp add: put_image_ring copy_payload_def upd_slot_def del: byte_store.simps)
  let ?m4 = "put h GPublishCount (word_bytes (g_publish_count ?r + 1)) ?m3"
  have w4: "ref_write_u64 40 (?n + 1) ?m3 = (Inr (), ?m4)"
    using header_writes(7) [OF m3, of "?n + 1"] nums(7) by simp
  have "ref_publish_attempt (ref_of h) now ts pid arr policy m =
      (Inr (Return (Some \<lparr>pp_sequence = ?q, pp_slot_index = int s, pp_nbytes = int (length (na_data arr)),
         pp_readers = ?c\<rparr>)), ?m4)"
    using header_reads(4,5) [OF ok] header_reads(7) [OF m3] n3 w3 w4
    by (simp add: ref_publish_attempt_def pick wrote ref_G_NEXT_SEQ_def ref_G_CONSUMERS_def ref_G_PUBLISH_COUNT_def
        del: byte_store.simps)
  moreover have "image_ok h ?m4" using m3 by simp
  moreover have "image_ring h ?m4 = (image_ring h ?m2)\<lparr>g_next_seq := g_next_seq ?r + 1, g_publish_count := g_publish_count ?r + 1\<rparr>"
    using m2(1) m3 by (simp add: put_image_ring del: byte_store.simps)
  ultimately show ?thesis unfolding m2(2) by blast
qed


subsection \<open>The choice of a slot\<close>

definition ref_free :: "ring \<Rightarrow> nat list" where
  "ref_free r = filter (\<lambda>i. s_state (slots r ! i) = STATE_FREE) [0..<length (slots r)]"

definition ref_reclaimable :: "ring \<Rightarrow> (int \<times> int) list" where
  "ref_reclaimable r =
     map (\<lambda>i. (uint (s_sequence (slots r ! i)), int i))
       (filter (\<lambda>i. s_state (slots r ! i) = STATE_COMMITTED \<and> s_readers_remaining (slots r ! i) = 0) [0..<length (slots r)])"

definition ref_choice :: "ring \<Rightarrow> int option" where
  "ref_choice r =
     (if ref_free r \<noteq> [] then Some (int (hd (ref_free r)))
      else if ref_reclaimable r \<noteq> [] then Some (snd (hd (sort (ref_reclaimable r)))) else None)"

lemma fold_select:
  "fold (\<lambda>i acc. if F i then (fst acc @ [f i], snd acc) else if C i then (fst acc, snd acc @ [g i]) else acc) xs (as, bs) =
    (as @ map f (filter F xs), bs @ map g (filter (\<lambda>i. \<not> F i \<and> C i) xs))"
  by (induction xs arbitrary: as bs) simp_all

lemma ref_select_image:
  assumes "image_ok h m"
  shows "ref_select_slot (ref_of h) m = (Inr (ref_choice (image_ring h m)), m)"
proof -
  let ?r = "image_ring h m"
  let ?F = "\<lambda>i. s_state (slots ?r ! i) = STATE_FREE"
  let ?C = "\<lambda>i. s_state (slots ?r ! i) = STATE_COMMITTED \<and> s_readers_remaining (slots ?r ! i) = 0"
  have step: "ref_select_step (ref_of h) (int i) acc m =
      (Inr (if ?F i then (fst acc @ [int i], snd acc)
            else if ?C i then (fst acc, snd acc @ [(uint (s_sequence (slots ?r ! i)), int i)]) else acc), m)"
    if "i < unat (i_slot_count h)" for i acc
    using slot_reads(1,2,5) [OF assms that]
    by (simp add: ref_select_step_def ref_slot_base_pos Let_def ref_S_STATE_def ref_S_SEQUENCE_def ref_S_READERS_def uint_state
        uint_0_iff)
  have "ref_fold (map int [0..<unat (i_slot_count h)]) (ref_select_step (ref_of h)) ([], []) m =
      (Inr (fold (\<lambda>i acc. if ?F i then (fst acc @ [int i], snd acc)
            else if ?C i then (fst acc, snd acc @ [(uint (s_sequence (slots ?r ! i)), int i)]) else acc)
          [0..<unat (i_slot_count h)] ([], [])), m)"
    by (rule ref_fold_reads) (rule step)
  also have "\<dots> = (Inr (map int (ref_free ?r), ref_reclaimable ?r), m)"
  proof -
    have "filter (\<lambda>i. \<not> ?F i \<and> ?C i) [0..<unat (i_slot_count h)] = filter ?C [0..<unat (i_slot_count h)]"
      by (rule filter_cong) auto
    then show ?thesis unfolding fold_select by (simp add: ref_free_def ref_reclaimable_def)
  qed
  finally show ?thesis
    by (simp add: ref_select_slot_def ref_range_slots ref_choice_def hd_map)
qed

lemma hd_sort:
  assumes "x \<in> set xs" "\<And>y. y \<in> set xs \<Longrightarrow> x \<le> y"
  shows "hd (sort xs) = (x :: 'a::linorder)"
proof -
  obtain z zs where z: "sort xs = z # zs" using assms(1) by (metis list.exhaust set_sort empty_iff list.set(1))
  have "sorted (z # zs)" using sorted_sort [of xs] by (simp add: z)
  moreover have "z \<in> set xs" "x \<in> set (z # zs)" using assms(1) set_sort [of "\<lambda>x. x" xs] unfolding z by auto
  ultimately show ?thesis using assms(2) [of z] by (auto simp: z)
qed

lemma find_filter: "find P xs = (if filter P xs = [] then None else Some (hd (filter P xs)))"
  by (induction xs) auto

lemma age_le_seq:
  assumes "a < n" "b < n" "age n b \<le> age n a"
  shows "uint a \<le> uint b"
proof -
  have "age n a = unat n - unat a" "age n b = unat n - unat b"
    using assms(1,2) by (simp_all add: age_def unat_sub less_imp_le)
  with assms have "unat a \<le> unat b" by (auto simp: word_less_nat_alt)
  then show ?thesis by (simp only: uint_nat of_nat_le_iff)
qed

text \<open>
  Claim C36. Both implementations choose the same slot: in a ring whose sequence counter has not wrapped
  and whose reader counts agree with the reader masks (both 0 or neither), the reference's
  \<^verbatim>\<open>_select_slot\<close> on the bytes returns the slot that the scan of \<^verbatim>\<open>reserve_header\<close> picks, or finds none
  when it finds none.
\<close>

theorem reference_selects_same_slot:
  assumes "image_ok h m" and "seqs_ok (image_ring h m)"
    and "\<forall>sh\<in>set (slots (image_ring h m)). in_use sh \<longrightarrow> s_sequence sh < g_next_seq (image_ring h m)"
    and "\<forall>sh\<in>set (slots (image_ring h m)). s_state sh = STATE_COMMITTED \<longrightarrow>
           (s_readers_remaining sh = 0 \<longleftrightarrow> s_readers_mask sh = 0)"
  shows "ref_select_slot (ref_of h) m = (Inr (map_option int (pick_slot (image_ring h m))), m)"
proof -
  let ?r = "image_ring h m"
  have recl: "ref_reclaimable ?r =
      map (\<lambda>i. (uint (s_sequence (slots ?r ! i)), int i)) (filter (\<lambda>i. unread (slots ?r ! i)) [0..<length (slots ?r)])"
    unfolding ref_reclaimable_def using assms(4)
    by (intro arg_cong [where f = "map _"] filter_cong refl) (auto simp: unread_def all_set_conv_all_nth)
  have "ref_choice ?r = map_option int (pick_slot ?r)"
  proof (cases "ref_free ?r = []")
    case False
    then show ?thesis by (simp add: ref_choice_def pick_slot_eq find_filter ref_free_def)
  next
    case True
    then have full: "\<forall>sh\<in>set (slots ?r). s_state sh \<noteq> STATE_FREE"
      by (auto simp: ref_free_def filter_empty_conv all_set_conv_all_nth)
    show ?thesis
    proof (cases "pick_slot ?r")
      case None
      then have "\<forall>sh\<in>set (slots ?r). \<not> unread sh" using pick_slot_None [OF assms(2)] by (simp add: reclaimable_def)
      then have "ref_reclaimable ?r = []" by (simp add: recl filter_empty_conv)
      with True None show ?thesis by (simp add: ref_choice_def)
    next
      case (Some s)
      then have s: "s < length (slots ?r)" "unread (slots ?r ! s)"
        and old: "\<And>j. j < length (slots ?r) \<Longrightarrow> unread (slots ?r ! j) \<Longrightarrow>
          age (g_next_seq ?r) (s_sequence (slots ?r ! j)) \<le> age (g_next_seq ?r) (s_sequence (slots ?r ! s))"
        using pick_slot_Some [OF assms(2) Some] full by auto
      have use: "in_use (slots ?r ! j)" if "unread (slots ?r ! j)" for j
        using that by (simp add: unread_def in_use_def)
      have "(uint (s_sequence (slots ?r ! s)), int s) \<in> set (ref_reclaimable ?r)" using s by (auto simp: recl)
      moreover have "(uint (s_sequence (slots ?r ! s)), int s) \<le> x" if "x \<in> set (ref_reclaimable ?r)" for x
      proof -
        from that obtain j where j: "j < length (slots ?r)" "unread (slots ?r ! j)" "x = (uint (s_sequence (slots ?r ! j)), int j)"
          by (auto simp: recl)
        have "uint (s_sequence (slots ?r ! s)) \<le> uint (s_sequence (slots ?r ! j))"
          using assms(3) s j use by (intro age_le_seq [OF _ _ old]) auto
        moreover have "s = j" if "s_sequence (slots ?r ! s) = s_sequence (slots ?r ! j)"
          using seqs_ok_inj [OF assms(2) s(1) j(1) use [OF s(2)] use [OF j(2)] that] .
        ultimately show ?thesis by (auto simp: j(3) less_le word_uint_eq_iff)
      qed
      ultimately have "hd (sort (ref_reclaimable ?r)) = (uint (s_sequence (slots ?r ! s)), int s)" by (rule hd_sort)
      moreover have "ref_reclaimable ?r \<noteq> []" using s by (auto simp: recl filter_empty_conv)
      ultimately show ?thesis using True Some by (simp add: ref_choice_def)
    qed
  qed
  then show ?thesis by (simp add: ref_select_image [OF assms(1)])
qed

subsection \<open>A publication of the reference\<close>

lemma capacity_payload: "n \<le> unat c \<Longrightarrow> ring_fits k c \<Longrightarrow> n \<le> payload_len c"
  using stride_nat_ge [of "unat c"]
  by (simp add: payload_len_def unat_slot_stride ring_fits_def SLOT_HEADER_SIZE_def)

lemma ref_publish_attempted:
  assumes "contiguous arr0 = arr" "na_dtype arr0 = numpy_name d" "length (na_shape arr0) \<le> MAX_NDIM"
    "length (na_data arr) \<le> unat (i_slot_capacity h)"
  shows "ref_publish contiguous (ref_of h) T ts pid arr0 policy m = ref_publish_loop (ref_of h) T ts pid arr policy 0 m"
proof -
  have "int (length (na_data arr)) \<le> uint (i_slot_capacity h)" using assms(4) by (simp only: uint_nat of_nat_le_iff)
  with assms(1-3) show ?thesis
    by (simp add: ref_publish_def ref_dtype_codes ref_MAX_NDIM_def MAX_NDIM_def)
qed



text \<open>Two bytes, and an empty array of two dimensions, for a new ring of two slots.\<close>

definition demo_created :: image where
  "demo_created = format_image demo_inner demo_image"

definition two_bytes :: np_array where
  "two_bytes = \<lparr>na_dtype = ''uint8'', na_shape = [2], na_strides = [1], na_data = [40, 41]\<rparr>"

definition demo_ref_clock :: ref_clock where
  "demo_ref_clock = \<lparr>pc_now_ns = \<lambda>_. 7, pc_expired = \<lambda>_. True, pc_other = \<lambda>_ b. b\<rparr>"

lemma demo_created_ring: "image_ok demo_inner demo_created" "image_ring demo_inner demo_created = format_ring demo_inner"
  using format_refines [OF demo_image_ok] by (simp_all add: demo_created_def)

lemma demo_slots: "slots (format_ring demo_inner) = replicate 2 (zero_slot\<lparr>s_magic := SLOT_MAGIC\<rparr>)"
  "g_next_seq (format_ring demo_inner) = 1" "g_publish_count (format_ring demo_inner) = 0" "g_consumers (format_ring demo_inner) = 0"
  by (simp_all add: format_ring_eq demo_geometry zero_ring_def) (simp add: zero_slot_def STATE_FREE_def)

lemma demo_select: "ref_select_slot (ref_of demo_inner) demo_created = (Inr (Some (int 0)), demo_created)"
  by (simp add: ref_select_image demo_created_ring ref_choice_def ref_free_def demo_slots upt_rec zero_slot_def STATE_FREE_def)

lemma two_bytes_ok: "np_ok two_bytes U8"
  by (simp add: np_ok_def two_bytes_def ref_dims_ok_def MAX_NDIM_def)


subsection \<open>A publication that fails half way\<close>

lemma ref_pack_bad: "\<not> (0 \<le> v \<and> v < 256 ^ width) \<Longrightarrow> ref_pack width off v m = (Inl StructError, m)"
  by (auto simp: ref_pack_def)

lemma ref_choice_kind:
  assumes "ref_choice r = Some i"
  shows "\<exists>s<length (slots r). i = int s \<and>
    (s_state (slots r ! s) = STATE_FREE \<or> s_state (slots r ! s) = STATE_COMMITTED \<and> s_readers_remaining (slots r ! s) = 0)"
proof (cases "ref_free r = []")
  case False
  then have "hd (ref_free r) \<in> set (ref_free r)" by simp
  then have "hd (ref_free r) < length (slots r)" "s_state (slots r ! hd (ref_free r)) = STATE_FREE" by (simp_all add: ref_free_def)
  then show ?thesis using assms False by (intro exI [of _ "hd (ref_free r)"]) (simp add: ref_choice_def)
next
  case True
  then have "ref_reclaimable r \<noteq> []" "i = snd (hd (sort (ref_reclaimable r)))" using assms by (auto simp: ref_choice_def split: if_splits)
  moreover from this have "sort (ref_reclaimable r) \<noteq> []" by (metis set_empty set_sort)
  then have "hd (sort (ref_reclaimable r)) \<in> set (sort (ref_reclaimable r))" by (rule hd_in_set)
  ultimately show ?thesis by (auto simp: ref_reclaimable_def)
qed

text \<open>
  Claim C39. A publication of the reference that fails half way costs the slot for good: a timestamp
  that is negative or has more than 64 bits, or an array of several dimensions one of which is zero,
  raises only after the slot was marked as being written; the sequence counter does not move, and as
  long as the slot is in that state the reference never chooses it again.
\<close>

theorem reference_failure_costs_slot:
  assumes "image_ok h m" and "ref_select_slot (ref_of h) m = (Inr (Some (int s)), m)" and "s < unat (i_slot_count h)"
    and "0 < i_slot_capacity h" and "contiguous arr0 = arr" and "np_ok arr d"
    and "na_dtype arr0 = numpy_name d" and "length (na_shape arr0) \<le> MAX_NDIM"
    and "length (na_data arr) \<le> unat (i_slot_capacity h)"
    and "uint (g_consumers (image_ring h m)) < 2 ^ 16" and "0 \<le> pid" and "pid < 2 ^ 32"
    and bad: "(stamp_of (pc_now_ns T 0) ts < 0 \<or> 2 ^ 64 \<le> stamp_of (pc_now_ns T 0) ts) \<or>
      (length (na_shape arr) \<noteq> 1 \<and> 0 \<in> set (na_shape arr))"
  shows "\<exists>e m'. ref_publish contiguous (ref_of h) T ts pid arr0 policy m = Some (Inl e, m')
    \<and> e \<in> {StructError, TypeError} \<and> image_ok h m' \<and> s_state (slots (image_ring h m') ! s) = STATE_WRITING
    \<and> g_next_seq (image_ring h m') = g_next_seq (image_ring h m)
    \<and> (\<forall>m2. image_ok h m2 \<and> s_state (slots (image_ring h m2) ! s) = STATE_WRITING \<longrightarrow>
         ref_select_slot (ref_of h) m2 \<noteq> (Inr (Some (int s)), m2))"
proof -
  let ?r = "image_ring h m" let ?stamp = "stamp_of (pc_now_ns T 0) ts"
  let ?q = "uint (g_next_seq ?r)" and ?c = "uint (g_consumers ?r)"
  have len: "length (na_data arr) \<le> payload_len (i_slot_capacity h)"
    using assms(1,9) by (intro capacity_payload [of _ _ "i_slot_count h"]) (simp_all add: image_ok_def geometry_ok_def)
  have q: "?q < 2 ^ 64" using uint_lt2p [of "g_next_seq ?r"] by simp
  have "\<exists>e m'. ref_write_slot (ref_of h) (pc_now_ns T 0) ts pid arr (int s) ?q ?c m = (Inl e, m') \<and> e \<in> {StructError, TypeError} \<and>
      image_ok h m' \<and> s_state (slots (image_ring h m') ! s) = STATE_WRITING \<and> g_next_seq (image_ring h m') = g_next_seq ?r"
  proof (cases "0 \<le> ?stamp \<and> ?stamp < 2 ^ 64")
    case True
    then have "ref_write_slot (ref_of h) (pc_now_ns T 0) ts pid arr (int s) ?q ?c m =
        (Inl TypeError, fold (byte_store h s) (ref_header_stores ?q ?stamp pid d arr ?c) m)"
      using ref_write_slot_stores [OF assms(1,3,6,4) len, of ?q "pc_now_ns T 0" ts ?c pid] bad assms(10,11,12) q
      by (auto simp: Let_def)
    moreover have "s_state (slots (image_ring h (fold (byte_store h s) (ref_header_stores ?q ?stamp pid d arr ?c) m)) ! s) = STATE_WRITING"
      "g_next_seq (image_ring h (fold (byte_store h s) (ref_header_stores ?q ?stamp pid d arr ?c) m)) = g_next_seq ?r"
      using assms(1,3) by (simp_all add: ref_header_image upd_slot_def)
    ultimately show ?thesis using assms(1,3) by auto
  next
    case False
    let ?m' = "fold (byte_store h s) (ref_early_stores ?q) m"
    have "ref_write_u64 (int (slot_pos h s) + 16) ?stamp m'' = (Inl StructError, m'')" for m''
      using False by (simp add: ref_write_u64_def ref_pack_bad)
    then have "ref_write_slot (ref_of h) (pc_now_ns T 0) ts pid arr (int s) ?q ?c m = (Inl StructError, ?m')"
      using assms(1,3) q
      by (simp add: ref_write_slot_def ref_slot_base_pos Let_def ref_S_STATE_def ref_S_SEQUENCE_def ref_S_TIMESTAMP_NS_def
          ref_STATE_WRITING_def ref_slot_stores ref_early_stores_def STATE_WRITING_def stamp_of_def del: byte_store.simps)
    moreover have valid: "\<forall>st\<in>set (ref_early_stores ?q). field_valid h (store_field s st)"
      using assms(3) by (simp add: ref_early_stores_def)
    moreover have "image_ring h ?m' = fold (store_at s) (ref_early_stores ?q) ?r"
      using byte_stores_ring [OF assms(1,3) valid] by simp
    then have "s_state (slots (image_ring h ?m') ! s) = STATE_WRITING" "g_next_seq (image_ring h ?m') = g_next_seq ?r"
      using assms(3) by (simp_all add: ref_early_stores_def upd_slot_def)
    ultimately show ?thesis using assms(1,3) by auto
  qed
  then obtain e m' where w: "ref_write_slot (ref_of h) (pc_now_ns T 0) ts pid arr (int s) ?q ?c m = (Inl e, m')" "e \<in> {StructError, TypeError}"
      "image_ok h m'" "s_state (slots (image_ring h m') ! s) = STATE_WRITING" "g_next_seq (image_ring h m') = g_next_seq ?r"
    by blast
  have "ref_publish_attempt (ref_of h) (pc_now_ns T 0) ts pid arr policy m = (Inl e, m')"
    using header_reads(4,5) [OF assms(1)]
    by (simp add: ref_publish_attempt_def assms(2) w(1) ref_G_NEXT_SEQ_def ref_G_CONSUMERS_def)
  then have "ref_publish contiguous (ref_of h) T ts pid arr0 policy m = Some (Inl e, m')"
    by (simp add: ref_publish_attempted [of contiguous arr0 arr d h, OF assms(5,7,8,9)] ref_publish_loop.simps)
  moreover have "ref_select_slot (ref_of h) m2 \<noteq> (Inr (Some (int s)), m2)"
    if "image_ok h m2" "s_state (slots (image_ring h m2) ! s) = STATE_WRITING" for m2
    using ref_choice_kind [of "image_ring h m2" "int s"] that by (auto simp: ref_select_image)
  ultimately show ?thesis using w by blast
qed


theorem reference_failure_costs_slot_witness:
  "\<exists>e m'. ref_publish (\<lambda>a. a) (ref_of demo_inner) demo_ref_clock (Some (- 1)) 9 two_bytes ''block'' demo_created = Some (Inl e, m')
    \<and> e \<in> {StructError, TypeError} \<and> s_state (slots (image_ring demo_inner m') ! 0) = STATE_WRITING
    \<and> ref_select_slot (ref_of demo_inner) m' \<noteq> (Inr (Some 0), m')"
proof -
  have "stamp_of (pc_now_ns demo_ref_clock 0) (Some (- 1)) < 0" by (simp add: stamp_of_def)
  then have bad: "(stamp_of (pc_now_ns demo_ref_clock 0) (Some (- 1)) < 0 \<or> 2 ^ 64 \<le> stamp_of (pc_now_ns demo_ref_clock 0) (Some (- 1))) \<or>
      (length (na_shape two_bytes) \<noteq> 1 \<and> 0 \<in> set (na_shape two_bytes))" by blast
  have "\<exists>e m'. ref_publish (\<lambda>a. a) (ref_of demo_inner) demo_ref_clock (Some (- 1)) 9 two_bytes ''block'' demo_created = Some (Inl e, m')
    \<and> e \<in> {StructError, TypeError} \<and> image_ok demo_inner m' \<and> s_state (slots (image_ring demo_inner m') ! 0) = STATE_WRITING
    \<and> g_next_seq (image_ring demo_inner m') = g_next_seq (image_ring demo_inner demo_created)
    \<and> (\<forall>m2. image_ok demo_inner m2 \<and> s_state (slots (image_ring demo_inner m2) ! 0) = STATE_WRITING \<longrightarrow>
         ref_select_slot (ref_of demo_inner) m2 \<noteq> (Inr (Some (int 0)), m2))"
    by (rule reference_failure_costs_slot [of demo_inner demo_created 0 "\<lambda>a. a" two_bytes two_bytes U8])
      (use two_bytes_ok demo_select bad in \<open>simp_all add: demo_geometry demo_created_ring demo_slots\<close>,
       simp_all add: two_bytes_def MAX_NDIM_def)
  then show ?thesis by auto
qed

theorem reference_selects_same_slot_witness:
  "ref_select_slot (ref_of demo_inner) demo_created = (Inr (map_option int (pick_slot (image_ring demo_inner demo_created))), demo_created)"
  by (rule reference_selects_same_slot [OF demo_created_ring(1)])
    (simp_all add: demo_created_ring demo_slots seqs_ok_def seqs_within_def in_use_def zero_slot_def STATE_FREE_def STATE_COMMITTED_def)


subsection \<open>Closing, and leases\<close>

text \<open>
  Closing a consumer of the reference counts it out and touches no slot: the frames that waited for it
  keep its share of \<^verbatim>\<open>readers_remaining\<close>, and the reference never chooses a slot while that is not 0.
\<close>

theorem reference_close_keeps_counts:
  assumes "image_ok h m" and "s < unat (i_slot_count h)"
    and "s_state (slots (image_ring h m) ! s) = STATE_COMMITTED" and "s_readers_remaining (slots (image_ring h m) ! s) \<noteq> 0"
  shows "\<exists>m'. ref_consumer_close False m = (Inr True, m') \<and> image_ok h m' \<and>
    slots (image_ring h m') = slots (image_ring h m) \<and>
    uint (g_consumers (image_ring h m')) = max 0 (uint (g_consumers (image_ring h m)) - 1) \<and>
    ref_select_slot (ref_of h) m' \<noteq> (Inr (Some (int s)), m')"
proof -
  let ?n = "max 0 (uint (g_consumers (image_ring h m)) - 1)"
  let ?m' = "put h GConsumers (word_bytes (of_int ?n :: u32)) m"
  have n: "0 \<le> ?n" "?n < 2 ^ 32" using uint_lt2p [of "g_consumers (image_ring h m)"] by simp_all
  have "ref_consumer_close False m = (Inr True, ?m')"
    using header_reads(5) [OF assms(1)] header_writes(5) [OF assms(1) n] by (simp add: ref_consumer_close_def ref_G_CONSUMERS_def)
  moreover have ok: "image_ok h ?m'" using assms(1) by simp
  moreover have slots: "slots (image_ring h ?m') = slots (image_ring h m)" using assms(1) by (simp add: put_image_ring)
  moreover have "uint (g_consumers (image_ring h ?m')) = ?n"
  proof -
    have "uint (of_int ?n :: u32) = ?n"
      using n by (simp only: uint_word_of_int_eq) (intro take_bit_int_eq_self, simp_all)
    then show ?thesis using assms(1) by (simp add: put_image_ring)
  qed
  moreover have "ref_choice (image_ring h ?m') \<noteq> Some (int s)"
    using ref_choice_kind [of "image_ring h ?m'" "int s"] assms(3,4) unfolding slots by auto
  ultimately show ?thesis by (intro exI [of _ ?m']) (simp add: ref_select_image [OF ok])
qed

theorem reference_close_keeps_counts_witness:
  "\<exists>m'. ref_consumer_close False (publish_image demo_inner 0 demo_reservation [40, 41] demo_image) = (Inr True, m') \<and>
    ref_select_slot (ref_of demo_inner) m' \<noteq> (Inr (Some 0), m')"
proof -
  let ?m = "publish_image demo_inner 0 demo_reservation [40, 41] demo_image"
  have ok: "image_ok demo_inner ?m" by (rule publish_image_ring(1) [OF demo_image_ok]) (simp_all add: demo_geometry)
  have slot: "slots (image_ring demo_inner ?m) ! 0 = published_header demo_reservation (slots (image_ring demo_inner demo_image) ! 0)"
    by (rule published_slot(1) [OF demo_image_ok]) (simp_all add: demo_geometry)
  have "count_ones (1 :: u64) = 1" by (simp add: count_ones_def upt_rec)
  then have "s_state (slots (image_ring demo_inner ?m) ! 0) = STATE_COMMITTED"
    "s_readers_remaining (slots (image_ring demo_inner ?m) ! 0) \<noteq> 0"
    unfolding slot by (simp_all add: published_header_def demo_reservation_def)
  from reference_close_keeps_counts [OF ok _ this] show ?thesis by (auto simp: demo_geometry)
qed

text \<open>
  A lease of the reference: while a view is reachable, or was handed out without a weak reference,
  \<^verbatim>\<open>release\<close> refuses and changes nothing; otherwise it releases once, and a second call does nothing.
\<close>

lemma ref_lease_release_once:
  assumes "\<not> pb_released l"
  shows "ref_borrowed_views alive l \<noteq> 0 \<Longrightarrow> ref_lease_release alive R l b = (Inl LeaseStillBorrowed, l, b)"
    and "ref_borrowed_views alive (ref_track v False l) \<noteq> 0"
    and "alive v \<Longrightarrow> ref_borrowed_views alive (ref_track v True l) \<noteq> 0"
    and "ref_borrowed_views alive l = 0 \<Longrightarrow> ref_lease_release alive R l b = (res, l', b') \<Longrightarrow>
      ref_consumer_release R (pb_meta l) b = (res, b') \<and> ref_lease_release alive2 R l' b2 = (Inr (), l', b2)"
  using assms by (auto simp: ref_lease_release_def ref_borrowed_views_def ref_track_def split: prod.splits)

end
